(* ===== verification/Prelude.thy ===== *)
theory Prelude
  imports Complex_Main
begin

text \<open>
  Shared vocabulary of the development: SQL-style tables as lists of rows, the
  primary-key operations on them, and the generic list lemmas the components share.

  A table is the list of its rows in storage order. \<open>update_where p f\<close> is
  \<open>UPDATE .. SET f WHERE p\<close>, \<open>count_where p\<close> its row count,
  \<open>delete_where p\<close> is \<open>DELETE .. WHERE p\<close>, \<open>row_at key k\<close> is the
  primary-key lookup and \<open>upsert_row key\<close> is \<open>INSERT .. ON CONFLICT DO UPDATE\<close>.
  Every store of the program (change queue, counters, idle clock, run records,
  vector index) is one of these tables, so its laws come from here.
\<close>

named_theorems table_simps \<open>rewrite rules for table operations\<close>

type_synonym time = int  \<comment> \<open>instants in microseconds since the epoch\<close>

section \<open>Tables\<close>

definition update_where :: "('r \<Rightarrow> bool) \<Rightarrow> ('r \<Rightarrow> 'r) \<Rightarrow> 'r list \<Rightarrow> 'r list" where
  "update_where p f t = map (\<lambda>r. if p r then f r else r) t"

definition count_where :: "('r \<Rightarrow> bool) \<Rightarrow> 'r list \<Rightarrow> nat" where
  "count_where p t = length (filter p t)"

definition delete_where :: "('r \<Rightarrow> bool) \<Rightarrow> 'r list \<Rightarrow> 'r list" where
  "delete_where p t = filter (\<lambda>r. \<not> p r) t"

definition row_at :: "('r \<Rightarrow> 'k) \<Rightarrow> 'k \<Rightarrow> 'r list \<Rightarrow> 'r option" where
  "row_at key k t = find (\<lambda>r. key r = k) t"

definition upsert_row :: "('r \<Rightarrow> 'k) \<Rightarrow> 'r \<Rightarrow> ('r \<Rightarrow> 'r) \<Rightarrow> 'r list \<Rightarrow> 'r list" where
  "upsert_row key new merge t =
     (if key new \<in> key ` set t
      then update_where (\<lambda>r. key r = key new) merge t
      else t @ [new])"

text \<open>\<open>COALESCE(MAX(col), 0)\<close>.\<close>

definition coalesce_max :: "int list \<Rightarrow> int" where
  "coalesce_max xs = (case xs of [] \<Rightarrow> 0 | y # ys \<Rightarrow> fold max ys y)"

subsection \<open>Lookup\<close>

lemma row_at_Nil [simp, table_simps]: "row_at key k [] = None"
  by (simp add: row_at_def)

lemma row_at_Cons [table_simps]:
  "row_at key k (r # t) = (if key r = k then Some r else row_at key k t)"
  by (simp add: row_at_def)

lemma row_at_append [table_simps]:
  "row_at key k (t @ u) = (case row_at key k t of Some r \<Rightarrow> Some r | None \<Rightarrow> row_at key k u)"
  by (induction t) (auto simp: row_at_Cons)

lemma row_at_None_iff: "row_at key k t = None \<longleftrightarrow> k \<notin> key ` set t"
  by (induction t) (auto simp: row_at_Cons)

lemma row_at_SomeD: "row_at key k t = Some r \<Longrightarrow> r \<in> set t \<and> key r = k"
  by (induction t) (auto simp: row_at_Cons split: if_splits)

lemma row_at_Some_iff:
  "distinct (map key t) \<Longrightarrow> row_at key k t = Some r \<longleftrightarrow> r \<in> set t \<and> key r = k"
proof (induction t)
  case (Cons x t)
  then show ?case by (auto simp: row_at_Cons)
qed simp

lemma row_at_in_set:
  "distinct (map key t) \<Longrightarrow> r \<in> set t \<Longrightarrow> row_at key (key r) t = Some r"
  by (simp add: row_at_Some_iff)

subsection \<open>Update\<close>

lemma update_where_Nil [simp]: "update_where p f [] = []"
  by (simp add: update_where_def)

lemma update_where_Cons [simp]:
  "update_where p f (r # t) = (if p r then f r else r) # update_where p f t"
  by (simp add: update_where_def)

lemma length_update_where [simp]: "length (update_where p f t) = length t"
  by (simp add: update_where_def)

lemma map_update_where:
  "(\<And>r. g (f r) = g r) \<Longrightarrow> map g (update_where p f t) = map g t"
  by (simp add: update_where_def)

lemma set_update_where:
  "set (update_where p f t) = (\<lambda>r. if p r then f r else r) ` set t"
  by (simp add: update_where_def)

lemma row_at_update_where:
  assumes "\<And>r. key (f r) = key r"
  shows "row_at key k (update_where p f t)
         = map_option (\<lambda>r. if p r then f r else r) (row_at key k t)"
  by (induction t) (simp_all add: row_at_Cons assms)

lemma update_where_None:
  "count_where p t = 0 \<Longrightarrow> update_where p f t = t"
  by (induction t) (auto simp: count_where_def split: if_splits)

lemma filter_update_where_disjoint:
  assumes "\<And>r. p r \<Longrightarrow> \<not> q r" and "\<And>r. p r \<Longrightarrow> \<not> q (f r)"
  shows "filter q (update_where p f t) = filter q t"
  by (induction t) (auto simp: assms)

subsection \<open>Count and delete\<close>

lemma count_where_Nil [simp]: "count_where p [] = 0"
  by (simp add: count_where_def)

lemma count_where_Cons [simp]:
  "count_where p (r # t) = (if p r then Suc (count_where p t) else count_where p t)"
  by (simp add: count_where_def)

lemma count_where_append [simp]: "count_where p (t @ u) = count_where p t + count_where p u"
  by (simp add: count_where_def)

lemma count_where_zero_iff: "count_where p t = 0 \<longleftrightarrow> (\<forall>r \<in> set t. \<not> p r)"
  by (simp add: count_where_def filter_empty_conv)

lemma count_where_le: "count_where p t \<le> length t"
  by (simp add: count_where_def)

lemma row_at_delete_where:
  assumes "distinct (map key t)"
  shows "row_at key k (delete_where p t)
         = (case row_at key k t of Some r \<Rightarrow> if p r then None else Some r | None \<Rightarrow> None)"
  using assms
proof (induction t)
  case (Cons x t)
  then show ?case
    by (auto simp: delete_where_def row_at_Cons row_at_None_iff image_iff
        split: option.splits dest!: row_at_SomeD)
qed (simp add: delete_where_def)

lemma distinct_map_delete_where:
  "distinct (map key t) \<Longrightarrow> distinct (map key (delete_where p t))"
  by (simp add: delete_where_def distinct_map_filter)

lemma length_delete_where: "length (delete_where p t) + count_where p t = length t"
  by (induction t) (auto simp: delete_where_def)

subsection \<open>Upsert\<close>

lemma keys_upsert_row:
  assumes "\<And>r. key (merge r) = key r"
  shows "map key (upsert_row key new merge t)
         = map key t @ (if key new \<in> key ` set t then [] else [key new])"
  by (simp add: upsert_row_def map_update_where assms)

lemma distinct_upsert_row:
  assumes "\<And>r. key (merge r) = key r" and "distinct (map key t)"
  shows "distinct (map key (upsert_row key new merge t))"
  using assms(2) by (simp add: keys_upsert_row [where key = key and merge = merge, OF assms(1)])

lemma row_at_upsert_row:
  assumes "\<And>r. key (merge r) = key r"
  shows "row_at key k (upsert_row key new merge t)
         = (if k = key new
            then Some (case row_at key k t of None \<Rightarrow> new | Some r \<Rightarrow> merge r)
            else row_at key k t)"
proof (cases "key new \<in> key ` set t")
  case True
  then show ?thesis
    using row_at_None_iff [of key "key new" t]
    by (auto simp: upsert_row_def row_at_update_where assms split: option.splits
          dest: row_at_SomeD intro!: option.map_ident_strong)
next
  case False
  then show ?thesis
    using row_at_None_iff [of key "key new" t]
    by (auto simp: upsert_row_def row_at_append row_at_Cons split: option.splits)
qed

lemma set_upsert_row:
  "set (upsert_row key new merge t) \<subseteq> insert new (set t \<union> merge ` set t)"
  by (auto simp: upsert_row_def set_update_where)

section \<open>Maxima\<close>

lemma fold_max_ge: "(y::int) \<le> fold max ys y"
proof (induction ys arbitrary: y)
  case (Cons z ys)
  have "y \<le> max z y" by simp
  also have "\<dots> \<le> fold max ys (max z y)" by (rule Cons.IH)
  finally show ?case by simp
qed simp

lemma fold_max_mem: "x \<in> set ys \<Longrightarrow> (x::int) \<le> fold max ys y"
proof (induction ys arbitrary: y)
  case (Cons z ys)
  then show ?case using fold_max_ge [of "max z y" ys] by auto
qed simp

lemma coalesce_max_ge: "x \<in> set xs \<Longrightarrow> x \<le> coalesce_max xs"
  by (cases xs) (auto simp: coalesce_max_def intro: fold_max_ge fold_max_mem)

lemma coalesce_max_in: "xs \<noteq> [] \<Longrightarrow> coalesce_max xs \<in> set xs"
proof (cases xs)
  case (Cons y ys)
  have "fold max zs z \<in> insert z (set zs)" for zs and z :: int
    by (induction zs arbitrary: z) (auto, metis max_def)
  with Cons show ?thesis by (simp add: coalesce_max_def)
qed simp

section \<open>Decimal numerals\<close>

text \<open>\<open>str(n)\<close> of a non-negative integer.\<close>

fun dec :: "nat \<Rightarrow> string" where
  "dec n = (if n < 10 then [char_of (48 + n)] else dec (n div 10) @ [char_of (48 + n mod 10)])"

declare dec.simps [simp del]

text \<open>\<open>f"{n:0w}"\<close>: zeros in front up to the width.\<close>

definition zero_pad :: "nat \<Rightarrow> string \<Rightarrow> string" where
  "zero_pad w s = replicate (w - length s) CHR ''0'' @ s"

text \<open>Reading a numeral back.\<close>

definition undec :: "string \<Rightarrow> nat" where
  "undec s = foldl (\<lambda>n c. n * 10 + (of_char c - 48)) 0 s"

lemma undec_snoc [simp]: "undec (s @ [c]) = undec s * 10 + (of_char c - 48)"
  by (simp add: undec_def)

lemma of_char_digit: "d < 10 \<Longrightarrow> (of_char (char_of (48 + d) :: char) :: nat) = 48 + d"
  by simp

lemma undec_dec [simp]: "undec (dec n) = n"
proof (induction n rule: dec.induct)
  case (1 n)
  have "undec [char_of (48 + d)] = d" if "d < 10" for d
    using undec_snoc [of "[]" "char_of (48 + d)"] of_char_digit [OF that] by (simp add: undec_def)
  with 1 show ?case
    by (subst dec.simps) (simp add: of_char_digit)
qed

lemma dec_inj [simp]: "dec m = dec n \<longleftrightarrow> m = n"
  by (metis undec_dec)

lemma undec_zero_pad [simp]: "undec (zero_pad w s) = undec s"
proof -
  have "foldl (\<lambda>n c. n * 10 + (of_char c - 48)) 0 (replicate k CHR ''0'') = (0 :: nat)" for k
    by (induction k) simp_all
  then show ?thesis by (simp add: undec_def zero_pad_def)
qed

definition is_digit :: "char \<Rightarrow> bool" where
  "is_digit c \<longleftrightarrow> 48 \<le> (of_char c :: nat) \<and> (of_char c :: nat) \<le> 57"

lemma dec_digits: "list_all is_digit (dec n)"
proof (induction n rule: dec.induct)
  case (1 n)
  have "is_digit (char_of (48 + d))" if "d < 10" for d :: nat
    using that by (simp add: is_digit_def)
  with 1 show ?case by (subst dec.simps) auto
qed

lemma zero_pad_digits: "list_all is_digit s \<Longrightarrow> list_all is_digit (zero_pad w s)"
  by (auto simp: zero_pad_def is_digit_def list_all_iff)

section \<open>Strings\<close>

text \<open>\<open>str.lower\<close> on the ASCII letters, and the substring test \<open>pat in s\<close>.\<close>

definition lower_char :: "char \<Rightarrow> char" where
  "lower_char c = (let n = (of_char c :: nat) in if 65 \<le> n \<and> n \<le> 90 then char_of (n + 32) else c)"

fun contains :: "string \<Rightarrow> string \<Rightarrow> bool" where
  "contains pat [] = (pat = [])"
| "contains pat (c # s) = (take (length pat) (c # s) = pat \<or> contains pat s)"

section \<open>Generic lists\<close>

lemma distinct_singleton:
  assumes "set xs = {x}" and "distinct xs"
  shows "xs = [x]"
proof -
  have "length xs = Suc 0" using distinct_card [OF assms(2)] assms(1) by simp
  then obtain y where "xs = [y]" by (cases xs) auto
  then show ?thesis using assms(1) by simp
qed

lemma sorted_filter_take:
  "sorted (map key (take n (sort_key key (filter p t))))"
  by (metis sorted_sort_key sorted_wrt_take take_map)

lemma distinct_map_take: "distinct (map f t) \<Longrightarrow> distinct (map f (take n t))"
  by (metis distinct_take take_map)

section \<open>Text\<close>

text \<open>Python's \<open>sep.join(xs)\<close>.\<close>

fun join :: "string \<Rightarrow> string list \<Rightarrow> string" where
  "join sep [] = []"
| "join sep [x] = x"
| "join sep (x # y # ys) = x @ sep @ join sep (y # ys)"

text \<open>Python's \<open>str.rstrip()\<close>, for the white space among the 256 character codes.\<close>

definition is_space :: "char \<Rightarrow> bool" where
  "is_space c \<longleftrightarrow> (of_char c :: nat) \<in> {9, 10, 11, 12, 13, 28, 29, 30, 31, 32, 133, 160}"

definition rstrip :: "string \<Rightarrow> string" where
  "rstrip s = rev (dropWhile is_space (rev s))"

section \<open>Actions\<close>

text \<open>
  A coroutine that may raise: its result or exception together with the state it leaves, so that
  what was done before an exception stays done.
\<close>

type_synonym ('e, 'a, 's) action = "'s \<Rightarrow> ('e + 'a) \<times> 's"

definition ret :: "'a \<Rightarrow> ('e, 'a, 's) action" where
  "ret x s = (Inr x, s)"

definition raise :: "'e \<Rightarrow> ('e, 'a, 's) action" where
  "raise e s = (Inl e, s)"

definition bindM :: "('e, 'a, 's) action \<Rightarrow> ('a \<Rightarrow> ('e, 'b, 's) action) \<Rightarrow> ('e, 'b, 's) action" where
  "bindM m f s = (case m s of (Inl e, s') \<Rightarrow> (Inl e, s') | (Inr x, s') \<Rightarrow> f x s')"

fun each :: "('a \<Rightarrow> ('e, unit, 's) action) \<Rightarrow> 'a list \<Rightarrow> ('e, unit, 's) action" where
  "each f [] = ret ()"
| "each f (x # xs) = bindM (f x) (\<lambda>_. each f xs)"

text \<open>\<open>try ... except Exception\<close>: the handler runs in the state the exception left.\<close>

definition catchM :: "('e, 'a, 's) action \<Rightarrow> ('e \<Rightarrow> ('e, 'a, 's) action) \<Rightarrow> ('e, 'a, 's) action" where
  "catchM m h s = (case m s of (Inl e, s') \<Rightarrow> h e s' | (Inr x, s') \<Rightarrow> (Inr x, s'))"

end
