(* ===== verification/Change_Queue.thy ===== *)
theory Change_Queue
  imports Prelude
begin

text \<open>
  The cascade work queue: table \<open>md_change_state\<close>
  (\<open>infra/persistence/sqlite/tables/md_change_state.py\<close>) and its sole writer
  \<open>_MdChangeStateRepo\<close> (\<open>infra/persistence/sqlite/repos/md_change_state.py\<close>).
  The state is the table, a list of rows; every repo method is one function from the
  clock value it reads and the table to its result and the table after its commit.
  \<open>ORDER BY lsn\<close> is a stable sort; file times are the rational values of the
  floats.
\<close>

section \<open>Data\<close>

datatype status = Pending | Processing | Done | Failed
datatype change_type = Added | Modified | Deleted

record change_row =
  md_path :: string
  kind :: string
  change_type :: change_type
  mtime :: rat
  first_seen_at :: time
  last_changed_at :: time
  lsn :: int
  status :: status
  retryable :: "bool option"
  last_attempt_at :: "time option"
  retry_count :: nat
  error_msg :: "string option"

type_synonym queue = "change_row list"

record queue_summary =
  qs_pending :: nat
  qs_done :: nat
  qs_failed_retryable :: nat
  qs_failed_permanent :: nat
  qs_max_lsn :: int
  qs_last_processed_lsn :: int

definition MTIME_TOLERANCE_SECONDS :: rat where
  "MTIME_TOLERANCE_SECONDS = 1 / 100"

abbreviation queue_row :: "string \<Rightarrow> queue \<Rightarrow> change_row option" where
  "queue_row p q \<equiv> row_at md_path p q"

section \<open>Operations\<close>

definition next_lsn :: "queue \<Rightarrow> int" where
  "next_lsn q = coalesce_max (map lsn q) + 1"

definition upsert :: "time \<Rightarrow> string \<Rightarrow> string \<Rightarrow> change_type \<Rightarrow> rat \<Rightarrow> queue \<Rightarrow> int \<times> queue" where
  "upsert now p k ct mt q =
     (let new_lsn = next_lsn q;
          new = \<lparr>md_path = p, kind = k, change_type = ct, mtime = mt,
                 first_seen_at = now, last_changed_at = now, lsn = new_lsn,
                 status = Pending, retryable = None, last_attempt_at = None,
                 retry_count = 0, error_msg = None\<rparr>;
          merge = (\<lambda>r. r\<lparr>kind := k, change_type := ct, mtime := mt,
                 last_changed_at := now, lsn := new_lsn, status := Pending,
                 retryable := None, last_attempt_at := None,
                 retry_count := (if status r = Failed \<and> \<bar>mtime r - mt\<bar> < MTIME_TOLERANCE_SECONDS
                                 then retry_count r else 0),
                 error_msg := None\<rparr>)
      in (new_lsn, upsert_row md_path new merge q))"

definition force_enqueue :: "time \<Rightarrow> string \<Rightarrow> string \<Rightarrow> queue \<Rightarrow> int \<times> queue" where
  "force_enqueue now p k q = upsert now p k Modified 0 q"

definition claim_row :: "time \<Rightarrow> change_row \<Rightarrow> change_row" where
  "claim_row now r = r\<lparr>status := Processing, last_attempt_at := Some now\<rparr>"

definition claim_one :: "time \<Rightarrow> string \<Rightarrow> queue \<Rightarrow> change_row option \<times> queue" where
  "claim_one now p q =
     (let hit = (\<lambda>r. md_path r = p \<and> status r = Pending);
          q' = update_where hit (claim_row now) q
      in if count_where hit q \<noteq> 1 then (None, q') else (queue_row p q', q'))"

definition pick_pending :: "nat \<Rightarrow> string set option \<Rightarrow> queue \<Rightarrow> string list" where
  "pick_pending limit kinds q =
     map md_path (take limit (sort_key lsn
       (filter (\<lambda>r. status r = Pending \<and> (case kinds of None \<Rightarrow> True | Some ks \<Rightarrow> kind r \<in> ks)) q)))"

definition claim_pending_batch ::
  "time \<Rightarrow> nat \<Rightarrow> string set option \<Rightarrow> queue \<Rightarrow> change_row list \<times> queue" where
  "claim_pending_batch now limit kinds q =
     (if limit = 0 then ([], q)
      else if kinds = Some {} then ([], q)
      else let picks = pick_pending limit kinds q in
        if picks = [] then ([], q)
        else let hit = (\<lambda>r. md_path r \<in> set picks \<and> status r = Pending);
                 q' = update_where hit (claim_row now) q
             in if count_where hit q = 0 then ([], q')
                else (sort_key lsn (filter (\<lambda>r. md_path r \<in> set picks \<and> status r = Processing) q'), q'))"

definition mark_done :: "time \<Rightarrow> string \<Rightarrow> queue \<Rightarrow> queue" where
  "mark_done now p =
     update_where (\<lambda>r. md_path r = p \<and> status r = Processing)
       (\<lambda>r. r\<lparr>status := Done, last_attempt_at := Some now, error_msg := None, retryable := None\<rparr>)"

definition mark_failed :: "time \<Rightarrow> string \<Rightarrow> bool \<Rightarrow> string \<Rightarrow> nat \<Rightarrow> queue \<Rightarrow> queue" where
  "mark_failed now p can_retry err new_retry_count =
     update_where (\<lambda>r. md_path r = p \<and> status r = Processing)
       (\<lambda>r. r\<lparr>status := Failed, retryable := Some can_retry, last_attempt_at := Some now,
             error_msg := Some err, retry_count := new_retry_count\<rparr>)"

definition recover_orphan_processing :: "queue \<Rightarrow> nat \<times> queue" where
  "recover_orphan_processing q =
     (count_where (\<lambda>r. status r = Processing) q,
      update_where (\<lambda>r. status r = Processing)
        (\<lambda>r. r\<lparr>status := Pending, last_attempt_at := None\<rparr>) q)"

definition list_failed :: "queue \<Rightarrow> change_row list" where
  "list_failed q = sort_key lsn (filter (\<lambda>r. status r = Failed) q)"

definition reset_retryable_to_pending :: "time \<Rightarrow> queue \<Rightarrow> nat \<times> queue" where
  "reset_retryable_to_pending now q =
     (let hit = (\<lambda>r. status r = Failed \<and> retryable r = Some True)
      in (count_where hit q,
          update_where hit (\<lambda>r. r\<lparr>status := Pending, retryable := None, retry_count := 0,
                                  error_msg := None, last_changed_at := now\<rparr>) q))"

definition reset_all :: "queue \<Rightarrow> nat \<times> queue" where
  "reset_all q = (length q, delete_where (\<lambda>_. True) q)"

definition queue_summary_of :: "queue \<Rightarrow> queue_summary" where
  "queue_summary_of q =
     \<lparr>qs_pending = count_where (\<lambda>r. status r \<in> {Pending, Processing}) q,
      qs_done = count_where (\<lambda>r. status r = Done) q,
      qs_failed_retryable = count_where (\<lambda>r. status r = Failed \<and> retryable r = Some True) q,
      qs_failed_permanent = count_where (\<lambda>r. status r = Failed \<and> retryable r = Some False) q,
      qs_max_lsn = coalesce_max (map lsn q),
      qs_last_processed_lsn =
        coalesce_max (map lsn (filter (\<lambda>r. status r \<in> {Done, Failed}) q))\<rparr>"

section \<open>Well-formed queues\<close>

definition wf_row :: "change_row \<Rightarrow> bool" where
  "wf_row r \<longleftrightarrow>
     (retryable r \<noteq> None \<longleftrightarrow> status r = Failed) \<and>
     (error_msg r \<noteq> None \<longleftrightarrow> status r = Failed) \<and>
     (status r = Processing \<longrightarrow> last_attempt_at r \<noteq> None) \<and>
     1 \<le> lsn r"

definition wf_queue :: "queue \<Rightarrow> bool" where
  "wf_queue q \<longleftrightarrow>
     distinct (map md_path q) \<and> distinct (map lsn q) \<and> (\<forall>r \<in> set q. wf_row r)"

named_theorems queue_defs \<open>definitions of the row-local queue operations\<close>

declare claim_row_def [queue_defs] mark_done_def [queue_defs] mark_failed_def [queue_defs]
  recover_orphan_processing_def [queue_defs] reset_retryable_to_pending_def [queue_defs]

text \<open>Row-local updates that keep path and LSN keep a queue well formed.\<close>

lemma wf_queue_update_where:
  assumes "wf_queue q"
    and "\<And>r. md_path (f r) = md_path r" and "\<And>r. lsn (f r) = lsn r"
    and "\<And>r. r \<in> set q \<Longrightarrow> p r \<Longrightarrow> wf_row r \<Longrightarrow> wf_row (f r)"
  shows "wf_queue (update_where p f q)"
  using assms by (auto simp: wf_queue_def map_update_where set_update_where)

lemma next_lsn_gt: "r \<in> set q \<Longrightarrow> lsn r < next_lsn q"
  by (simp add: next_lsn_def coalesce_max_ge)

lemma next_lsn_pos:
  assumes "\<forall>r \<in> set q. wf_row r"
  shows "1 \<le> next_lsn q"
proof (cases "q = []")
  case False
  then have "coalesce_max (map lsn q) \<in> lsn ` set q" using coalesce_max_in [of "map lsn q"] by simp
  then show ?thesis using assms by (auto simp: next_lsn_def wf_row_def)
qed (simp add: next_lsn_def coalesce_max_def)

lemma fst_upsert [simp]: "fst (upsert now p k ct mt q) = next_lsn q"
  by (simp add: upsert_def Let_def)

lemma queue_row_upsert:
  "queue_row x (snd (upsert now p k ct mt q)) =
     (if x = p then
        Some (case queue_row p q of
          None \<Rightarrow> \<lparr>md_path = p, kind = k, change_type = ct, mtime = mt,
                   first_seen_at = now, last_changed_at = now, lsn = next_lsn q,
                   status = Pending, retryable = None, last_attempt_at = None,
                   retry_count = 0, error_msg = None\<rparr>
        | Some r \<Rightarrow> r\<lparr>kind := k, change_type := ct, mtime := mt,
                   last_changed_at := now, lsn := next_lsn q, status := Pending,
                   retryable := None, last_attempt_at := None,
                   retry_count := (if status r = Failed \<and> \<bar>mtime r - mt\<bar> < MTIME_TOLERANCE_SECONDS
                                   then retry_count r else 0),
                   error_msg := None\<rparr>)
      else queue_row x q)"
  by (simp add: upsert_def Let_def row_at_upsert_row)

lemma distinct_map_update_at:
  "distinct (map key t) \<Longrightarrow> distinct (map g t) \<Longrightarrow> (\<And>r. r \<in> set t \<Longrightarrow> g r \<noteq> v) \<Longrightarrow>
   (\<And>r. g (f r) = v) \<Longrightarrow>
   distinct (map g (update_where (\<lambda>r. key r = k) f t))"
proof (induction t)
  case (Cons x t)
  have "g x \<notin> g ` set (update_where (\<lambda>r. key r = k) f t)" if "key x \<noteq> k"
    using Cons.prems by (auto simp: set_update_where)
  moreover have "update_where (\<lambda>r. key r = k) f t = t" if "key x = k"
    using Cons.prems(1) that
    by (intro update_where_None) (auto simp: count_where_zero_iff image_iff)
  ultimately show ?case using Cons by auto
qed simp

lemma wf_queue_upsert:
  assumes "wf_queue q"
  shows "wf_queue (snd (upsert now p k ct mt q))"
proof -
  have fresh: "lsn r \<noteq> next_lsn q" if "r \<in> set q" for r
    using next_lsn_gt [OF that] by simp
  have pos: "1 \<le> next_lsn q"
    using assms by (intro next_lsn_pos) (simp add: wf_queue_def)
  show ?thesis
    using assms fresh pos
    by (auto simp: wf_queue_def upsert_def Let_def upsert_row_def map_update_where
          set_update_where wf_row_def image_iff intro!: distinct_map_update_at)
      (metis fresh)+
qed

lemma wf_queue_claim_one: "wf_queue q \<Longrightarrow> wf_queue (snd (claim_one now p q))"
  by (auto simp: claim_one_def Let_def claim_row_def wf_row_def intro!: wf_queue_update_where)

lemma wf_queue_claim_pending_batch:
  "wf_queue q \<Longrightarrow> wf_queue (snd (claim_pending_batch now limit kinds q))"
  by (auto simp: claim_pending_batch_def Let_def claim_row_def wf_row_def
      intro!: wf_queue_update_where)

lemma wf_queue_mark_done: "wf_queue q \<Longrightarrow> wf_queue (mark_done now p q)"
  by (auto simp: mark_done_def wf_row_def intro!: wf_queue_update_where)

lemma wf_queue_mark_failed: "wf_queue q \<Longrightarrow> wf_queue (mark_failed now p b e n q)"
  by (auto simp: mark_failed_def wf_row_def intro!: wf_queue_update_where)

lemma wf_queue_recover: "wf_queue q \<Longrightarrow> wf_queue (snd (recover_orphan_processing q))"
  by (auto simp: recover_orphan_processing_def wf_row_def intro!: wf_queue_update_where)

lemma wf_queue_reset_retryable: "wf_queue q \<Longrightarrow> wf_queue (snd (reset_retryable_to_pending now q))"
  by (auto simp: reset_retryable_to_pending_def Let_def wf_row_def intro!: wf_queue_update_where)

lemma wf_queue_reset_all: "wf_queue (snd (reset_all q))"
  by (simp add: reset_all_def delete_where_def wf_queue_def)

lemma wf_queue_Nil [simp]: "wf_queue []"
  by (simp add: wf_queue_def)

lemmas wf_queue_ops = wf_queue_upsert wf_queue_claim_one wf_queue_claim_pending_batch
  wf_queue_mark_done wf_queue_mark_failed wf_queue_recover wf_queue_reset_retryable
  wf_queue_reset_all

section \<open>The queue as a state machine\<close>

inductive queue_step :: "queue \<Rightarrow> queue \<Rightarrow> bool" where
  enqueue: "queue_step q (snd (upsert now p k ct mt q))"
| claim: "queue_step q (snd (claim_one now p q))"
| claim_batch: "queue_step q (snd (claim_pending_batch now limit kinds q))"
| finish: "queue_step q (mark_done now p q)"
| give_up: "queue_step q (mark_failed now p b e n q)"
| recover: "queue_step q (snd (recover_orphan_processing q))"
| reset_retryable: "queue_step q (snd (reset_retryable_to_pending now q))"
| wipe: "queue_step q (snd (reset_all q))"

inductive queue_reachable :: "queue \<Rightarrow> bool" where
  empty_table: "queue_reachable []"
| step: "queue_reachable q \<Longrightarrow> queue_step q q' \<Longrightarrow> queue_reachable q'"

inductive_cases queue_step_cases: "queue_step q q'"

lemma queue_step_wf: "queue_step q q' \<Longrightarrow> wf_queue q \<Longrightarrow> wf_queue q'"
  by (erule queue_step_cases) (simp_all add: wf_queue_ops)

text \<open>
  Every table the repository methods can reach from the empty one has one row per
  path, pairwise different LSNs that are at least 1, a \<open>retryable\<close> flag and an error
  message exactly on the failed rows, and an attempt time on every claimed row.
\<close>

lemma reachable_wf_queue: "queue_reachable q \<Longrightarrow> wf_queue q"
  by (induction rule: queue_reachable.induct) (simp add: wf_queue_def, rule queue_step_wf)

lemma reachable_wf_queue_witness:
  "wf_queue (snd (claim_pending_batch 7 5 None (snd (upsert 3 ''a.md'' ''episode'' Added 1 []))))"
  by (rule reachable_wf_queue)
    (rule queue_reachable.intros queue_step.claim_batch queue_step.enqueue)+

section \<open>Claims\<close>

lemma claim_row_keeps [simp]:
  "md_path (claim_row now r) = md_path r" "lsn (claim_row now r) = lsn r"
  "kind (claim_row now r) = kind r" "change_type (claim_row now r) = change_type r"
  "retry_count (claim_row now r) = retry_count r" "mtime (claim_row now r) = mtime r"
  "status (claim_row now r) = Processing"
  by (simp_all add: claim_row_def)

text \<open>The rows one batch claim is entitled to: the first \<open>limit\<close> eligible pending rows.\<close>

definition claimable :: "string set option \<Rightarrow> change_row \<Rightarrow> bool" where
  "claimable kinds r \<longleftrightarrow>
     status r = Pending \<and> (case kinds of None \<Rightarrow> True | Some ks \<Rightarrow> kind r \<in> ks)"

definition claim_prefix :: "nat \<Rightarrow> string set option \<Rightarrow> queue \<Rightarrow> change_row list" where
  "claim_prefix limit kinds q = take limit (sort_key lsn (filter (claimable kinds) q))"

lemma pick_pending_eq: "pick_pending limit kinds q = map md_path (claim_prefix limit kinds q)"
  by (simp add: pick_pending_def claim_prefix_def claimable_def [abs_def])

lemma claim_prefix_subset: "r \<in> set (claim_prefix limit kinds q) \<Longrightarrow> r \<in> set q \<and> claimable kinds r"
  by (auto simp: claim_prefix_def dest: in_set_takeD)

lemma sorted_claim_prefix: "sorted (map lsn (claim_prefix limit kinds q))"
  by (simp add: claim_prefix_def sorted_filter_take)

lemma distinct_map_claim_prefix:
  assumes "distinct (map g q)"
  shows "distinct (map g (claim_prefix limit kinds q))"
  unfolding claim_prefix_def
proof (rule distinct_map_take)
  show "distinct (map g (sort_key lsn (filter (claimable kinds) q)))"
    using assms by (auto simp: distinct_map intro: inj_on_subset)
qed

lemma distinct_lsn_claim_prefix:
  "wf_queue q \<Longrightarrow> distinct (map lsn (claim_prefix limit kinds q))"
  by (simp add: distinct_map_claim_prefix wf_queue_def)

lemma wf_queue_same_path:
  "wf_queue q \<Longrightarrow> r \<in> set q \<Longrightarrow> r' \<in> set q \<Longrightarrow> md_path r = md_path r' \<Longrightarrow> r = r'"
  by (auto simp: wf_queue_def distinct_map dest: inj_onD)

lemma wf_queue_same_lsn:
  "wf_queue q \<Longrightarrow> r \<in> set q \<Longrightarrow> r' \<in> set q \<Longrightarrow> lsn r = lsn r' \<Longrightarrow> r = r'"
  by (auto simp: wf_queue_def distinct_map dest: inj_onD)

lemma sort_select_prefix:
  assumes "wf_queue q"
  shows "sort_key lsn (filter (\<lambda>r. r \<in> set (claim_prefix limit kinds q)) q)
         = claim_prefix limit kinds q"
proof (rule map_sorted_distinct_set_unique [where f = lsn])
  let ?p = "claim_prefix limit kinds q"
  let ?f = "filter (\<lambda>r. r \<in> set ?p) q"
  show "inj_on lsn (set (sort_key lsn ?f) \<union> set ?p)"
    using assms by (auto intro!: inj_onI dest: wf_queue_same_lsn claim_prefix_subset)
  show "distinct (map lsn (sort_key lsn ?f))"
    using assms by (auto simp: wf_queue_def distinct_map intro: inj_on_subset)
  show "set (sort_key lsn ?f) = set ?p"
    using claim_prefix_subset by auto
qed (simp_all add: assms sorted_claim_prefix distinct_lsn_claim_prefix)

lemma sort_key_map_same:
  assumes "\<And>x. k (f x) = k x"
  shows "sort_key k (map f xs) = map f (sort_key k xs)"
proof (induction xs)
  case (Cons x xs)
  have "insort_key k (f x) (map f ys) = map f (insort_key k x ys)" for ys
    by (induction ys) (simp_all add: assms)
  with Cons show ?case by simp
qed simp

lemma filter_update_where_same:
  assumes "\<And>r. r \<in> set t \<Longrightarrow> q (if p r then f r else r) \<longleftrightarrow> p r"
  shows "filter q (update_where p f t) = map f (filter p t)"
  using assms by (induction t) auto

lemma update_where_cong:
  "(\<And>r. r \<in> set t \<Longrightarrow> p r \<longleftrightarrow> p' r) \<Longrightarrow> update_where p f t = update_where p' f t"
  by (auto simp: update_where_def)

lemma claim_pending_batch_eq:
  assumes wf: "wf_queue q"
  shows "claim_pending_batch now limit kinds q =
    (map (claim_row now) (claim_prefix limit kinds q),
     update_where (\<lambda>r. r \<in> set (claim_prefix limit kinds q)) (claim_row now) q)"
proof (cases "claim_prefix limit kinds q = []")
  case True
  then show ?thesis
    by (simp add: claim_pending_batch_def pick_pending_eq Let_def update_where_def)
next
  case False
  let ?p = "claim_prefix limit kinds q"
  let ?hit = "\<lambda>r. md_path r \<in> set (pick_pending limit kinds q) \<and> status r = Pending"
  let ?q' = "update_where (\<lambda>r. r \<in> set ?p) (claim_row now) q"
  have inp: "md_path r \<in> md_path ` set ?p \<longleftrightarrow> r \<in> set ?p" if "r \<in> set q" for r
    using that claim_prefix_subset wf_queue_same_path [OF wf that] by blast
  have pend: "status r = Pending" if "r \<in> set ?p" for r
    using claim_prefix_subset [OF that] by (simp add: claimable_def)
  have hit: "?hit r \<longleftrightarrow> r \<in> set ?p" if "r \<in> set q" for r
    using inp [OF that] pend by (auto simp: pick_pending_eq)
  then have upd: "update_where ?hit (claim_row now) q = ?q'"
    by (intro update_where_cong) blast
  have ne: "limit \<noteq> 0" "kinds \<noteq> Some {}"
    using False by (auto simp: claim_prefix_def claimable_def)
  obtain r where r: "r \<in> set ?p" using False by (cases ?p) auto
  then have "count_where ?hit q \<noteq> 0"
    using hit claim_prefix_subset [OF r] by (auto simp: count_where_zero_iff)
  moreover have "filter (\<lambda>r. md_path r \<in> set (pick_pending limit kinds q) \<and> status r = Processing) ?q'
      = map (claim_row now) (filter (\<lambda>r. r \<in> set ?p) q)"
  proof (rule filter_update_where_same)
    fix r assume "r \<in> set q"
    then show "(md_path (if r \<in> set ?p then claim_row now r else r) \<in> set (pick_pending limit kinds q)
        \<and> status (if r \<in> set ?p then claim_row now r else r) = Processing) \<longleftrightarrow> r \<in> set ?p"
      using inp [of r] by (auto simp: pick_pending_eq claim_row_def)
  qed
  moreover have "sort_key lsn (map (claim_row now) (filter (\<lambda>r. r \<in> set ?p) q))
      = map (claim_row now) ?p"
    by (subst sort_key_map_same) (simp_all add: claim_row_def sort_select_prefix wf)
  ultimately show ?thesis
    using False ne upd by (simp add: claim_pending_batch_def Let_def pick_pending_eq)
qed

text \<open>
  A batch claim hands out exactly the first \<open>limit\<close> eligible pending rows in LSN
  order, each moved to \<open>processing\<close>, in strictly increasing LSN order, and leaves every
  other row of the table as it was.
\<close>

lemma claim_batch_functional:
  assumes "wf_queue q"
  shows "map md_path (fst (claim_pending_batch now limit kinds q))
           = take limit (map md_path (sort_key lsn (filter (claimable kinds) q))) \<and>
         sorted_wrt (<) (map lsn (fst (claim_pending_batch now limit kinds q))) \<and>
         queue_row p (snd (claim_pending_batch now limit kinds q)) =
           (case row_at md_path p (fst (claim_pending_batch now limit kinds q)) of
              Some r \<Rightarrow> Some r | None \<Rightarrow> queue_row p q)"
proof (intro conjI)
  let ?p = "claim_prefix limit kinds q"
  show "map md_path (fst (claim_pending_batch now limit kinds q))
           = take limit (map md_path (sort_key lsn (filter (claimable kinds) q)))"
    by (simp add: claim_pending_batch_eq assms claim_row_def claim_prefix_def take_map o_def)
  show "sorted_wrt (<) (map lsn (fst (claim_pending_batch now limit kinds q)))"
    using sorted_claim_prefix [of limit kinds q] distinct_lsn_claim_prefix [OF assms, of limit kinds]
    by (simp add: claim_pending_batch_eq assms claim_row_def o_def strict_sorted_iff)
  have dist: "distinct (map md_path q)" using assms by (simp add: wf_queue_def)
  have "row_at md_path p (map (claim_row now) ?p)
      = (case queue_row p q of None \<Rightarrow> None
         | Some r \<Rightarrow> if r \<in> set ?p then Some (claim_row now r) else None)"
  proof (cases "\<exists>r \<in> set ?p. md_path r = p")
    case True
    then obtain r where r: "r \<in> set ?p" "md_path r = p" by blast
    then have q: "queue_row p q = Some r"
      using claim_prefix_subset dist by (auto simp: row_at_Some_iff)
    have "distinct (map md_path ?p)"
      by (rule distinct_map_claim_prefix [OF dist])
    then have "row_at md_path p (map (claim_row now) ?p) = Some (claim_row now r)"
      using r by (subst row_at_Some_iff) (auto simp: claim_row_def o_def)
    with q r show ?thesis by simp
  next
    case False
    then have "row_at md_path p (map (claim_row now) ?p) = None"
      by (auto simp: row_at_None_iff claim_row_def)
    with False show ?thesis by (auto split: option.splits dest: row_at_SomeD)
  qed
  then show "queue_row p (snd (claim_pending_batch now limit kinds q)) =
      (case row_at md_path p (fst (claim_pending_batch now limit kinds q)) of
         Some r \<Rightarrow> Some r | None \<Rightarrow> queue_row p q)"
    by (cases "queue_row p q") (simp_all add: claim_pending_batch_eq assms row_at_update_where)
qed

lemma claim_batch_functional_witness:
  "let q = snd (upsert 4 ''b.md'' ''episode'' Added 2 (snd (upsert 3 ''a.md'' ''episode'' Added 1 [])))
   in sorted_wrt (<) (map lsn (fst (claim_pending_batch 9 5 None q)))"
proof -
  have "wf_queue (snd (upsert 4 ''b.md'' ''episode'' Added 2 (snd (upsert 3 ''a.md'' ''episode'' Added 1 []))))"
    by (intro wf_queue_upsert) (simp add: wf_queue_def)
  from claim_batch_functional [OF this] show ?thesis by (simp add: Let_def)
qed

text \<open>
  Two batch claims made one after the other, with any limits and kind filters, never
  hand out the same path; each row lands in exactly one batch.
\<close>

lemma claims_are_disjoint:
  assumes "wf_queue q"
    and "claim_pending_batch t1 l1 ks1 q = (rows1, q1)"
    and "claim_pending_batch t2 l2 ks2 q1 = (rows2, q2)"
  shows "md_path ` set rows1 \<inter> md_path ` set rows2 = {}"
proof -
  have wf1: "wf_queue q1"
    using wf_queue_claim_pending_batch [OF assms(1)] assms(2) by (metis snd_conv)
  have r1: "rows1 = map (claim_row t1) (claim_prefix l1 ks1 q)"
    and q1: "q1 = update_where (\<lambda>r. r \<in> set (claim_prefix l1 ks1 q)) (claim_row t1) q"
    using assms(2) claim_pending_batch_eq [OF assms(1)] by auto
  have r2: "rows2 = map (claim_row t2) (claim_prefix l2 ks2 q1)"
    using assms(3) claim_pending_batch_eq [OF wf1] by auto
  have False if x: "x \<in> set (claim_prefix l1 ks1 q)" and y: "y \<in> set (claim_prefix l2 ks2 q1)"
    and eq: "md_path x = md_path y" for x y
  proof -
    have "claim_row t1 x \<in> set q1"
      using x claim_prefix_subset [OF x] by (force simp: q1 set_update_where)
    moreover have "y \<in> set q1" "status y = Pending"
      using claim_prefix_subset [OF y] by (simp_all add: claimable_def)
    ultimately have "y = claim_row t1 x"
      using wf_queue_same_path [OF wf1] eq by simp
    with \<open>status y = Pending\<close> show False by simp
  qed
  then show ?thesis by (auto simp: r1 r2)
qed

lemma claims_are_disjoint_witness:
  "let q = snd (upsert 4 ''b.md'' ''episode'' Added 2 (snd (upsert 3 ''a.md'' ''episode'' Added 1 [])));
       (rows1, q1) = claim_pending_batch 9 1 None q;
       (rows2, q2) = claim_pending_batch 9 1 None q1
   in md_path ` set rows1 \<inter> md_path ` set rows2 = {}"
proof -
  have "wf_queue (snd (upsert 4 ''b.md'' ''episode'' Added 2 (snd (upsert 3 ''a.md'' ''episode'' Added 1 []))))"
    by (intro wf_queue_upsert) (simp add: wf_queue_def)
  from claims_are_disjoint [OF this] show ?thesis by (simp add: Let_def split: prod.splits)
qed

section \<open>Re-enqueueing\<close>

text \<open>
  An enqueue leaves exactly one row for the path, pending, with an LSN above every
  other row's, no failure marks, and a retry count that survives only when the row had
  failed and the file time is unchanged within the tolerance; every other row is as before.
\<close>

lemma upsert_functional:
  fixes now :: time and p k :: string and ct :: change_type and mt :: rat
  assumes "wf_queue q"
  defines "q' \<equiv> snd (upsert now p k ct mt q)"
  shows "(\<exists>r. queue_row p q' = Some r \<and> status r = Pending \<and> kind r = k \<and> change_type r = ct
           \<and> mtime r = mt \<and> retryable r = None \<and> error_msg r = None
           \<and> lsn r = fst (upsert now p k ct mt q)
           \<and> (\<forall>r' \<in> set q'. r' \<noteq> r \<longrightarrow> lsn r' < lsn r)
           \<and> retry_count r = (case queue_row p q of
                None \<Rightarrow> 0
              | Some old \<Rightarrow> if status old = Failed \<and> \<bar>mtime old - mt\<bar> < MTIME_TOLERANCE_SECONDS
                            then retry_count old else 0)) \<and>
         (\<forall>x. queue_row x q' = (if x = p then queue_row p q' else queue_row x q))"
proof (intro conjI)
  have wf': "wf_queue q'" unfolding q'_def by (rule wf_queue_upsert [OF assms(1)])
  obtain r where r: "queue_row p q' = Some r" "lsn r = next_lsn q" "status r = Pending"
      "kind r = k" "change_type r = ct" "mtime r = mt" "retryable r = None" "error_msg r = None"
      "retry_count r = (case queue_row p q of None \<Rightarrow> 0
        | Some old \<Rightarrow> if status old = Failed \<and> \<bar>mtime old - mt\<bar> < MTIME_TOLERANCE_SECONDS
                      then retry_count old else 0)"
    unfolding q'_def queue_row_upsert by (cases "queue_row p q") auto
  have "lsn r' < lsn r" if r': "r' \<in> set q'" "r' \<noteq> r" for r'
  proof -
    have path: "md_path r' \<noteq> p"
      using r' r(1) wf' by (auto simp: wf_queue_def row_at_Some_iff dest: wf_queue_same_path [OF wf'])
    have "queue_row (md_path r') q' = Some r'"
      using r'(1) wf' by (simp add: wf_queue_def row_at_in_set)
    then have "queue_row (md_path r') q = Some r'"
      using path by (simp add: q'_def queue_row_upsert)
    then show ?thesis using r(2) by (auto dest!: row_at_SomeD intro: next_lsn_gt)
  qed
  with r show "\<exists>r. queue_row p q' = Some r \<and> status r = Pending \<and> kind r = k \<and> change_type r = ct
           \<and> mtime r = mt \<and> retryable r = None \<and> error_msg r = None
           \<and> lsn r = fst (upsert now p k ct mt q)
           \<and> (\<forall>r' \<in> set q'. r' \<noteq> r \<longrightarrow> lsn r' < lsn r)
           \<and> retry_count r = (case queue_row p q of
                None \<Rightarrow> 0
              | Some old \<Rightarrow> if status old = Failed \<and> \<bar>mtime old - mt\<bar> < MTIME_TOLERANCE_SECONDS
                            then retry_count old else 0)"
    by (intro exI [of _ r]) simp
  show "\<forall>x. queue_row x q' = (if x = p then queue_row p q' else queue_row x q)"
    by (simp add: q'_def queue_row_upsert)
qed

lemma upsert_functional_witness:
  "queue_row ''b.md'' (snd (upsert 4 ''a.md'' ''episode'' Added 2 (snd (upsert 3 ''b.md'' ''episode'' Added 1 []))))
   = queue_row ''b.md'' (snd (upsert 3 ''b.md'' ''episode'' Added 1 []))"
proof -
  have "wf_queue (snd (upsert 3 ''b.md'' ''episode'' Added 1 []))"
    by (intro wf_queue_upsert) (simp add: wf_queue_def)
  from upsert_functional [OF this, where now = 4 and p = "''a.md''" and k = "''episode''"
      and ct = Added and mt = 2]
  show ?thesis by simp
qed

lemma no_processing_mark:
  assumes "\<And>r. queue_row p q = Some r \<Longrightarrow> status r \<noteq> Processing" and "distinct (map md_path q)"
  shows "mark_done now p q = q" and "mark_failed now p b e n q = q"
proof -
  have "count_where (\<lambda>r. md_path r = p \<and> status r = Processing) q = 0"
    using assms by (auto simp: count_where_zero_iff row_at_Some_iff)
  then show "mark_done now p q = q" and "mark_failed now p b e n q = q"
    by (simp_all add: mark_done_def mark_failed_def update_where_None)
qed

text \<open>
  C40: a re-enqueue that lands while a worker holds the row wins over the worker's verdict:
  neither \<open>mark_done\<close> nor \<open>mark_failed\<close> for the stale claim changes the table, so the
  row stays pending for the next drain.
\<close>

theorem reenqueue_beats_stale_verdict:
  assumes "wf_queue q"
  shows "mark_done t p (snd (upsert now p k ct mt q)) = snd (upsert now p k ct mt q) \<and>
         mark_failed t p b e n (snd (upsert now p k ct mt q)) = snd (upsert now p k ct mt q)"
proof (intro conjI)
  have wf: "distinct (map md_path (snd (upsert now p k ct mt q)))"
    using wf_queue_upsert [OF assms] by (simp add: wf_queue_def)
  have "status r \<noteq> Processing" if "queue_row p (snd (upsert now p k ct mt q)) = Some r" for r
    using that by (auto simp: queue_row_upsert split: option.splits)
  then show "mark_done t p (snd (upsert now p k ct mt q)) = snd (upsert now p k ct mt q)"
    and "mark_failed t p b e n (snd (upsert now p k ct mt q)) = snd (upsert now p k ct mt q)"
    using wf by (simp_all add: no_processing_mark)
qed

theorem reenqueue_beats_stale_verdict_witness:
  "let q = snd (claim_one 5 ''a.md'' (snd (upsert 3 ''a.md'' ''episode'' Added 1 [])))
   in mark_done 9 ''a.md'' (snd (upsert 7 ''a.md'' ''episode'' Modified 2 q))
      = snd (upsert 7 ''a.md'' ''episode'' Modified 2 q)"
proof -
  have "wf_queue (snd (claim_one 5 ''a.md'' (snd (upsert 3 ''a.md'' ''episode'' Added 1 []))))"
    by (intro wf_queue_claim_one wf_queue_upsert) (simp add: wf_queue_def)
  from reenqueue_beats_stale_verdict [OF this] show ?thesis by (simp add: Let_def)
qed

section \<open>Recovery, resets and the status summary\<close>

text \<open>
  The recovery pass at start-up reports the number of claimed rows, leaves no row in
  \<open>processing\<close>, returns each of them to \<open>pending\<close> with its LSN and retry count kept,
  touches nothing else, and run again finds nothing to do.
\<close>

lemma recovery_functional:
  "fst (recover_orphan_processing q) = count_where (\<lambda>r. status r = Processing) q \<and>
   count_where (\<lambda>r. status r = Processing) (snd (recover_orphan_processing q)) = 0 \<and>
   queue_row p (snd (recover_orphan_processing q)) =
     map_option (\<lambda>r. if status r = Processing
                      then r\<lparr>status := Pending, last_attempt_at := None\<rparr> else r) (queue_row p q) \<and>
   recover_orphan_processing (snd (recover_orphan_processing q))
     = (0, snd (recover_orphan_processing q))"
proof -
  have none: "count_where (\<lambda>r. status r = Processing) (snd (recover_orphan_processing q)) = 0"
    by (auto simp: recover_orphan_processing_def count_where_zero_iff set_update_where)
  then have "recover_orphan_processing (snd (recover_orphan_processing q))
      = (0, snd (recover_orphan_processing q))"
    by (simp add: recover_orphan_processing_def [of "snd (recover_orphan_processing q)"]
        update_where_None)
  with none show ?thesis
    by (simp add: recover_orphan_processing_def row_at_update_where)
qed

text \<open>
  In a well-formed table the four counters of the status summary partition the rows,
  the processed watermark never passes the largest LSN, and both are 0 on an empty table.
\<close>

lemma summary_partitions:
  assumes "wf_queue q"
  shows "qs_pending (queue_summary_of q) + qs_done (queue_summary_of q)
         + qs_failed_retryable (queue_summary_of q) + qs_failed_permanent (queue_summary_of q)
         = length q \<and>
         0 \<le> qs_last_processed_lsn (queue_summary_of q) \<and>
         qs_last_processed_lsn (queue_summary_of q) \<le> qs_max_lsn (queue_summary_of q) \<and>
         (qs_max_lsn (queue_summary_of q) = 0 \<longleftrightarrow> q = [])"
proof -
  have rows: "\<forall>r \<in> set q. wf_row r" using assms by (simp add: wf_queue_def)
  then have parts: "qs_pending (queue_summary_of q) + qs_done (queue_summary_of q)
      + qs_failed_retryable (queue_summary_of q) + qs_failed_permanent (queue_summary_of q) = length q"
  proof (induction q)
    case (Cons r q)
    then show ?case by (cases "status r"; cases "retryable r") (auto simp: queue_summary_of_def wf_row_def)
  qed (simp add: queue_summary_of_def)
  let ?d = "map lsn (filter (\<lambda>r. status r \<in> {Done, Failed}) q)"
  have "0 \<le> coalesce_max ?d \<and> coalesce_max ?d \<le> coalesce_max (map lsn q)"
  proof (cases "?d = []")
    case True
    have "0 \<le> coalesce_max (map lsn q)"
      using next_lsn_pos [OF rows] by (simp add: next_lsn_def)
    with True show ?thesis by (simp add: coalesce_max_def)
  next
    case False
    then have m: "coalesce_max ?d \<in> set ?d" by (rule coalesce_max_in)
    then have "coalesce_max ?d \<in> lsn ` set q" by auto
    then have "coalesce_max ?d \<le> coalesce_max (map lsn q)" by (auto intro: coalesce_max_ge)
    moreover have "1 \<le> coalesce_max ?d" using m rows by (auto simp: wf_row_def)
    ultimately show ?thesis by simp
  qed
  moreover have "coalesce_max (map lsn q) = 0 \<longleftrightarrow> q = []"
  proof (cases "q = []")
    case False
    then have "coalesce_max (map lsn q) \<in> lsn ` set q"
      using coalesce_max_in [of "map lsn q"] by simp
    with rows False show ?thesis by (auto simp: wf_row_def)
  qed (simp add: coalesce_max_def)
  ultimately show ?thesis using parts by (simp add: queue_summary_of_def)
qed

lemma summary_partitions_witness:
  "let s = queue_summary_of (mark_failed 8 ''a.md'' True ''boom'' 3 (snd (claim_one 5 ''a.md''
             (snd (upsert 3 ''a.md'' ''episode'' Added 1 [])))))
   in qs_pending s + qs_done s + qs_failed_retryable s + qs_failed_permanent s = 1"
proof -
  have "wf_queue (mark_failed 8 ''a.md'' True ''boom'' 3 (snd (claim_one 5 ''a.md''
          (snd (upsert 3 ''a.md'' ''episode'' Added 1 [])))))"
    by (intro wf_queue_ops) (simp add: wf_queue_def)
  from summary_partitions [OF this] show ?thesis
    by (simp add: Let_def mark_failed_def claim_one_def upsert_def upsert_row_def)
qed

end
