(* ===== verification/Kind_Registry.thy ===== *)
theory Kind_Registry
  imports Prelude
begin

text \<open>
  The kind registry (\<open>memory/cascade/registry.py\<close>) with the path globs of the
  frontmatter schemas (\<open>core/persistence/markdown/frontmatter.py\<close>, the schemas under
  \<open>infra/persistence/markdown/mds/\<close>). Relative paths are strings; \<open>path_parts\<close> are the
  components \<open>pathlib\<close> sees. \<open>fnmatch\<close> covers the pattern characters the registry uses:
  \<open>*\<close>, a character range \<open>[a-b]\<close> and literals. \<open>pure_path_match\<close> is
  \<open>PurePosixPath.match\<close> for a relative pattern, which compares components from the right;
  \<open>glob_match\<close> is the test \<open>Path.glob\<close> makes below the root, over all components.
\<close>

section \<open>Paths and patterns\<close>

fun split_on :: "char \<Rightarrow> string \<Rightarrow> string list" where
  "split_on c [] = [[]]"
| "split_on c (x # xs) =
     (if x = c then [] # split_on c xs
      else case split_on c xs of [] \<Rightarrow> [[x]] | y # ys \<Rightarrow> (x # y) # ys)"

definition path_parts :: "string \<Rightarrow> string list" where
  "path_parts p = filter (\<lambda>c. c \<noteq> [] \<and> c \<noteq> ''.'') (split_on CHR ''/'' p)"

datatype pat_token = AnySeq | Range char char | Lit char

fun pattern_tokens :: "string \<Rightarrow> pat_token list" where
  "pattern_tokens [] = []"
| "pattern_tokens (c # p) =
     (if c = CHR ''*'' then AnySeq # pattern_tokens p
      else if c = CHR ''['' \<and> 4 \<le> length p \<and> p ! 1 = CHR ''-'' \<and> p ! 3 = CHR '']''
      then Range (p ! 0) (p ! 2) # pattern_tokens (drop 4 p)
      else Lit c # pattern_tokens p)"

fun token_match :: "pat_token list \<Rightarrow> string \<Rightarrow> bool" where
  "token_match [] s = (s = [])"
| "token_match (Lit c # ts) s = (case s of [] \<Rightarrow> False | d # s' \<Rightarrow> c = d \<and> token_match ts s')"
| "token_match (Range a b # ts) s =
     (case s of [] \<Rightarrow> False
      | d # s' \<Rightarrow> (of_char a :: nat) \<le> of_char d \<and> (of_char d :: nat) \<le> of_char b \<and> token_match ts s')"
| "token_match (AnySeq # ts) [] = token_match ts []"
| "token_match (AnySeq # ts) (d # s) = (token_match ts (d # s) \<or> token_match (AnySeq # ts) s)"

definition fnmatch :: "string \<Rightarrow> string \<Rightarrow> bool" where
  "fnmatch pat s = token_match (pattern_tokens pat) s"

definition pure_path_match :: "string \<Rightarrow> string \<Rightarrow> bool" where
  "pure_path_match path pat =
     (let ps = rev (path_parts pat); xs = rev (path_parts path)
      in length ps \<le> length xs \<and> list_all2 fnmatch ps (take (length ps) xs))"

definition glob_match :: "string \<Rightarrow> string \<Rightarrow> bool" where
  "glob_match pat path = list_all2 fnmatch (path_parts pat) (path_parts path)"

section \<open>Globs of the frontmatter schemas\<close>

definition daily_log_glob :: "string \<Rightarrow> string \<Rightarrow> string \<Rightarrow> string" where
  "daily_log_glob scope_dir dir_name file_prefix =
     ''*/*/'' @ scope_dir @ ''/*/'' @ dir_name @ ''/'' @ file_prefix @ ''-*.md''"

definition skill_glob :: "string \<Rightarrow> string \<Rightarrow> string \<Rightarrow> string \<Rightarrow> string" where
  "skill_glob scope_dir container dir_prefix main_file =
     ''*/*/'' @ scope_dir @ ''/*/'' @ container @ ''/'' @ dir_prefix @ ''*/'' @ main_file"

definition profile_glob :: "string \<Rightarrow> string \<Rightarrow> string" where
  "profile_glob scope_dir file = ''*/*/'' @ scope_dir @ ''/*/'' @ file"

definition knowledge_document_glob :: "string \<Rightarrow> string" where
  "knowledge_document_glob scope_dir = ''*/*/'' @ scope_dir @ ''/*/*/index.md''"

definition knowledge_topic_glob :: "string \<Rightarrow> string" where
  "knowledge_topic_glob scope_dir = ''*/*/'' @ scope_dir @ ''/*/*/[0-9]*.md''"

section \<open>The registry\<close>

record kind_spec =
  spec_name :: string
  path_glob :: string

definition KIND_REGISTRY :: "kind_spec list" where
  "KIND_REGISTRY =
     [\<lparr>spec_name = ''episode'', path_glob = daily_log_glob ''users'' ''episodes'' ''episode''\<rparr>,
      \<lparr>spec_name = ''atomic_fact'', path_glob = daily_log_glob ''users'' ''.atomic_facts'' ''atomic_fact''\<rparr>,
      \<lparr>spec_name = ''foresight'', path_glob = daily_log_glob ''users'' ''.foresights'' ''foresight''\<rparr>,
      \<lparr>spec_name = ''agent_case'', path_glob = daily_log_glob ''agents'' ''.cases'' ''agent_case''\<rparr>,
      \<lparr>spec_name = ''agent_skill'', path_glob = skill_glob ''agents'' ''skills'' ''skill_'' ''SKILL.md''\<rparr>,
      \<lparr>spec_name = ''user_profile'', path_glob = profile_glob ''users'' ''user.md''\<rparr>,
      \<lparr>spec_name = ''knowledge_document'', path_glob = knowledge_document_glob ''knowledge''\<rparr>,
      \<lparr>spec_name = ''knowledge_topic'', path_glob = knowledge_topic_glob ''knowledge''\<rparr>]"

definition spec_matches :: "kind_spec \<Rightarrow> string \<Rightarrow> bool" where
  "spec_matches spec rel = pure_path_match rel (path_glob spec)"

definition match_kind :: "string \<Rightarrow> kind_spec option" where
  "match_kind rel = find (\<lambda>spec. spec_matches spec rel) KIND_REGISTRY"

section \<open>The kinds are disjoint\<close>

lemma pure_path_match_last:
  assumes "pure_path_match path pat" and "path_parts pat = qs @ [q]"
  shows "\<exists>xs x. path_parts path = xs @ [x] \<and> fnmatch q x"
proof -
  from assms have "path_parts path \<noteq> []"
    by (auto simp: pure_path_match_def Let_def)
  then obtain xs x where x: "path_parts path = xs @ [x]" by (metis rev_exhaust)
  with assms show ?thesis by (auto simp: pure_path_match_def Let_def)
qed

lemma registry_last_parts:
  "map (\<lambda>spec. last (path_parts (path_glob spec))) KIND_REGISTRY =
     [''episode-*.md'', ''atomic_fact-*.md'', ''foresight-*.md'', ''agent_case-*.md'',
      ''SKILL.md'', ''user.md'', ''index.md'', ''[0-9]*.md'']"
  by code_simp

lemma registry_parts_nonempty: "list_all (\<lambda>spec. path_parts (path_glob spec) \<noteq> []) KIND_REGISTRY"
  by code_simp

lemma length_KIND_REGISTRY: "length KIND_REGISTRY = 8"
  by (simp add: KIND_REGISTRY_def)

text \<open>The two leading characters of a file name decide the kind.\<close>

definition name_lead :: "string \<Rightarrow> nat option" where
  "name_lead s =
     (case s of
        [] \<Rightarrow> None
      | c # s' \<Rightarrow>
         (if c = CHR ''e'' then Some 0
          else if c = CHR ''a'' then (if take 1 s' = ''t'' then Some 1 else Some 3)
          else if c = CHR ''f'' then Some 2
          else if c = CHR ''S'' then Some 4
          else if c = CHR ''u'' then Some 5
          else if c = CHR ''i'' then Some 6
          else Some 7))"

lemma fnmatch_leads:
  "fnmatch ''episode-*.md'' x \<Longrightarrow> name_lead x = Some 0"
  "fnmatch ''atomic_fact-*.md'' x \<Longrightarrow> name_lead x = Some 1"
  "fnmatch ''foresight-*.md'' x \<Longrightarrow> name_lead x = Some 2"
  "fnmatch ''agent_case-*.md'' x \<Longrightarrow> name_lead x = Some 3"
  "fnmatch ''SKILL.md'' x \<Longrightarrow> name_lead x = Some 4"
  "fnmatch ''user.md'' x \<Longrightarrow> name_lead x = Some 5"
  "fnmatch ''index.md'' x \<Longrightarrow> name_lead x = Some 6"
  "fnmatch ''[0-9]*.md'' x \<Longrightarrow> name_lead x = Some 7"
  by (auto simp: fnmatch_def name_lead_def split: list.splits)

lemma spec_matches_lead:
  assumes "i < 8" and "spec_matches (KIND_REGISTRY ! i) rel"
  shows "name_lead (last (path_parts rel)) = Some i"
proof -
  let ?pat = "path_parts (path_glob (KIND_REGISTRY ! i))"
  have "?pat \<noteq> []"
    using registry_parts_nonempty assms(1) by (simp add: list_all_length length_KIND_REGISTRY)
  then have "?pat = butlast ?pat @ [last ?pat]" by simp
  from pure_path_match_last [OF assms(2) [unfolded spec_matches_def] this]
  have m: "fnmatch (last ?pat) (last (path_parts rel))" by auto
  have "last ?pat = map (\<lambda>spec. last (path_parts (path_glob spec))) KIND_REGISTRY ! i"
    using assms(1) by (simp add: length_KIND_REGISTRY)
  then have pat: "last ?pat = [''episode-*.md'', ''atomic_fact-*.md'', ''foresight-*.md'',
      ''agent_case-*.md'', ''SKILL.md'', ''user.md'', ''index.md'', ''[0-9]*.md''] ! i"
    unfolding registry_last_parts .
  from assms(1) consider "i = 0" | "i = 1" | "i = 2" | "i = 3" | "i = 4" | "i = 5" | "i = 6" | "i = 7"
    by linarith
  then show ?thesis
    using m pat by cases (simp_all add: fnmatch_leads)
qed

lemma match_kind_unique:
  assumes "spec \<in> set KIND_REGISTRY" and "spec_matches spec rel"
  shows "match_kind rel = Some spec"
proof -
  obtain i where i: "i < 8" "spec = KIND_REGISTRY ! i"
    using assms(1) by (metis in_set_conv_nth length_KIND_REGISTRY)
  have uniq: "j = i" if "j < 8" "spec_matches (KIND_REGISTRY ! j) rel" for j
    using spec_matches_lead [OF that] spec_matches_lead [OF i(1)] assms(2) i(2) by simp
  have "\<exists>j. match_kind rel = Some (KIND_REGISTRY ! j) \<and> j < 8 \<and> spec_matches (KIND_REGISTRY ! j) rel"
    using assms by (auto simp: match_kind_def find_Some_iff2 length_KIND_REGISTRY find_None_iff
        split: option.splits dest!: sym [of None])
      (metis (no_types, lifting) find_None_iff find_Some_iff length_KIND_REGISTRY not_None_eq)
  with uniq i(2) show ?thesis by blast
qed

text \<open>
  No path is claimed by two kinds: a specification of the registry that matches a path
  is the one \<open>match_kind\<close> returns, so the registry order never decides anything.
\<close>

lemma kinds_are_disjoint:
  assumes "spec \<in> set KIND_REGISTRY" and "spec_matches spec rel"
  shows "match_kind rel = Some spec"
  using assms by (rule match_kind_unique)

lemma kinds_are_disjoint_witness:
  "match_kind ''default_app/default_project/users/u1/episodes/episode-2026-05-12.md''
   = Some \<lparr>spec_name = ''episode'', path_glob = ''*/*/users/*/episodes/episode-*.md''\<rparr>"
proof -
  let ?s = "\<lparr>spec_name = ''episode'', path_glob = ''*/*/users/*/episodes/episode-*.md''\<rparr>"
  have "?s \<in> set KIND_REGISTRY" by (simp add: KIND_REGISTRY_def daily_log_glob_def)
  moreover have "spec_matches ?s ''default_app/default_project/users/u1/episodes/episode-2026-05-12.md''"
    by code_simp
  ultimately show ?thesis by (rule kinds_are_disjoint)
qed

text \<open>
  The watcher's test and the scanner's glob disagree below the top level: a copy of
  the tree in a subdirectory of the root is matched by \<open>match_kind\<close>, whose pattern is
  anchored at the right end only, and by no glob of the registry.
\<close>

lemma nested_copy_matched_but_never_globbed:
  "match_kind ''backup/default_app/default_project/users/u1/episodes/episode-2026-05-12.md''
     = Some (hd KIND_REGISTRY) \<and>
   list_all (\<lambda>spec. \<not> glob_match (path_glob spec)
     ''backup/default_app/default_project/users/u1/episodes/episode-2026-05-12.md'') KIND_REGISTRY"
  by (rule conjI; code_simp)

lemma glob_match_pure_path_match:
  assumes "glob_match pat path"
  shows "pure_path_match path pat"
proof -
  have "length (path_parts pat) = length (path_parts path)"
    using assms by (simp add: glob_match_def list_all2_lengthD)
  with assms show ?thesis
    by (simp add: glob_match_def pure_path_match_def Let_def list_all2_rev)
qed

end
