(* ===== verification/Reconcile.thy ===== *)
theory Reconcile
  imports Change_Queue Kind_Registry
begin

text \<open>
  Finding the files that need work: the pure \<open>reconcile\<close> function
  (\<open>memory/cascade/reconciler.py\<close>), the periodic scanner (\<open>memory/cascade/scanner.py\<close>)
  and the event handlers of the realtime watcher (\<open>memory/cascade/watcher.py\<close>).

  The file system below the memory root is a list of paths with the outcome of
  \<open>stat\<close>: a modification time, \<open>ENOENT\<close> (the file vanished between listing and
  \<open>stat\<close>) or another \<open>OSError\<close>. \<open>root.glob\<close> lists the entries whose path the pattern
  matches, in list order. A dict is an association list in insertion order. The clock is a
  function of the number of upserts made so far.
\<close>

section \<open>Reconciling a scan with the recorded state\<close>

record scan_input =
  si_path :: string
  si_mtime :: rat
  si_kind :: string

record decision =
  d_path :: string
  d_kind :: string
  d_change :: change_type
  d_mtime :: rat

record prior_state =
  p_path :: string
  p_kind :: string
  p_mtime :: rat
  p_status :: status
  p_change :: change_type
  p_retryable :: "bool option"
  p_retry_count :: nat

type_synonym snapshot = "(string \<times> prior_state) list"

definition mtime_stable :: "prior_state \<Rightarrow> scan_input \<Rightarrow> bool" where
  "mtime_stable prior item \<longleftrightarrow> \<bar>p_mtime prior - si_mtime item\<bar> < MTIME_TOLERANCE_SECONDS"

definition decide_present :: "snapshot \<Rightarrow> scan_input \<Rightarrow> decision option" where
  "decide_present state item =
     (case map_of state (si_path item) of
        None \<Rightarrow> Some \<lparr>d_path = si_path item, d_kind = si_kind item, d_change = Added,
                      d_mtime = si_mtime item\<rparr>
      | Some prior \<Rightarrow>
          if mtime_stable prior item \<and> p_status prior \<in> {Done, Pending, Processing} then None
          else if mtime_stable prior item \<and> p_status prior = Failed \<and> p_retryable prior = Some False
          then None
          else Some \<lparr>d_path = si_path item, d_kind = si_kind item, d_change = Modified,
                     d_mtime = si_mtime item\<rparr>)"

definition decide_absent :: "string set \<Rightarrow> string \<times> prior_state \<Rightarrow> decision option" where
  "decide_absent seen entry =
     (case entry of (path, prior) \<Rightarrow>
        if path \<in> seen then None
        else if p_status prior = Done \<and> p_change prior = Deleted then None
        else Some \<lparr>d_path = path, d_kind = p_kind prior, d_change = Deleted,
                   d_mtime = p_mtime prior\<rparr>)"

definition reconcile :: "scan_input list \<Rightarrow> snapshot \<Rightarrow> decision list" where
  "reconcile scan state =
     List.map_filter (decide_present state) scan @
     List.map_filter (decide_absent (set (map si_path scan))) state"

section \<open>The scanner\<close>

datatype stat_result = Stat_mtime rat | Stat_missing | Stat_error

type_synonym fs = "(string \<times> stat_result) list"

datatype scan_error = Scan_os_error string

fun collect_kind :: "string \<Rightarrow> fs \<Rightarrow> scan_error + scan_input list" where
  "collect_kind k [] = Inr []"
| "collect_kind k ((p, st) # files) =
     (case st of
        Stat_missing \<Rightarrow> collect_kind k files
      | Stat_error \<Rightarrow> Inl (Scan_os_error p)
      | Stat_mtime m \<Rightarrow>
          (case collect_kind k files of
             Inl e \<Rightarrow> Inl e
           | Inr items \<Rightarrow> Inr (\<lparr>si_path = p, si_mtime = m, si_kind = k\<rparr> # items)))"

definition glob_files :: "kind_spec \<Rightarrow> fs \<Rightarrow> fs" where
  "glob_files spec files = filter (\<lambda>(p, _). glob_match (path_glob spec) p) files"

fun collect_specs :: "kind_spec list \<Rightarrow> string set option \<Rightarrow> fs \<Rightarrow> scan_error + scan_input list" where
  "collect_specs [] kinds files = Inr []"
| "collect_specs (spec # specs) kinds files =
     (if (case kinds of None \<Rightarrow> False | Some ks \<Rightarrow> spec_name spec \<notin> ks)
      then collect_specs specs kinds files
      else case collect_kind (spec_name spec) (glob_files spec files) of
             Inl e \<Rightarrow> Inl e
           | Inr items \<Rightarrow>
               (case collect_specs specs kinds files of
                  Inl e \<Rightarrow> Inl e
                | Inr rest \<Rightarrow> Inr (items @ rest)))"

definition collect_scan_inputs :: "fs \<Rightarrow> string set option \<Rightarrow> scan_error + scan_input list" where
  "collect_scan_inputs files kinds = collect_specs KIND_REGISTRY kinds files"

definition load_state_snapshot :: "queue \<Rightarrow> snapshot" where
  "load_state_snapshot q =
     map (\<lambda>r. (md_path r,
               \<lparr>p_path = md_path r, p_kind = kind r, p_mtime = mtime r, p_status = status r,
                p_change = change_type r, p_retryable = retryable r,
                p_retry_count = retry_count r\<rparr>)) q"

fun upsert_decisions :: "(nat \<Rightarrow> time) \<Rightarrow> decision list \<Rightarrow> queue \<Rightarrow> queue" where
  "upsert_decisions clk [] q = q"
| "upsert_decisions clk (d # ds) q =
     upsert_decisions (\<lambda>n. clk (Suc n)) ds
       (snd (upsert (clk 0) (d_path d) (d_kind d) (d_change d) (d_mtime d) q))"

definition scoped_snapshot :: "string set option \<Rightarrow> snapshot \<Rightarrow> snapshot" where
  "scoped_snapshot kinds state =
     (case kinds of None \<Rightarrow> state | Some ks \<Rightarrow> filter (\<lambda>(_, s). p_kind s \<in> ks) state)"

definition scan_once ::
  "(nat \<Rightarrow> time) \<Rightarrow> fs \<Rightarrow> string set option \<Rightarrow> queue \<Rightarrow> (scan_error + decision list) \<times> queue" where
  "scan_once clk files kinds q =
     (case collect_scan_inputs files kinds of
        Inl e \<Rightarrow> (Inl e, q)
      | Inr items \<Rightarrow>
          let decisions = reconcile items (scoped_snapshot kinds (load_state_snapshot q))
          in (Inr decisions, upsert_decisions clk decisions q))"

section \<open>The watcher\<close>

text \<open>
  An event names raw paths; \<open>relative_to_root\<close> has already resolved them, \<open>None\<close> standing
  for a path outside the root. \<open>path_exists\<close> is \<open>Path.exists\<close>, \<open>None\<close> when it raises
  (the event is then lost).
\<close>

datatype watch_event =
    Created "string option"
  | Changed "string option"
  | Removed "string option"
  | Moved "string option" "string option" bool  \<comment> \<open>source, destination, a file move\<close>

definition path_exists :: "fs \<Rightarrow> string option \<Rightarrow> bool option" where
  "path_exists files raw =
     (case raw of
        None \<Rightarrow> Some False
      | Some p \<Rightarrow>
         (case map_of files p of
            Some (Stat_mtime _) \<Rightarrow> Some True
          | Some Stat_error \<Rightarrow> None
          | _ \<Rightarrow> Some False))"

definition safe_mtime :: "fs \<Rightarrow> string \<Rightarrow> rat" where
  "safe_mtime files p = (case map_of files p of Some (Stat_mtime m) \<Rightarrow> m | _ \<Rightarrow> 0)"

definition watch_enqueue :: "time \<Rightarrow> fs \<Rightarrow> string option \<Rightarrow> change_type \<Rightarrow> queue \<Rightarrow> queue" where
  "watch_enqueue now files raw ct q =
     (case raw of
        None \<Rightarrow> q
      | Some rel \<Rightarrow>
         (case match_kind rel of
            None \<Rightarrow> q
          | Some spec \<Rightarrow> snd (upsert now rel (spec_name spec) ct (safe_mtime files rel) q)))"

fun on_event :: "(nat \<Rightarrow> time) \<Rightarrow> fs \<Rightarrow> watch_event \<Rightarrow> queue \<Rightarrow> queue" where
  "on_event clk files (Created p) q = watch_enqueue (clk 0) files p Added q"
| "on_event clk files (Changed p) q = watch_enqueue (clk 0) files p Modified q"
| "on_event clk files (Removed p) q =
     (case path_exists files p of
        Some False \<Rightarrow> watch_enqueue (clk 0) files p Deleted q
      | _ \<Rightarrow> q)"
| "on_event clk files (Moved src dst is_file) q =
     (case path_exists files src of
        None \<Rightarrow> q
      | Some ex \<Rightarrow>
          let q1 = (if \<not> ex then watch_enqueue (clk 0) files src Deleted q else q)
          in if is_file then watch_enqueue (clk 1) files dst Added q1 else q1)"

section \<open>Facts about reconciliation\<close>

lemma set_reconcile:
  "d \<in> set (reconcile scan state) \<longleftrightarrow>
     (\<exists>i \<in> set scan. decide_present state i = Some d) \<or>
     (\<exists>e \<in> set state. decide_absent (si_path ` set scan) e = Some d)"
  by (force simp: reconcile_def List.map_filter_def)

lemma decide_present_path: "decide_present state i = Some d \<Longrightarrow>
    d_path d = si_path i \<and> d_mtime d = si_mtime i \<and> d_kind d = si_kind i \<and> d_change d \<noteq> Deleted"
  by (auto simp: decide_present_def split: option.splits if_splits)

lemma decide_absent_path: "decide_absent seen e = Some d \<Longrightarrow>
    d_path d = fst e \<and> d_path d \<notin> seen \<and> d_change d = Deleted
    \<and> d_kind d = p_kind (snd e) \<and> d_mtime d = p_mtime (snd e)"
  by (auto simp: decide_absent_def split: prod.splits if_splits)

lemma map_filter_append_distinct:
  assumes "distinct (map f xs)" and "\<And>x y. g x = Some y \<Longrightarrow> h y = f x"
  shows "distinct (map h (List.map_filter g xs))"
  using assms(1)
proof (induction xs)
  case (Cons x xs)
  have "h y \<in> f ` set xs" if "y \<in> set (List.map_filter g xs)" for y
    using that assms(2) by (auto simp: List.map_filter_def)
  with Cons assms(2) [of x] show ?case
    by (auto simp: List.map_filter_simps split: option.splits)
qed (simp add: List.map_filter_simps)

lemma distinct_reconcile:
  assumes "distinct (map si_path scan)" and "distinct (map fst state)"
  shows "distinct (map d_path (reconcile scan state))"
proof -
  have "distinct (map d_path (List.map_filter (decide_present state) scan))"
    by (rule map_filter_append_distinct [OF assms(1)]) (simp add: decide_present_path)
  moreover have "distinct (map d_path (List.map_filter (decide_absent (set (map si_path scan))) state))"
    by (rule map_filter_append_distinct [OF assms(2)]) (simp add: decide_absent_path)
  moreover have "d_path d \<noteq> d_path d'"
    if "decide_present state i = Some d" "i \<in> set scan"
      "decide_absent (set (map si_path scan)) e = Some d'" for i d e d'
    using decide_present_path [OF that(1)] decide_absent_path [OF that(3)] that(2)
    by (metis imageI list.set_map)
  ultimately show ?thesis by (fastforce simp: reconcile_def List.map_filter_def)
qed

lemma map_of_snapshot:
  "map_of (load_state_snapshot q) p =
     map_option (\<lambda>r. \<lparr>p_path = md_path r, p_kind = kind r, p_mtime = mtime r, p_status = status r,
                p_change = change_type r, p_retryable = retryable r,
                p_retry_count = retry_count r\<rparr>) (queue_row p q)"
  by (induction q) (auto simp: load_state_snapshot_def row_at_Cons)

lemma fst_snapshot: "map fst (load_state_snapshot q) = map md_path q"
  by (simp add: load_state_snapshot_def o_def)

lemma distinct_scoped: "distinct (map fst state) \<Longrightarrow> distinct (map fst (scoped_snapshot kinds state))"
  by (auto simp: scoped_snapshot_def distinct_map_filter split: option.splits)

text \<open>The row an upsert pass leaves for each decision.\<close>

definition enqueued_row :: "decision \<Rightarrow> change_row option \<Rightarrow> change_row \<Rightarrow> bool" where
  "enqueued_row d old r \<longleftrightarrow>
     status r = Pending \<and> kind r = d_kind d \<and> change_type r = d_change d \<and>
     mtime r = d_mtime d \<and> retryable r = None \<and> error_msg r = None \<and>
     retry_count r = (case old of None \<Rightarrow> 0
       | Some o' \<Rightarrow> if status o' = Failed \<and> \<bar>mtime o' - d_mtime d\<bar> < MTIME_TOLERANCE_SECONDS
                   then retry_count o' else 0)"

lemma queue_row_upsert_decisions_other:
  "p \<notin> d_path ` set ds \<Longrightarrow> queue_row p (upsert_decisions clk ds q) = queue_row p q"
  by (induction ds arbitrary: clk q) (simp_all add: queue_row_upsert)

lemma queue_row_upsert_decisions:
  "distinct (map d_path ds) \<Longrightarrow> d \<in> set ds \<Longrightarrow>
   \<exists>r. queue_row (d_path d) (upsert_decisions clk ds q) = Some r
       \<and> enqueued_row d (queue_row (d_path d) q) r"
proof (induction ds arbitrary: clk q)
  case (Cons x ds)
  let ?q = "snd (upsert (clk 0) (d_path x) (d_kind x) (d_change x) (d_mtime x) q)"
  show ?case
  proof (cases "d = x")
    case True
    with Cons.prems have "d_path x \<notin> d_path ` set ds" by simp
    then show ?thesis
      using True by (auto simp: queue_row_upsert_decisions_other queue_row_upsert enqueued_row_def
          split: option.splits)
  next
    case False
    with Cons.prems have d: "d \<in> set ds" "distinct (map d_path ds)" "d_path d \<noteq> d_path x"
      by (auto simp: image_iff)
    moreover have "queue_row (d_path d) ?q = queue_row (d_path d) q"
      using d(3) by (simp add: queue_row_upsert)
    ultimately show ?thesis using Cons.IH [OF d(2,1), of "\<lambda>n. clk (Suc n)" ?q] by simp
  qed
qed simp

lemma wf_queue_upsert_decisions: "wf_queue q \<Longrightarrow> wf_queue (upsert_decisions clk ds q)"
  by (induction ds arbitrary: clk q) (simp_all add: wf_queue_upsert)

lemma wf_queue_scan_once: "wf_queue q \<Longrightarrow> wf_queue (snd (scan_once clk files kinds q))"
  by (simp add: scan_once_def Let_def wf_queue_upsert_decisions split: sum.splits)

section \<open>Facts about the scan\<close>

lemma collect_kind_Inr:
  "collect_kind k files = Inr items \<Longrightarrow>
     set items = {\<lparr>si_path = p, si_mtime = m, si_kind = k\<rparr> |p m. (p, Stat_mtime m) \<in> set files} \<and>
     (\<forall>p. (p, Stat_error) \<notin> set files) \<and>
     (distinct (map fst files) \<longrightarrow> distinct (map si_path items))"
proof (induction files arbitrary: items)
  case (Cons f files)
  obtain p st where f: "f = (p, st)" by (cases f)
  show ?case
  proof (cases st)
    case (Stat_mtime m)
    with Cons.prems f obtain items' where i: "collect_kind k files = Inr items'"
      "items = \<lparr>si_path = p, si_mtime = m, si_kind = k\<rparr> # items'"
      by (auto split: sum.splits)
    with Cons.IH [OF i(1)] f Stat_mtime show ?thesis by force
  next
    case Stat_missing
    with Cons f show ?thesis by auto
  next
    case Stat_error
    with Cons.prems f show ?thesis by simp
  qed
qed simp

definition in_scope :: "string set option \<Rightarrow> kind_spec \<Rightarrow> bool" where
  "in_scope kinds spec \<longleftrightarrow> (case kinds of None \<Rightarrow> True | Some ks \<Rightarrow> spec_name spec \<in> ks)"

lemma collect_specs_Inr:
  "collect_specs specs kinds files = Inr items \<Longrightarrow>
     (i \<in> set items \<longleftrightarrow>
        (\<exists>spec \<in> set specs. in_scope kinds spec \<and> si_kind i = spec_name spec
           \<and> glob_match (path_glob spec) (si_path i) \<and> (si_path i, Stat_mtime (si_mtime i)) \<in> set files)) \<and>
     (spec \<in> set specs \<longrightarrow> in_scope kinds spec \<longrightarrow> glob_match (path_glob spec) p \<longrightarrow>
        (p, Stat_error) \<notin> set files)"
proof (induction specs arbitrary: items)
  case (Cons s specs)
  show ?case
  proof (cases "in_scope kinds s")
    case True
    with Cons.prems obtain a b where ab: "collect_kind (spec_name s) (glob_files s files) = Inr a"
      "collect_specs specs kinds files = Inr b" "items = a @ b"
      by (auto simp: in_scope_def split: option.splits sum.splits if_splits)
    from collect_kind_Inr [OF ab(1)] Cons.IH [OF ab(2)] show ?thesis
      by (cases i) (auto simp: ab(3) glob_files_def True)
  next
    case False
    with Cons.prems have "collect_specs specs kinds files = Inr items"
      by (auto simp: in_scope_def split: option.splits if_splits)
    from Cons.IH [OF this] False show ?thesis by auto
  qed
qed simp

lemma distinct_collect_specs:
  "collect_specs specs kinds files = Inr items \<Longrightarrow> distinct (map fst files) \<Longrightarrow>
   set specs \<subseteq> set KIND_REGISTRY \<Longrightarrow> distinct specs \<Longrightarrow> distinct (map si_path items)"
proof (induction specs arbitrary: items)
  case (Cons s specs)
  show ?case
  proof (cases "in_scope kinds s")
    case True
    with Cons.prems obtain a b where ab: "collect_kind (spec_name s) (glob_files s files) = Inr a"
      "collect_specs specs kinds files = Inr b" "items = a @ b"
      by (auto simp: in_scope_def split: option.splits sum.splits if_splits)
    have "distinct (map si_path a)"
      using collect_kind_Inr [OF ab(1)] Cons.prems(2) by (simp add: glob_files_def distinct_map_filter)
    moreover have "distinct (map si_path b)" using Cons ab(2) by simp
    moreover have "si_path i \<noteq> si_path j" if i: "i \<in> set a" and j: "j \<in> set b" for i j
    proof
      assume eq: "si_path i = si_path j"
      have "glob_match (path_glob s) (si_path i)"
        using i collect_kind_Inr [OF ab(1)] by (auto simp: glob_files_def)
      moreover obtain s' where s': "s' \<in> set specs" "glob_match (path_glob s') (si_path j)"
        using collect_specs_Inr [OF ab(2), of j] j by auto
      ultimately have "match_kind (si_path i) = Some s" "match_kind (si_path i) = Some s'"
        using Cons.prems(3) eq
        by (auto intro!: match_kind_unique simp: spec_matches_def glob_match_pure_path_match)
      with s'(1) Cons.prems(4) show False by auto
    qed
    ultimately show ?thesis by (auto simp: ab(3))
  next
    case False
    with Cons show ?thesis by (auto simp: in_scope_def split: option.splits if_splits)
  qed
qed simp

lemma distinct_KIND_REGISTRY: "distinct KIND_REGISTRY"
  by code_simp

lemma distinct_scan:
  "collect_scan_inputs files kinds = Inr items \<Longrightarrow> distinct (map fst files) \<Longrightarrow>
   distinct (map si_path items)"
  unfolding collect_scan_inputs_def
  by (rule distinct_collect_specs) (assumption | rule order_refl distinct_KIND_REGISTRY)+

lemmas scan_input_iff = collect_specs_Inr [of KIND_REGISTRY, folded collect_scan_inputs_def, THEN conjunct1]

text \<open>Every row's kind is the kind of its path: what the scanner and the watcher enqueue.\<close>

definition kinds_match :: "queue \<Rightarrow> bool" where
  "kinds_match q \<longleftrightarrow> (\<forall>r \<in> set q. map_option spec_name (match_kind (md_path r)) = Some (kind r))"

lemma distinct_spec_names: "distinct (map spec_name KIND_REGISTRY)"
  by code_simp

lemma inj_spec_name: "spec \<in> set KIND_REGISTRY \<Longrightarrow> spec' \<in> set KIND_REGISTRY \<Longrightarrow>
    spec_name spec = spec_name spec' \<Longrightarrow> spec = spec'"
  using distinct_spec_names by (auto simp: distinct_map dest: inj_onD)

lemma match_kind_in: "match_kind p = Some spec \<Longrightarrow> spec \<in> set KIND_REGISTRY"
  by (auto simp: match_kind_def find_Some_iff)

lemma kinds_match_upsert:
  assumes "kinds_match q" and "map_option spec_name (match_kind p) = Some k"
  shows "kinds_match (snd (upsert now p k ct mt q))"
  using assms by (auto simp: kinds_match_def upsert_def Let_def upsert_row_def set_update_where)

lemma kinds_match_upsert_decisions:
  "kinds_match q \<Longrightarrow> (\<And>d. d \<in> set ds \<Longrightarrow> map_option spec_name (match_kind (d_path d)) = Some (d_kind d)) \<Longrightarrow>
   kinds_match (upsert_decisions clk ds q)"
  by (induction ds arbitrary: clk q) (simp_all add: kinds_match_upsert)

lemma scan_input_kind:
  assumes "collect_scan_inputs files kinds = Inr items" and "i \<in> set items"
  shows "map_option spec_name (match_kind (si_path i)) = Some (si_kind i)"
proof -
  obtain spec where "spec \<in> set KIND_REGISTRY" "si_kind i = spec_name spec"
      "glob_match (path_glob spec) (si_path i)"
    using assms scan_input_iff by blast
  then show ?thesis
    by (simp add: match_kind_unique spec_matches_def glob_match_pure_path_match)
qed

lemma decision_kind:
  assumes "collect_scan_inputs files kinds = Inr items" and "kinds_match q"
    and "d \<in> set (reconcile items (scoped_snapshot kinds (load_state_snapshot q)))"
  shows "map_option spec_name (match_kind (d_path d)) = Some (d_kind d)"
  using assms(3) unfolding set_reconcile
proof (elim disjE bexE)
  fix i assume "i \<in> set items" "decide_present (scoped_snapshot kinds (load_state_snapshot q)) i = Some d"
  then show ?thesis using scan_input_kind [OF assms(1)] decide_present_path by metis
next
  fix e assume e: "e \<in> set (scoped_snapshot kinds (load_state_snapshot q))"
    "decide_absent (si_path ` set items) e = Some d"
  then have "\<exists>r \<in> set q. fst e = md_path r \<and> p_kind (snd e) = kind r"
    by (auto simp: scoped_snapshot_def load_state_snapshot_def split: option.splits)
  then show ?thesis
    using decide_absent_path [OF e(2)] assms(2) by (auto simp: kinds_match_def)
qed

section \<open>What a sweep does\<close>

text \<open>A small root used by the witnesses: one episode file, one knowledge document.\<close>

definition demo_episode :: string where
  "demo_episode = ''default_app/default_project/users/u1/episodes/episode-2026-05-12.md''"

definition demo_document :: string where
  "demo_document = ''default_app/default_project/knowledge/c1/t1/index.md''"

definition demo_fs :: fs where
  "demo_fs = [(demo_episode, Stat_mtime 5), (demo_document, Stat_mtime 6)]"

lemma scan_once_Inr:
  assumes "scan_once clk files kinds q = (Inr ds, q')"
  obtains items where "collect_scan_inputs files kinds = Inr items"
    and "ds = reconcile items (scoped_snapshot kinds (load_state_snapshot q))"
    and "q' = upsert_decisions clk ds q"
  using assms by (auto simp: scan_once_def Let_def split: sum.splits)

lemma present_in_scan:
  assumes "collect_scan_inputs files kinds = Inr items" and "spec \<in> set KIND_REGISTRY"
    and "in_scope kinds spec" and "glob_match (path_glob spec) p" and "(p, Stat_mtime m) \<in> set files"
  shows "\<lparr>si_path = p, si_mtime = m, si_kind = spec_name spec\<rparr> \<in> set items"
  using assms by (subst scan_input_iff [OF assms(1)]) auto

text \<open>
  No sweep ever decides to delete a file that is on disk: when the sweep succeeds, a
  path that a glob in scope lists and \<open>stat\<close> can read is never among the deletions.
\<close>

lemma scan_never_deletes_present:
  assumes "scan_once clk files kinds q = (Inr ds, q')"
    and "spec \<in> set KIND_REGISTRY" and "in_scope kinds spec"
    and "glob_match (path_glob spec) p" and "(p, Stat_mtime m) \<in> set files"
    and "d \<in> set ds" and "d_path d = p"
  shows "d_change d \<noteq> Deleted"
proof -
  obtain items where items: "collect_scan_inputs files kinds = Inr items"
    and ds: "ds = reconcile items (scoped_snapshot kinds (load_state_snapshot q))"
    using assms(1) by (rule scan_once_Inr)
  have "p \<in> si_path ` set items"
    using present_in_scan [OF items assms(2-5)] by force
  with assms(6,7) show ?thesis
    unfolding ds set_reconcile by (metis decide_absent_path decide_present_path)
qed

lemma scan_never_deletes_present_witness:
  "list_all (\<lambda>d. d_path d = demo_episode \<longrightarrow> d_change d \<noteq> Deleted)
     [\<lparr>d_path = demo_episode, d_kind = ''episode'', d_change = Added, d_mtime = 5\<rparr>,
      \<lparr>d_path = demo_document, d_kind = ''knowledge_document'', d_change = Added, d_mtime = 6\<rparr>]"
proof -
  let ?ds = "[\<lparr>d_path = demo_episode, d_kind = ''episode'', d_change = Added, d_mtime = 5\<rparr>,
      \<lparr>d_path = demo_document, d_kind = ''knowledge_document'', d_change = Added, d_mtime = 6\<rparr>]"
  have scan: "scan_once (\<lambda>n. int n) demo_fs None [] = (Inr ?ds, snd (scan_once (\<lambda>n. int n) demo_fs None []))"
  proof -
    have "fst (scan_once (\<lambda>n. int n) demo_fs None []) = Inr ?ds" by code_simp
    then show ?thesis by (metis prod.collapse)
  qed
  have spec: "hd KIND_REGISTRY \<in> set KIND_REGISTRY" "in_scope None (hd KIND_REGISTRY)"
    "glob_match (path_glob (hd KIND_REGISTRY)) demo_episode"
    by (simp add: KIND_REGISTRY_def) (simp add: in_scope_def, code_simp)
  have on_disk: "(demo_episode, Stat_mtime 5) \<in> set demo_fs" by (simp add: demo_fs_def)
  show ?thesis
    unfolding list_all_iff
    using scan_never_deletes_present [OF scan spec on_disk] by blast
qed

text \<open>
  A sweep is all or nothing: if \<open>stat\<close> fails on a listed file for any reason but its
  disappearance, the sweep reports the error and the queue is unchanged, so a transient
  error can never be mistaken for a deletion.
\<close>

lemma scan_error_changes_nothing:
  assumes "spec \<in> set KIND_REGISTRY" and "in_scope kinds spec"
    and "glob_match (path_glob spec) p" and "(p, Stat_error) \<in> set files"
  shows "\<exists>e. scan_once clk files kinds q = (Inl e, q)"
proof (cases "collect_scan_inputs files kinds")
  case (Inl e)
  then show ?thesis by (simp add: scan_once_def)
next
  case (Inr items)
  from collect_specs_Inr [OF this [unfolded collect_scan_inputs_def], THEN conjunct2] assms
  show ?thesis by blast
qed

lemma scan_error_changes_nothing_witness:
  "\<exists>e. scan_once (\<lambda>n. 0) [(demo_document, Stat_mtime 6), (demo_episode, Stat_error)] None
        (snd (upsert 1 demo_episode ''episode'' Added 5 []))
       = (Inl e, snd (upsert 1 demo_episode ''episode'' Added 5 []))"
proof -
  have "hd KIND_REGISTRY \<in> set KIND_REGISTRY" "in_scope None (hd KIND_REGISTRY)"
    "glob_match (path_glob (hd KIND_REGISTRY)) demo_episode"
    by (simp add: KIND_REGISTRY_def) (simp add: in_scope_def, code_simp)
  then show ?thesis by (rule scan_error_changes_nothing) simp
qed

text \<open>What the scan reads of one row.\<close>

definition up_to_date :: "change_row \<Rightarrow> rat \<Rightarrow> bool" where
  "up_to_date r m \<longleftrightarrow>
     \<bar>mtime r - m\<bar> < MTIME_TOLERANCE_SECONDS \<and>
     (status r \<noteq> Failed \<or> retryable r = Some False)"

lemma decide_present_full:
  "decide_present (load_state_snapshot q) i =
     (case queue_row (si_path i) q of
        None \<Rightarrow> Some \<lparr>d_path = si_path i, d_kind = si_kind i, d_change = Added, d_mtime = si_mtime i\<rparr>
      | Some r \<Rightarrow> if up_to_date r (si_mtime i) then None
                  else Some \<lparr>d_path = si_path i, d_kind = si_kind i, d_change = Modified,
                             d_mtime = si_mtime i\<rparr>)"
proof (cases "queue_row (si_path i) q")
  case (Some r)
  then show ?thesis
    by (cases "status r")
      (auto simp: decide_present_def map_of_snapshot up_to_date_def mtime_stable_def)
qed (simp add: decide_present_def map_of_snapshot)

lemma decide_absent_full:
  assumes "distinct (map md_path q)" and "queue_row p q = Some r" and "p \<notin> seen"
  shows "(\<exists>e \<in> set (load_state_snapshot q). fst e = p \<and> decide_absent seen e = Some d) \<longleftrightarrow>
    \<not> (status r = Done \<and> change_type r = Deleted) \<and>
    d = \<lparr>d_path = p, d_kind = kind r, d_change = Deleted, d_mtime = mtime r\<rparr>"
proof -
  let ?del = "\<lambda>r. \<lparr>d_path = p, d_kind = kind r, d_change = Deleted, d_mtime = mtime r\<rparr>"
  let ?tomb = "\<lambda>r. status r = Done \<and> change_type r = Deleted"
  have r: "r \<in> set q" "md_path r = p" using assms(2) by (auto dest: row_at_SomeD)
  have "(\<exists>e \<in> set (load_state_snapshot q). fst e = p \<and> decide_absent seen e = Some d) \<longleftrightarrow>
      (\<exists>r' \<in> set q. md_path r' = p \<and> \<not> ?tomb r' \<and> d = ?del r')"
    using assms(3) by (force simp: load_state_snapshot_def decide_absent_def)
  moreover have "md_path r' = p \<longleftrightarrow> r' = r" if "r' \<in> set q" for r'
    using that r assms(1) by (auto simp: distinct_map dest: inj_onD)
  ultimately show ?thesis using r by auto
qed

text \<open>The specification of one sweep, path by path: file time on disk, old row, new row.\<close>

definition on_disk :: "fs \<Rightarrow> string \<Rightarrow> rat option" where
  "on_disk files p =
     (if list_ex (\<lambda>spec. glob_match (path_glob spec) p) KIND_REGISTRY
      then case map_of files p of Some (Stat_mtime m) \<Rightarrow> Some m | _ \<Rightarrow> None
      else None)"

definition tombstone :: "change_row \<Rightarrow> bool" where
  "tombstone r \<longleftrightarrow> status r = Done \<and> change_type r = Deleted"

definition queued :: "change_type \<Rightarrow> rat \<Rightarrow> change_row option \<Rightarrow> bool" where
  "queued ct m new \<longleftrightarrow>
     (case new of None \<Rightarrow> False
      | Some r \<Rightarrow> status r = Pending \<and> change_type r = ct \<and> mtime r = m)"

definition swept :: "rat option \<Rightarrow> change_row option \<Rightarrow> change_row option \<Rightarrow> bool" where
  "swept disk old new =
     (case disk of
        Some m \<Rightarrow>
          (case old of
             None \<Rightarrow> queued Added m new
           | Some r \<Rightarrow> if up_to_date r m then new = old else queued Modified m new)
      | None \<Rightarrow>
          (case old of
             None \<Rightarrow> new = None
           | Some r \<Rightarrow> if tombstone r then new = old else queued Deleted (mtime r) new))"

lemma scan_input_on_disk:
  assumes "collect_scan_inputs files None = Inr items" and "distinct (map fst files)"
  shows "(\<exists>i \<in> set items. si_path i = p \<and> si_mtime i = m) \<longleftrightarrow> on_disk files p = Some m"
proof -
  have "(\<exists>i \<in> set items. si_path i = p \<and> si_mtime i = m) \<longleftrightarrow>
      (\<exists>spec \<in> set KIND_REGISTRY. glob_match (path_glob spec) p) \<and> (p, Stat_mtime m) \<in> set files"
    (is "?l \<longleftrightarrow> ?r")
  proof
    assume ?l
    then show ?r using scan_input_iff [OF assms(1)] by blast
  next
    assume ?r
    then obtain spec where "spec \<in> set KIND_REGISTRY" "glob_match (path_glob spec) p"
      "(p, Stat_mtime m) \<in> set files" by blast
    then have "\<lparr>si_path = p, si_mtime = m, si_kind = spec_name spec\<rparr> \<in> set items"
      by (intro present_in_scan [OF assms(1)]) (simp_all add: in_scope_def)
    then show ?l by (metis scan_input.select_convs(1,2))
  qed
  also have "(p, Stat_mtime m) \<in> set files \<longleftrightarrow> map_of files p = Some (Stat_mtime m)"
    using assms(2) by simp
  finally show ?thesis
    by (auto simp: on_disk_def list_ex_iff split: option.splits stat_result.splits)
qed

lemma enqueued_queued: "enqueued_row d old r \<Longrightarrow> queued (d_change d) (d_mtime d) (Some r)"
  by (simp add: enqueued_row_def queued_def)

lemma scan_swept:
  assumes wf: "wf_queue q" and files: "distinct (map fst files)"
    and scan: "scan_once clk files None q = (Inr ds, q')"
  shows "swept (on_disk files p) (queue_row p q) (queue_row p q')"
proof -
  obtain items where items: "collect_scan_inputs files None = Inr items"
    and ds: "ds = reconcile items (load_state_snapshot q)" and q': "q' = upsert_decisions clk ds q"
    using scan by (rule scan_once_Inr) (simp add: scoped_snapshot_def)
  have dq: "distinct (map md_path q)" using wf by (simp add: wf_queue_def)
  have dds: "distinct (map d_path ds)"
    unfolding ds by (rule distinct_reconcile) (simp_all add: distinct_scan [OF items files] fst_snapshot dq)
  have hit: "queued (d_change d) (d_mtime d) (queue_row (d_path d) q')" if "d \<in> set ds" for d
    using queue_row_upsert_decisions [OF dds that, of clk q] by (auto simp: q' dest: enqueued_queued)
  have miss: "queue_row p q' = queue_row p q" if "\<And>d. d \<in> set ds \<Longrightarrow> d_path d \<noteq> p"
    using that unfolding q' by (intro queue_row_upsert_decisions_other) auto
  show ?thesis
  proof (cases "on_disk files p")
    case (Some m)
    then obtain i where i: "i \<in> set items" "si_path i = p" "si_mtime i = m"
      using scan_input_on_disk [OF items files] by blast
    have only: "d \<in> set ds \<and> d_path d = p \<longleftrightarrow> decide_present (load_state_snapshot q) i = Some d" for d
    proof
      assume d: "d \<in> set ds \<and> d_path d = p"
      then obtain j where j: "j \<in> set items" "decide_present (load_state_snapshot q) j = Some d"
        using i decide_absent_path unfolding ds set_reconcile by fastforce
      then have "j = i"
        using d i distinct_scan [OF items files] decide_present_path [OF j(2)]
        by (auto simp: distinct_map dest: inj_onD)
      with j show "decide_present (load_state_snapshot q) i = Some d" by simp
    next
      assume "decide_present (load_state_snapshot q) i = Some d"
      with i decide_present_path [OF this] show "d \<in> set ds \<and> d_path d = p"
        by (auto simp: ds set_reconcile)
    qed
    show ?thesis
    proof (cases "decide_present (load_state_snapshot q) i")
      case None
      then have "queue_row p q' = queue_row p q" using only by (intro miss) auto
      with None i Some show ?thesis
        by (auto simp: swept_def decide_present_full split: option.splits if_splits)
    next
      case d: (Some d)
      then have "d \<in> set ds" "d_path d = p" using only by blast+
      with hit [of d] d i Some show ?thesis
        by (auto simp: swept_def decide_present_full split: option.splits if_splits)
    qed
  next
    case None
    then have nin: "p \<notin> si_path ` set items"
      using scan_input_on_disk [OF items files, of p] by auto
    have iff: "d \<in> set ds \<and> d_path d = p \<longleftrightarrow>
        (\<exists>e \<in> set (load_state_snapshot q). fst e = p \<and> decide_absent (si_path ` set items) e = Some d)" for d
      using nin decide_present_path decide_absent_path unfolding ds set_reconcile by fastforce
    show ?thesis
    proof (cases "queue_row p q")
      case qn: None
      then have "p \<notin> fst ` set (load_state_snapshot q)"
        by (auto simp: row_at_None_iff load_state_snapshot_def)
      then have "queue_row p q' = queue_row p q" using iff by (intro miss) (metis imageI)
      with None qn show ?thesis by (simp add: swept_def)
    next
      case (Some r)
      note dec = iff [unfolded decide_absent_full [OF dq Some nin]]
      show ?thesis
      proof (cases "tombstone r")
        case True
        then have "queue_row p q' = queue_row p q" using dec by (intro miss) (auto simp: tombstone_def)
        with None Some True show ?thesis by (simp add: swept_def)
      next
        case False
        then have "\<lparr>d_path = p, d_kind = kind r, d_change = Deleted, d_mtime = mtime r\<rparr> \<in> set ds"
          using dec [of "\<lparr>d_path = p, d_kind = kind r, d_change = Deleted, d_mtime = mtime r\<rparr>"]
          by (simp add: tombstone_def)
        from hit [OF this] None Some False show ?thesis by (simp add: swept_def)
      qed
    qed
  qed
qed

text \<open>
  C17: one successful sweep does to every path what the state machine promises: a new file
  is queued as added, a changed or retryably failed one as modified with its new time, an
  up-to-date or permanently failed one is left alone, a vanished one is queued as deleted
  unless it is already a processed deletion, and a path that is neither on disk nor
  recorded stays unrecorded.
\<close>

theorem scan_functional:
  assumes "wf_queue q" and "distinct (map fst files)"
    and "scan_once clk files None q = (Inr ds, q')"
  shows "swept (on_disk files p) (queue_row p q) (queue_row p q')"
  using assms by (rule scan_swept)

theorem scan_functional_witness:
  "swept (Some 5) None (queue_row demo_episode (snd (scan_once (\<lambda>n. 0) demo_fs None [])))"
proof -
  have "\<exists>ds. fst (scan_once (\<lambda>n. 0) demo_fs None []) = Inr ds"
  proof -
    have "\<not> isl (fst (scan_once (\<lambda>n. 0) demo_fs None []))" by code_simp
    then show ?thesis by (cases "fst (scan_once (\<lambda>n. 0) demo_fs None [])") simp_all
  qed
  then obtain ds where "scan_once (\<lambda>n. 0) demo_fs None [] = (Inr ds, snd (scan_once (\<lambda>n. 0) demo_fs None []))"
    by (metis prod.collapse)
  moreover have "wf_queue []" by (simp add: wf_queue_def)
  moreover have "distinct (map fst demo_fs)" by code_simp
  ultimately have "swept (on_disk demo_fs demo_episode) (queue_row demo_episode [])
      (queue_row demo_episode (snd (scan_once (\<lambda>n. 0) demo_fs None [])))"
    by (intro scan_functional)
  moreover have "on_disk demo_fs demo_episode = Some 5" by code_simp
  ultimately show ?thesis by simp
qed

text \<open>
  A sweep repeated before any row is processed finds nothing new: every file on disk
  is skipped, and the only decisions are the deletions still waiting in the queue.
\<close>

lemma second_sweep_is_quiet:
  assumes "wf_queue q" and "distinct (map fst files)"
    and "scan_once clk files None q = (Inr ds, q')"
    and "scan_once clk' files None q' = (Inr ds', q'')"
  shows "list_all (\<lambda>d. d_change d = Deleted) ds' \<and>
         (on_disk files p \<noteq> None \<longrightarrow> queue_row p q'' = queue_row p q')"
proof
  have wf': "wf_queue q'"
    using assms(1,3) by (auto elim!: scan_once_Inr simp: wf_queue_upsert_decisions)
  have fresh: "\<exists>r. queue_row x q' = Some r \<and> up_to_date r m" if "on_disk files x = Some m" for x m
    using scan_swept [OF assms(1-3), of x] that
    by (auto simp: swept_def queued_def up_to_date_def MTIME_TOLERANCE_SECONDS_def
        split: option.splits if_splits)
  obtain items where items: "collect_scan_inputs files None = Inr items"
    and ds': "ds' = reconcile items (load_state_snapshot q')"
    using assms(4) by (rule scan_once_Inr) (simp add: scoped_snapshot_def)
  have "d_change d = Deleted" if "d \<in> set ds'" for d
    using that unfolding ds' set_reconcile
  proof (elim disjE bexE)
    fix i assume i: "i \<in> set items" "decide_present (load_state_snapshot q') i = Some d"
    then have "on_disk files (si_path i) = Some (si_mtime i)"
      using scan_input_on_disk [OF items assms(2)] by blast
    from fresh [OF this] i(2) show ?thesis by (auto simp: decide_present_full)
  qed (simp add: decide_absent_path)
  then show "list_all (\<lambda>d. d_change d = Deleted) ds'" by (simp add: list_all_iff)
  show "on_disk files p \<noteq> None \<longrightarrow> queue_row p q'' = queue_row p q'"
    using scan_swept [OF wf' assms(2,4), of p] fresh [of p]
    by (auto simp: swept_def split: option.splits if_splits)
qed

lemma second_sweep_is_quiet_witness:
  "let q' = snd (scan_once (\<lambda>n. 0) demo_fs None []); q'' = snd (scan_once (\<lambda>n. 9) demo_fs None q')
   in queue_row demo_episode q'' = queue_row demo_episode q'"
proof -
  let ?s = "scan_once (\<lambda>n. 0) demo_fs None []"
  let ?t = "scan_once (\<lambda>n. 9) demo_fs None (snd ?s)"
  have "\<not> isl (fst ?s)" and "\<not> isl (fst ?t)" by code_simp+
  then obtain ds ds' where "?s = (Inr ds, snd ?s)" "?t = (Inr ds', snd ?t)"
    by (metis prod.collapse sum.collapse(2))
  from second_sweep_is_quiet [OF _ _ this, of demo_episode]
  have "wf_queue [] \<Longrightarrow> distinct (map fst demo_fs) \<Longrightarrow> on_disk demo_fs demo_episode \<noteq> None \<Longrightarrow>
      queue_row demo_episode (snd ?t) = queue_row demo_episode (snd ?s)" by blast
  moreover have "wf_queue []" by (simp add: wf_queue_def)
  moreover have "distinct (map fst demo_fs)" "on_disk demo_fs demo_episode \<noteq> None" by code_simp+
  ultimately show ?thesis by (simp add: Let_def)
qed

text \<open>
  A sweep restricted to some kinds leaves the queue rows of every other kind as they
  were, provided each row carries the kind of its path.
\<close>

lemma scoped_scan_keeps_other_kinds:
  assumes "wf_queue q" and "kinds_match q"
    and "scan_once clk files (Some ks) q = (res, q')"
    and "queue_row p q = Some r" and "kind r \<notin> ks"
  shows "queue_row p q' = Some r"
proof (cases res)
  case (Inl e)
  then show ?thesis using assms(3,4) by (auto simp: scan_once_def Let_def split: sum.splits)
next
  case (Inr ds)
  with assms(3) obtain items where items: "collect_scan_inputs files (Some ks) = Inr items"
    and ds: "ds = reconcile items (scoped_snapshot (Some ks) (load_state_snapshot q))"
    and q': "q' = upsert_decisions clk ds q"
    by (auto elim: scan_once_Inr)
  have mk: "map_option spec_name (match_kind p) = Some (kind r)"
    using assms(2,4) by (auto simp: kinds_match_def dest: row_at_SomeD)
  have "d_path d \<noteq> p" if "d \<in> set ds" for d
  proof
    assume p: "d_path d = p"
    then have "d_kind d = kind r"
      using decision_kind [OF items assms(2), of d] that mk by (simp add: ds)
    moreover have "d_kind d \<in> ks"
      using that unfolding ds set_reconcile
    proof (elim disjE bexE)
      fix i assume "i \<in> set items" "decide_present (scoped_snapshot (Some ks) (load_state_snapshot q)) i = Some d"
      then show ?thesis
        using scan_input_iff [OF items, of i] decide_present_path by (auto simp: in_scope_def)
    next
      fix e assume "e \<in> set (scoped_snapshot (Some ks) (load_state_snapshot q))"
        "decide_absent (si_path ` set items) e = Some d"
      then show ?thesis using decide_absent_path by (fastforce simp: scoped_snapshot_def)
    qed
    ultimately show False using assms(5) by simp
  qed
  then have "queue_row p q' = queue_row p q"
    unfolding q' by (intro queue_row_upsert_decisions_other) auto
  with assms(4) show ?thesis by simp
qed

lemma scoped_scan_keeps_other_kinds_witness:
  "\<exists>r. queue_row demo_episode
     (snd (scan_once (\<lambda>n. 4) [] (Some {''agent_skill''}) (snd (upsert 1 demo_episode ''episode'' Added 5 []))))
     = Some r \<and> status r = Pending"
proof -
  let ?q = "snd (upsert 1 demo_episode ''episode'' Added 5 [])"
  have wf: "wf_queue ?q" by (intro wf_queue_upsert) (simp add: wf_queue_def)
  have "map_option spec_name (match_kind demo_episode) = Some ''episode''" by code_simp
  then have km: "kinds_match ?q" by (intro kinds_match_upsert) (simp add: kinds_match_def)
  obtain r where r: "queue_row demo_episode ?q = Some r" "kind r = ''episode''" "status r = Pending"
    by (simp add: queue_row_upsert)
  have "kind r \<notin> {''agent_skill''}" using r(2) by simp
  from scoped_scan_keeps_other_kinds [OF wf km surjective_pairing r(1) this, of "\<lambda>n. 4" "[]"] r(3)
  show ?thesis by blast
qed

section \<open>Two behaviours of the sweep that the comments do not announce\<close>

text \<open>
  A file that was deleted, whose deletion was found by a sweep and processed, and that
  is then put back with its old modification time is skipped by every later sweep: the
  row is still the processed deletion, so its index rows are not rebuilt.
\<close>

lemma restored_file_is_skipped:
  assumes "wf_queue q" and "distinct (map fst files)"
    and "queue_row p q = Some r" and "status r = Done" and "change_type r = Deleted"
    and "on_disk files p = Some m" and "\<bar>mtime r - m\<bar> < MTIME_TOLERANCE_SECONDS"
    and "scan_once clk files None q = (Inr ds, q')"
  shows "queue_row p q' = Some r"
proof -
  have "up_to_date r m" using assms(4,7) by (simp add: up_to_date_def)
  with scan_swept [OF assms(1,2,8), of p] assms(3,6) show ?thesis by (simp add: swept_def)
qed

text \<open>The run: index a file, remove it, sweep and process the deletion, put the file back.\<close>

definition restored_run :: queue where
  "restored_run =
     (let q1 = snd (scan_once (\<lambda>n. 1) demo_fs None []);
          q2 = mark_done 2 demo_episode (snd (claim_one 2 demo_episode q1));
          q3 = snd (scan_once (\<lambda>n. 3) (tl demo_fs) None q2)
      in mark_done 4 demo_episode (snd (claim_one 4 demo_episode q3)))"

lemma restored_file_is_skipped_witness:
  "map_option (\<lambda>r. (status r, change_type r))
     (queue_row demo_episode (snd (scan_once (\<lambda>n. 5) demo_fs None restored_run)))
   = Some (Done, Deleted)"
proof -
  let ?s = "scan_once (\<lambda>n. 5) demo_fs None restored_run"
  have "\<not> isl (fst ?s)" by code_simp
  then obtain ds where s: "?s = (Inr ds, snd ?s)" by (metis prod.collapse sum.collapse(2))
  have wf: "wf_queue restored_run"
    unfolding restored_run_def Let_def
    by (intro wf_queue_ops wf_queue_scan_once wf_queue_Nil)
  have "map_option (\<lambda>r. (status r, change_type r, mtime r)) (queue_row demo_episode restored_run)
      = Some (Done, Deleted, 5)" by code_simp
  then obtain r where r: "queue_row demo_episode restored_run = Some r" "status r = Done"
    "change_type r = Deleted" "mtime r = 5" by auto
  have d: "distinct (map fst demo_fs)" and m: "on_disk demo_fs demo_episode = Some 5" by code_simp+
  have "\<bar>mtime r - 5\<bar> < MTIME_TOLERANCE_SECONDS" by (simp add: r MTIME_TOLERANCE_SECONDS_def)
  from restored_file_is_skipped [OF wf d r(1-3) m this s] r show ?thesis by simp
qed

text \<open>
  A deletion that failed for good is put back in the queue by every sweep: the rule
  that leaves permanently failed rows alone is applied to files on disk only.
\<close>

lemma failed_deletion_is_requeued:
  assumes "wf_queue q" and "distinct (map fst files)"
    and "queue_row p q = Some r" and "status r = Failed" and "retryable r = Some False"
    and "on_disk files p = None"
    and "scan_once clk files None q = (Inr ds, q')"
  shows "queued Deleted (mtime r) (queue_row p q')"
  using scan_swept [OF assms(1,2,7), of p] assms(3,4,6) by (simp add: swept_def tombstone_def)

lemma failed_deletion_is_requeued_witness:
  "queued Deleted 5 (queue_row demo_episode (snd (scan_once (\<lambda>n. 5) [] None
     (mark_failed 4 demo_episode False ''boom'' 12 (snd (claim_one 3 demo_episode
        (snd (upsert 1 demo_episode ''episode'' Deleted 5 []))))))))"
proof -
  let ?q = "mark_failed 4 demo_episode False ''boom'' 12 (snd (claim_one 3 demo_episode
        (snd (upsert 1 demo_episode ''episode'' Deleted 5 []))))"
  let ?s = "scan_once (\<lambda>n. 5) [] None ?q"
  have "\<not> isl (fst ?s)" by code_simp
  then obtain ds where s: "?s = (Inr ds, snd ?s)" by (metis prod.collapse sum.collapse(2))
  have wf: "wf_queue ?q" by (intro wf_queue_ops) (simp add: wf_queue_def)
  have "map_option (\<lambda>r. (status r, retryable r, mtime r)) (queue_row demo_episode ?q)
      = Some (Failed, Some False, 5)" by code_simp
  then obtain r where r: "queue_row demo_episode ?q = Some r" "status r = Failed"
    "retryable r = Some False" "mtime r = 5" by auto
  from failed_deletion_is_requeued [OF wf _ r(1-3) _ s] r show ?thesis by (simp add: on_disk_def)
qed

end
