(* ===== verification/Cascade_Worker.thy ===== *)
theory Cascade_Worker
  imports Reconcile
begin

text \<open>
  The cascade worker (\<open>memory/cascade/worker.py\<close>) and the sweep-and-drain entry points of
  the orchestrator (\<open>memory/cascade/orchestrator.py\<close>).

  A handler is a pair of functions on a world \<open>'w\<close> (the memory root and the vector index),
  each returning a \<open>HandlerOutcome\<close> or the exception it raised. The worker's state is the
  change queue, that world, the number of clock reads so far (the clock is a function of
  it) and the counter of unrecoverable errors. \<open>process_one\<close> is a handler phase
  (\<open>attempt_loop\<close>, on the world only) followed by one verdict (\<open>settle\<close>, one UPDATE of the
  queue); \<open>asyncio.gather\<close> over a batch is modelled twice: \<open>process_batch\<close> runs the rows in
  claim order, and the step relation \<open>cascade_step\<close> lets the two phases of the rows of a
  batch, watcher events and sweeps interleave in any order.
\<close>

section \<open>Handlers and their outcomes\<close>

record handler_outcome =
  ho_path :: string
  ho_kind :: string
  ho_upserted :: nat
  ho_deleted :: nat
  ho_skipped :: nat

datatype handler_exc =
    External_service_error string
  | File_not_found string
  | Other_exception string

fun exc_text :: "handler_exc \<Rightarrow> string" where
  "exc_text (External_service_error m) = m"
| "exc_text (File_not_found m) = m"
| "exc_text (Other_exception m) = m"

type_synonym 'w handler_fun = "string \<Rightarrow> 'w \<Rightarrow> (handler_exc + handler_outcome) \<times> 'w"

record 'w handler =
  handle_added_or_modified :: "'w handler_fun"
  handle_deleted :: "'w handler_fun"

type_synonym 'w handlers = "string \<Rightarrow> 'w handler option"

record 'w cascade =
  c_queue :: queue
  c_world :: 'w
  c_reads :: nat
  c_unrecoverable :: nat

definition MAX_TOTAL_RETRIES :: nat where "MAX_TOTAL_RETRIES = 12"
definition DEFAULT_MAX_RETRY :: nat where "DEFAULT_MAX_RETRY = 3"

section \<open>Processing one claimed row\<close>

definition run_handler :: "'w handler \<Rightarrow> change_row \<Rightarrow> 'w \<Rightarrow> (handler_exc + handler_outcome) \<times> 'w" where
  "run_handler h row w =
     (if change_type row = Deleted then handle_deleted h (md_path row) w
      else case handle_added_or_modified h (md_path row) w of
             (Inl (File_not_found _), w') \<Rightarrow> handle_deleted h (md_path row) w'
           | res \<Rightarrow> res)"

text \<open>The verdict of the attempts: done, retries spent, or an unrecoverable exception.\<close>

datatype verdict =
    Succeeded handler_outcome
  | Gave_up string nat
  | Crashed string nat

fun attempt_loop :: "'w handler \<Rightarrow> change_row \<Rightarrow> nat \<Rightarrow> nat \<Rightarrow> 'w \<Rightarrow> verdict \<times> 'w" where
  "attempt_loop h row 0 rc w =
     (case run_handler h row w of
        (Inr out, w') \<Rightarrow> (Succeeded out, w')
      | (Inl (External_service_error m), w') \<Rightarrow> (Gave_up m rc, w')
      | (Inl e, w') \<Rightarrow> (Crashed (exc_text e) rc, w'))"
| "attempt_loop h row (Suc left) rc w =
     (case run_handler h row w of
        (Inr out, w') \<Rightarrow> (Succeeded out, w')
      | (Inl (External_service_error m), w') \<Rightarrow> attempt_loop h row left (Suc rc) w'
      | (Inl e, w') \<Rightarrow> (Crashed (exc_text e) rc, w'))"

text \<open>What a claimed row comes to before its verdict is written.\<close>

datatype settlement =
    No_handler
  | Budget_spent
  | Ran verdict

definition handler_phase ::
  "'w handlers \<Rightarrow> nat \<Rightarrow> change_row \<Rightarrow> 'w \<Rightarrow> settlement \<times> 'w" where
  "handler_phase hs max_retry row w =
     (case hs (kind row) of
        None \<Rightarrow> (No_handler, w)
      | Some h \<Rightarrow>
          if MAX_TOTAL_RETRIES \<le> retry_count row then (Budget_spent, w)
          else case attempt_loop h row max_retry (retry_count row) w of (v, w') \<Rightarrow> (Ran v, w'))"

definition no_handler_error :: "string \<Rightarrow> string" where
  "no_handler_error k = ''no handler registered for kind '' @ [CHR 0x27] @ k @ [CHR 0x27]"

definition budget_error :: "nat \<Rightarrow> string" where
  "budget_error n = ''retry budget exhausted after '' @ dec n @ '' attempts''"

fun settle :: "time \<Rightarrow> change_row \<Rightarrow> settlement \<Rightarrow> queue \<Rightarrow> queue" where
  "settle now row No_handler q =
     mark_failed now (md_path row) False (no_handler_error (kind row)) (retry_count row) q"
| "settle now row Budget_spent q =
     mark_failed now (md_path row) False (budget_error (retry_count row)) (retry_count row) q"
| "settle now row (Ran (Succeeded out)) q = mark_done now (md_path row) q"
| "settle now row (Ran (Gave_up m rc)) q =
     mark_failed now (md_path row) (rc < MAX_TOTAL_RETRIES) m rc q"
| "settle now row (Ran (Crashed m rc)) q = mark_failed now (md_path row) False m rc q"

fun touched_kind :: "change_row \<Rightarrow> settlement \<Rightarrow> string option" where
  "touched_kind row (Ran (Succeeded out)) =
     (if ho_upserted out \<noteq> 0 \<or> ho_deleted out \<noteq> 0 then Some (kind row) else None)"
| "touched_kind row s = None"

fun is_crash :: "settlement \<Rightarrow> bool" where
  "is_crash (Ran (Crashed m rc)) = True"
| "is_crash s = False"

definition process_one ::
  "(nat \<Rightarrow> time) \<Rightarrow> 'w handlers \<Rightarrow> nat \<Rightarrow> change_row \<Rightarrow> 'w cascade \<Rightarrow> string option \<times> 'w cascade" where
  "process_one clk hs max_retry row st =
     (case handler_phase hs max_retry row (c_world st) of
        (s, w') \<Rightarrow>
          (touched_kind row s,
           st\<lparr>c_queue := settle (clk (c_reads st)) row s (c_queue st), c_world := w',
              c_reads := Suc (c_reads st),
              c_unrecoverable := c_unrecoverable st + (if is_crash s then 1 else 0)\<rparr>))"

fun process_batch ::
  "(nat \<Rightarrow> time) \<Rightarrow> 'w handlers \<Rightarrow> nat \<Rightarrow> change_row list \<Rightarrow> 'w cascade \<Rightarrow>
   string option list \<times> 'w cascade" where
  "process_batch clk hs max_retry [] st = ([], st)"
| "process_batch clk hs max_retry (row # rows) st =
     (case process_one clk hs max_retry row st of
        (k, st') \<Rightarrow> (case process_batch clk hs max_retry rows st' of (ks, st'') \<Rightarrow> (k # ks, st'')))"

section \<open>Draining\<close>

text \<open>
  \<open>drain_once\<close> returns the size of the batch and the kinds whose optimiser is to be
  scheduled (\<open>Index_Maintenance\<close> models that schedule); \<open>sync_once\<close> is the orchestrator's
  sweep followed by a drain.
\<close>

definition drain_once ::
  "(nat \<Rightarrow> time) \<Rightarrow> 'w handlers \<Rightarrow> nat \<Rightarrow> nat \<Rightarrow> string set option \<Rightarrow> 'w cascade \<Rightarrow>
   (nat \<times> string set) \<times> 'w cascade" where
  "drain_once clk hs batch_size max_retry kinds st =
     (case claim_pending_batch (clk (c_reads st)) batch_size kinds (c_queue st) of
        (batch, q') \<Rightarrow>
          let st1 = st\<lparr>c_queue := q', c_reads := Suc (c_reads st)\<rparr>
          in if batch = [] then ((0, {}), st1)
             else case process_batch clk hs max_retry batch st1 of
                    (res, st2) \<Rightarrow> ((length batch, Option.these (set res)), st2))"

fun drain_until_empty ::
  "(nat \<Rightarrow> time) \<Rightarrow> 'w handlers \<Rightarrow> nat \<Rightarrow> nat \<Rightarrow> nat \<Rightarrow> string set option \<Rightarrow> 'w cascade \<Rightarrow>
   nat \<times> 'w cascade" where
  "drain_until_empty clk hs batch_size max_retry 0 kinds st = (0, st)"
| "drain_until_empty clk hs batch_size max_retry (Suc passes) kinds st =
     (case drain_once clk hs batch_size max_retry kinds st of
        ((processed, _), st') \<Rightarrow>
          if processed = 0 then (0, st')
          else case drain_until_empty clk hs batch_size max_retry passes kinds st' of
                 (n, st'') \<Rightarrow> (processed + n, st''))"

definition MAX_PASSES :: nat where "MAX_PASSES = 100"

definition sync_once ::
  "(nat \<Rightarrow> time) \<Rightarrow> 'w handlers \<Rightarrow> nat \<Rightarrow> nat \<Rightarrow> string set option \<Rightarrow> ('w \<Rightarrow> fs) \<Rightarrow> 'w cascade \<Rightarrow>
   (scan_error + nat) \<times> 'w cascade" where
  "sync_once clk hs batch_size max_retry kinds files_of st =
     (case scan_once (\<lambda>n. clk (c_reads st + n)) (files_of (c_world st)) kinds (c_queue st) of
        (Inl e, q') \<Rightarrow> (Inl e, st\<lparr>c_queue := q'\<rparr>)
      | (Inr ds, q') \<Rightarrow>
          (case drain_until_empty clk hs batch_size max_retry MAX_PASSES kinds
                  (st\<lparr>c_queue := q', c_reads := c_reads st + length ds\<rparr>) of
             (n, st') \<Rightarrow> (Inr n, st')))"

section \<open>What a verdict does to the queue\<close>

fun settled :: "time \<Rightarrow> change_row \<Rightarrow> settlement \<Rightarrow> change_row \<Rightarrow> change_row" where
  "settled now row No_handler r =
     r\<lparr>status := Failed, retryable := Some False, last_attempt_at := Some now,
       error_msg := Some (no_handler_error (kind row)), retry_count := retry_count row\<rparr>"
| "settled now row Budget_spent r =
     r\<lparr>status := Failed, retryable := Some False, last_attempt_at := Some now,
       error_msg := Some (budget_error (retry_count row)), retry_count := retry_count row\<rparr>"
| "settled now row (Ran (Succeeded out)) r =
     r\<lparr>status := Done, last_attempt_at := Some now, error_msg := None, retryable := None\<rparr>"
| "settled now row (Ran (Gave_up m rc)) r =
     r\<lparr>status := Failed, retryable := Some (rc < MAX_TOTAL_RETRIES), last_attempt_at := Some now,
       error_msg := Some m, retry_count := rc\<rparr>"
| "settled now row (Ran (Crashed m rc)) r =
     r\<lparr>status := Failed, retryable := Some False, last_attempt_at := Some now,
       error_msg := Some m, retry_count := rc\<rparr>"

lemma settle_eq:
  "settle now row s q =
     update_where (\<lambda>r. md_path r = md_path row \<and> status r = Processing) (settled now row s) q"
  by (cases "(now, row, s, q)" rule: settle.cases)
     (simp_all add: mark_done_def mark_failed_def update_where_def)

lemma settled_keeps [simp]:
  "md_path (settled now row s r) = md_path r" "lsn (settled now row s r) = lsn r"
  "kind (settled now row s r) = kind r" "change_type (settled now row s r) = change_type r"
  "mtime (settled now row s r) = mtime r"
  by (cases "(now, row, s, r)" rule: settled.cases; simp)+

lemma settled_status:
  "status (settled now row s r) = (case s of Ran (Succeeded _) \<Rightarrow> Done | _ \<Rightarrow> Failed)"
  by (cases "(now, row, s, r)" rule: settled.cases) simp_all

lemma queue_row_settle:
  "queue_row p (settle now row s q) =
     map_option (\<lambda>r. if p = md_path row \<and> status r = Processing then settled now row s r else r)
       (queue_row p q)"
  by (cases "queue_row p q") (auto simp: settle_eq row_at_update_where dest: row_at_SomeD)

lemma wf_queue_settle: "wf_queue q \<Longrightarrow> wf_queue (settle now row s q)"
  by (cases "(now, row, s, q)" rule: settle.cases) (simp_all add: wf_queue_ops)

subsection \<open>The retry budget\<close>

lemma attempt_loop_count:
  "attempt_loop h row left rc w = (v, w') \<Longrightarrow>
   (case v of Succeeded _ \<Rightarrow> True | Gave_up m n \<Rightarrow> n = rc + left | Crashed m n \<Rightarrow> rc \<le> n \<and> n \<le> rc + left)"
proof (induction left arbitrary: rc w)
  case 0
  then show ?case
    by (auto split: prod.splits sum.splits handler_exc.splits)
next
  case (Suc left)
  show ?case
  proof (cases "\<exists>m w1. run_handler h row w = (Inl (External_service_error m), w1)")
    case True
    then obtain m w1 where "run_handler h row w = (Inl (External_service_error m), w1)" by blast
    with Suc.prems Suc.IH [of "Suc rc" w1] show ?thesis by (auto split: verdict.splits)
  next
    case False
    with Suc.prems show ?thesis by (auto split: prod.splits sum.splits handler_exc.splits)
  qed
qed

text \<open>The count a settlement writes: never below the claimed one, at most \<open>max_retry\<close> above.\<close>

definition within_budget :: "nat \<Rightarrow> change_row \<Rightarrow> bool" where
  "within_budget max_retry r \<longleftrightarrow>
     retry_count r < MAX_TOTAL_RETRIES + max_retry \<and>
     (retryable r = Some True \<longrightarrow> retry_count r < MAX_TOTAL_RETRIES)"

definition legal_settlement :: "nat \<Rightarrow> change_row \<Rightarrow> settlement \<Rightarrow> bool" where
  "legal_settlement max_retry row s =
     (case s of
        No_handler \<Rightarrow> True
      | Budget_spent \<Rightarrow> MAX_TOTAL_RETRIES \<le> retry_count row
      | Ran (Succeeded out) \<Rightarrow> retry_count row < MAX_TOTAL_RETRIES
      | Ran (Gave_up m n) \<Rightarrow> n = retry_count row + max_retry \<and> retry_count row < MAX_TOTAL_RETRIES
      | Ran (Crashed m n) \<Rightarrow> retry_count row \<le> n \<and> n \<le> retry_count row + max_retry
                             \<and> retry_count row < MAX_TOTAL_RETRIES)"

lemma handler_phase_legal:
  "handler_phase hs max_retry row w = (s, w') \<Longrightarrow> legal_settlement max_retry row s"
  by (auto simp: handler_phase_def legal_settlement_def dest: attempt_loop_count
      split: option.splits if_splits prod.splits verdict.splits)

lemma settled_counts:
  assumes "legal_settlement max_retry row s" and "retry_count r = retry_count row"
  shows "retry_count row \<le> retry_count (settled now row s r)
       \<and> retry_count (settled now row s r) \<le> retry_count row + max_retry
       \<and> (retryable (settled now row s r) = Some True \<longrightarrow>
            retry_count (settled now row s r) < MAX_TOTAL_RETRIES)"
  using assms by (cases "(now, row, s, r)" rule: settled.cases) (auto simp: legal_settlement_def)

subsection \<open>One row\<close>

lemma process_one_eq:
  "process_one clk hs max_retry row st =
     (let s = fst (handler_phase hs max_retry row (c_world st))
      in (touched_kind row s,
          st\<lparr>c_queue := settle (clk (c_reads st)) row s (c_queue st),
             c_world := snd (handler_phase hs max_retry row (c_world st)),
             c_reads := Suc (c_reads st),
             c_unrecoverable := c_unrecoverable st + (if is_crash s then 1 else 0)\<rparr>))"
  by (simp add: process_one_def Let_def split: prod.splits)

text \<open>
  C16: processing a claimed row settles it and touches no other row. The row ends as done
  exactly when a handler attempt succeeded, otherwise as failed; path, kind and LSN stay;
  the retry count grows by at most \<open>max_retry\<close>; and a row left retryable is still below
  the total budget of 12.
\<close>

theorem process_one_settles:
  assumes "queue_row (md_path row) (c_queue st) = Some row" and "status row = Processing"
  shows "(\<exists>r. queue_row (md_path row) (c_queue (snd (process_one clk hs max_retry row st))) = Some r
          \<and> status r = (case fst (handler_phase hs max_retry row (c_world st)) of
                          Ran (Succeeded _) \<Rightarrow> Done | _ \<Rightarrow> Failed)
          \<and> kind r = kind row \<and> lsn r = lsn row
          \<and> retry_count row \<le> retry_count r \<and> retry_count r \<le> retry_count row + max_retry
          \<and> (retryable r = Some True \<longrightarrow> retry_count r < MAX_TOTAL_RETRIES)) \<and>
         (p \<noteq> md_path row \<longrightarrow>
            queue_row p (c_queue (snd (process_one clk hs max_retry row st))) = queue_row p (c_queue st))"
proof -
  obtain s w' where h: "handler_phase hs max_retry row (c_world st) = (s, w')" by fastforce
  show ?thesis
    using settled_counts [OF handler_phase_legal [OF h] refl, of "clk (c_reads st)"] assms
    by (simp add: process_one_eq Let_def h queue_row_settle settled_status option.map_ident)
qed

definition demo_row :: change_row where
  "demo_row = hd (fst (claim_pending_batch 2 5 None (snd (upsert 1 demo_episode ''episode'' Added 5 []))))"

definition down_handler :: "unit handler" where
  "down_handler = \<lparr>handle_added_or_modified = (\<lambda>p w. (Inl (External_service_error ''503''), w)),
                   handle_deleted = (\<lambda>p w. (Inl (External_service_error ''503''), w))\<rparr>"

theorem process_one_settles_witness:
  "let st = \<lparr>c_queue = [demo_row], c_world = (), c_reads = 0, c_unrecoverable = 0\<rparr>
   in \<exists>r. queue_row demo_episode (c_queue (snd (process_one (\<lambda>n. 3) (\<lambda>k. Some down_handler) 3 demo_row st)))
          = Some r \<and> status r = Failed \<and> retry_count r \<le> 3"
proof -
  let ?st = "\<lparr>c_queue = [demo_row], c_world = (), c_reads = 0, c_unrecoverable = 0\<rparr>"
  have p: "md_path demo_row = demo_episode" and s: "status demo_row = Processing"
    and n: "retry_count demo_row = 0" by code_simp+
  have f: "(case fst (handler_phase (\<lambda>k. Some down_handler) 3 demo_row ()) of
      Ran (Succeeded _) \<Rightarrow> Done | _ \<Rightarrow> Failed) = Failed" by code_simp
  have "queue_row (md_path demo_row) (c_queue ?st) = Some demo_row" by (simp add: row_at_Cons)
  from process_one_settles [OF this s, of "\<lambda>n. 3" "\<lambda>k. Some down_handler" 3] f show ?thesis
    by (auto simp: p n)
qed

section \<open>Draining to the end\<close>

lemma claimable_settle: "filter (claimable kinds) (settle now row s q) = filter (claimable kinds) q"
  unfolding settle_eq
  by (rule filter_update_where_disjoint)
     (auto simp: claimable_def settled_status split: settlement.splits verdict.splits)

lemma process_batch_queue:
  "filter (claimable kinds) (c_queue (snd (process_batch clk hs max_retry rows st)))
     = filter (claimable kinds) (c_queue st) \<and>
   (wf_queue (c_queue st) \<longrightarrow> wf_queue (c_queue (snd (process_batch clk hs max_retry rows st)))) \<and>
   length (fst (process_batch clk hs max_retry rows st)) = length rows"
proof (induction rows arbitrary: st)
  case (Cons row rows)
  from Cons.IH [of "snd (process_one clk hs max_retry row st)"] show ?case
    by (auto simp: process_one_eq Let_def claimable_settle wf_queue_settle split: prod.splits)
qed simp

lemma count_claimable_claim:
  assumes "wf_queue q"
  shows "count_where (claimable kinds) (snd (claim_pending_batch now limit kinds q))
           + length (fst (claim_pending_batch now limit kinds q)) = count_where (claimable kinds) q"
proof -
  let ?p = "claim_prefix limit kinds q"
  have d: "distinct q" using assms by (simp add: wf_queue_def distinct_map)
  have "filter (claimable kinds) (update_where (\<lambda>r. r \<in> ps) (claim_row now) t)
      = filter (\<lambda>r. claimable kinds r \<and> r \<notin> ps) t" for ps t
    by (induction t) (auto simp: claimable_def)
  moreover have "set (filter (\<lambda>r. claimable kinds r \<and> r \<notin> set ?p) q)
      = set (filter (claimable kinds) q) - set ?p" by auto
  moreover have "set ?p \<subseteq> set (filter (claimable kinds) q)" using claim_prefix_subset by auto
  moreover have "distinct ?p"
    using distinct_lsn_claim_prefix [OF assms] by (simp add: distinct_map)
  ultimately show ?thesis
    using d by (simp add: claim_pending_batch_eq assms count_where_def card_Diff_subset card_mono
        flip: distinct_card)
qed

lemma length_claim:
  assumes "wf_queue q"
  shows "length (fst (claim_pending_batch now limit kinds q)) = min limit (count_where (claimable kinds) q)"
  by (simp add: claim_pending_batch_eq assms claim_prefix_def count_where_def)

lemma drain_once_queue:
  assumes "wf_queue (c_queue st)"
    and "drain_once clk hs batch_size max_retry kinds st = ((n, ks), st')"
  shows "n = min batch_size (count_where (claimable kinds) (c_queue st)) \<and>
         count_where (claimable kinds) (c_queue st') + n = count_where (claimable kinds) (c_queue st) \<and>
         wf_queue (c_queue st')"
proof -
  let ?c = "claim_pending_batch (clk (c_reads st)) batch_size kinds (c_queue st)"
  let ?st1 = "st\<lparr>c_queue := snd ?c, c_reads := Suc (c_reads st)\<rparr>"
  have wf1: "wf_queue (snd ?c)" by (rule wf_queue_claim_pending_batch [OF assms(1)])
  have "n = length (fst ?c) \<and> count_where (claimable kinds) (c_queue st') = count_where (claimable kinds) (snd ?c)
      \<and> wf_queue (c_queue st')"
    using assms(2) wf1 process_batch_queue [of kinds clk hs max_retry "fst ?c" ?st1]
    by (auto simp: drain_once_def Let_def count_where_def split: prod.splits if_splits)
  then show ?thesis
    using count_claimable_claim [OF assms(1), of kinds "clk (c_reads st)" batch_size] length_claim [OF assms(1)]
    by simp
qed

lemma drain_until_empty_queue:
  assumes "wf_queue (c_queue st)" and "0 < batch_size"
    and "count_where (claimable kinds) (c_queue st) \<le> passes * batch_size"
    and "drain_until_empty clk hs batch_size max_retry passes kinds st = (n, st')"
  shows "n = count_where (claimable kinds) (c_queue st) \<and>
         count_where (claimable kinds) (c_queue st') = 0 \<and> wf_queue (c_queue st')"
  using assms
proof (induction passes arbitrary: st n)
  case 0
  then show ?case by simp
next
  case (Suc passes)
  obtain k ks st1 where d: "drain_once clk hs batch_size max_retry kinds st = ((k, ks), st1)"
    by (metis surj_pair)
  note q = drain_once_queue [OF Suc.prems(1) d]
  show ?case
  proof (cases "k = 0")
    case True
    with d q Suc.prems show ?thesis by auto
  next
    case False
    with Suc.prems(4) d obtain m where m: "drain_until_empty clk hs batch_size max_retry passes kinds st1 = (m, st')"
      and n: "n = k + m" by (auto split: prod.splits)
    have "count_where (claimable kinds) (c_queue st1) \<le> passes * batch_size"
      using q Suc.prems(3) by (cases "batch_size \<le> count_where (claimable kinds) (c_queue st)") auto
    from Suc.IH [OF _ Suc.prems(2) this m] q n show ?thesis by simp
  qed
qed

text \<open>
  C4: a drain with enough passes for the backlog (with the defaults, 100 passes of 50 rows)
  processes every pending row of the wanted kinds, whatever the handlers do: it returns
  how many there were and leaves none pending.
\<close>

theorem drain_empties_queue:
  assumes "wf_queue (c_queue st)" and "0 < batch_size"
    and "count_where (claimable kinds) (c_queue st) \<le> passes * batch_size"
    and "drain_until_empty clk hs batch_size max_retry passes kinds st = (n, st')"
  shows "n = count_where (claimable kinds) (c_queue st) \<and>
         count_where (claimable kinds) (c_queue st') = 0"
  using drain_until_empty_queue [OF assms] by blast

theorem drain_empties_queue_witness:
  "let q = snd (upsert 3 ''b.md'' ''episode'' Added 1 (snd (upsert 1 demo_episode ''episode'' Added 5 [])));
       st = \<lparr>c_queue = q, c_world = (), c_reads = 0, c_unrecoverable = 0\<rparr>
   in fst (drain_until_empty (\<lambda>n. 3) (\<lambda>k. Some down_handler) 1 3 100 None st) = 2"
proof -
  let ?q = "snd (upsert 3 ''b.md'' ''episode'' Added 1 (snd (upsert 1 demo_episode ''episode'' Added 5 [])))"
  let ?st = "\<lparr>c_queue = ?q, c_world = (), c_reads = 0, c_unrecoverable = 0\<rparr>"
  have c: "count_where (claimable None) ?q = 2" by code_simp
  have "wf_queue (c_queue ?st)" by (simp add: wf_queue_ops)
  from drain_empties_queue [OF this, of 1 None 100 "\<lambda>n. 3" "\<lambda>k. Some down_handler" 3] c
  show ?thesis by (simp add: Let_def prod_eq_iff)
qed

section \<open>The pipeline as a state machine\<close>

text \<open>
  One process: the queue, the world and the rows in flight, each with its settlement once
  its handler has returned. A new batch is claimed only when the last one is finished (the
  drain loop awaits \<open>gather\<close>); watcher events and sweeps land at any moment; the process
  may die at any moment and is restarted by \<open>CascadeOrchestrator.start\<close>, whose recovery
  pass returns the orphaned rows to the queue.
\<close>

record 'w pipeline =
  pl_queue :: queue
  pl_world :: 'w
  pl_flight :: "(change_row \<times> settlement option) list"

inductive cascade_step :: "'w handlers \<Rightarrow> nat \<Rightarrow> nat \<Rightarrow> 'w pipeline \<Rightarrow> 'w pipeline \<Rightarrow> bool"
  for hs :: "'w handlers" and batch_size max_retry :: nat where
  sweep: "cascade_step hs batch_size max_retry p
     (p\<lparr>pl_queue := snd (scan_once clk files kinds (pl_queue p))\<rparr>)"
| event: "cascade_step hs batch_size max_retry p
     (p\<lparr>pl_queue := on_event clk files e (pl_queue p)\<rparr>)"
| claim: "pl_flight p = [] \<Longrightarrow>
     claim_pending_batch now batch_size kinds (pl_queue p) = (batch, q') \<Longrightarrow>
     cascade_step hs batch_size max_retry p
       (p\<lparr>pl_queue := q', pl_flight := map (\<lambda>r. (r, None)) batch\<rparr>)"
| handle: "pl_flight p = fl @ (row, None) # fl' \<Longrightarrow>
     handler_phase hs max_retry row (pl_world p) = (s, w') \<Longrightarrow>
     cascade_step hs batch_size max_retry p
       (p\<lparr>pl_world := w', pl_flight := fl @ (row, Some s) # fl'\<rparr>)"
| verdict: "pl_flight p = fl @ (row, Some s) # fl' \<Longrightarrow>
     cascade_step hs batch_size max_retry p
       (p\<lparr>pl_queue := settle now row s (pl_queue p), pl_flight := fl @ fl'\<rparr>)"
| restart: "cascade_step hs batch_size max_retry p
     (p\<lparr>pl_queue := snd (recover_orphan_processing (pl_queue p)), pl_flight := []\<rparr>)"

inductive_cases cascade_step_cases: "cascade_step hs batch_size max_retry p p'"

inductive cascade_reachable :: "'w handlers \<Rightarrow> nat \<Rightarrow> nat \<Rightarrow> 'w pipeline \<Rightarrow> bool"
  for hs :: "'w handlers" and batch_size max_retry :: nat where
  fresh: "cascade_reachable hs batch_size max_retry \<lparr>pl_queue = [], pl_world = w, pl_flight = []\<rparr>"
| step: "cascade_reachable hs batch_size max_retry p \<Longrightarrow> cascade_step hs batch_size max_retry p p' \<Longrightarrow>
     cascade_reachable hs batch_size max_retry p'"

definition flight_ok :: "nat \<Rightarrow> queue \<Rightarrow> (change_row \<times> settlement option) list \<Rightarrow> bool" where
  "flight_ok max_retry q fl \<longleftrightarrow>
     distinct (map (md_path \<circ> fst) fl) \<and>
     (\<forall>(row, s) \<in> set fl. within_budget max_retry row \<and>
        (case s of None \<Rightarrow> True | Some s \<Rightarrow> legal_settlement max_retry row s)) \<and>
     (\<forall>r \<in> set q. status r = Processing \<longrightarrow> r \<in> fst ` set fl)"

definition pipeline_inv :: "nat \<Rightarrow> 'w pipeline \<Rightarrow> bool" where
  "pipeline_inv max_retry p \<longleftrightarrow>
     wf_queue (pl_queue p) \<and> (\<forall>r \<in> set (pl_queue p). within_budget max_retry r) \<and>
     flight_ok max_retry (pl_queue p) (pl_flight p)"

text \<open>Enqueueing keeps the invariant.\<close>

lemma set_upsert:
  "r \<in> set (snd (upsert now p k ct mt q)) \<Longrightarrow>
     r \<in> set q \<or> (status r = Pending \<and> retryable r = None \<and>
       (retry_count r = 0 \<or> (\<exists>r' \<in> set q. retry_count r = retry_count r')))"
  by (auto simp: upsert_def Let_def upsert_row_def set_update_where split: if_splits)

lemma pipeline_inv_upsert:
  assumes "pipeline_inv mr p"
  shows "pipeline_inv mr (p\<lparr>pl_queue := snd (upsert now x k ct mt (pl_queue p))\<rparr>)"
proof -
  have "within_budget mr r \<and> (status r = Processing \<longrightarrow> r \<in> fst ` set (pl_flight p))"
    if "r \<in> set (snd (upsert now x k ct mt (pl_queue p)))" for r
    using set_upsert [OF that] assms
    by (auto simp: pipeline_inv_def flight_ok_def within_budget_def MAX_TOTAL_RETRIES_def)
  with assms show ?thesis
    by (simp add: pipeline_inv_def flight_ok_def wf_queue_upsert)
qed

lemma pipeline_inv_upsert_decisions:
  "pipeline_inv mr p \<Longrightarrow> pipeline_inv mr (p\<lparr>pl_queue := upsert_decisions clk ds (pl_queue p)\<rparr>)"
proof (induction ds arbitrary: clk p)
  case (Cons d ds)
  from Cons.IH [OF pipeline_inv_upsert [OF Cons.prems, of "clk 0" "d_path d" "d_kind d" "d_change d" "d_mtime d"],
      of "\<lambda>n. clk (Suc n)"]
  show ?case by simp
qed simp

lemma pipeline_inv_enqueue:
  "pipeline_inv mr p \<Longrightarrow> pipeline_inv mr (p\<lparr>pl_queue := watch_enqueue now files raw ct (pl_queue p)\<rparr>)"
  by (auto simp: watch_enqueue_def intro: pipeline_inv_upsert split: option.splits)

lemma pipeline_inv_event:
  "pipeline_inv mr p \<Longrightarrow> pipeline_inv mr (p\<lparr>pl_queue := on_event clk files e (pl_queue p)\<rparr>)"
proof (cases e)
  case (Moved src dst f)
  assume inv: "pipeline_inv mr p"
  let ?p1 = "p\<lparr>pl_queue := watch_enqueue (clk 0) files src Deleted (pl_queue p)\<rparr>"
  have "pipeline_inv mr ?p1" by (rule pipeline_inv_enqueue [OF inv])
  from pipeline_inv_enqueue [OF this, of "clk 1" files dst Added]
    pipeline_inv_enqueue [OF inv, of "clk 1" files dst Added] this inv
  show ?thesis by (auto simp: Moved Let_def split: option.splits)
qed (auto intro: pipeline_inv_enqueue split: option.splits bool.splits)

text \<open>The other steps keep it too.\<close>

lemma settled_within:
  assumes "legal_settlement mr row s" and "within_budget mr row" and "retry_count r = retry_count row"
  shows "within_budget mr (settled now row s r)"
  using assms by (cases "(now, row, s, r)" rule: settled.cases)
    (auto simp: legal_settlement_def within_budget_def)

lemma pipeline_inv_claim:
  assumes "pipeline_inv mr p" and "pl_flight p = []"
    and "claim_pending_batch now n kinds (pl_queue p) = (batch, q')"
  shows "pipeline_inv mr (p\<lparr>pl_queue := q', pl_flight := map (\<lambda>r. (r, None)) batch\<rparr>)"
proof -
  let ?p = "claim_prefix n kinds (pl_queue p)"
  have wf: "wf_queue (pl_queue p)" and b: "\<forall>r \<in> set (pl_queue p). within_budget mr r"
    and np: "\<forall>r \<in> set (pl_queue p). status r \<noteq> Processing"
    using assms(1,2) by (auto simp: pipeline_inv_def flight_ok_def)
  have batch: "batch = map (claim_row now) ?p"
    and q': "q' = update_where (\<lambda>r. r \<in> set ?p) (claim_row now) (pl_queue p)"
    using assms(3) claim_pending_batch_eq [OF wf] by auto
  have wb: "within_budget mr (claim_row now r)" if "r \<in> set (pl_queue p)" for r
    using b that by (simp add: within_budget_def claim_row_def)
  have "wf_queue q'"
    using wf_queue_claim_pending_batch [OF wf, of now n kinds] assms(3) by simp
  moreover have "distinct (map md_path ?p)"
    using wf by (intro distinct_map_claim_prefix) (simp add: wf_queue_def)
  moreover have "within_budget mr r \<and> (status r = Processing \<longrightarrow> r \<in> set batch)" if "r \<in> set q'" for r
    using that np b wb by (auto simp: q' batch set_update_where split: if_splits)
  ultimately show ?thesis
    using wb claim_prefix_subset
    by (auto simp: pipeline_inv_def flight_ok_def batch o_def image_image)
qed

lemma pipeline_inv_handle:
  assumes "pipeline_inv mr p" and "pl_flight p = fl @ (row, None) # fl'"
    and "handler_phase hs mr row (pl_world p) = (s, w')"
  shows "pipeline_inv mr (p\<lparr>pl_world := w', pl_flight := fl @ (row, Some s) # fl'\<rparr>)"
  using assms handler_phase_legal [OF assms(3)] by (auto simp: pipeline_inv_def flight_ok_def)

lemma pipeline_inv_verdict:
  assumes "pipeline_inv mr p" and "pl_flight p = fl @ (row, Some s) # fl'"
  shows "pipeline_inv mr (p\<lparr>pl_queue := settle now row s (pl_queue p), pl_flight := fl @ fl'\<rparr>)"
proof -
  have legal: "legal_settlement mr row s" and wb: "within_budget mr row"
    and b: "\<forall>r \<in> set (pl_queue p). within_budget mr r"
    and paths: "md_path row \<notin> (md_path \<circ> fst) ` set (fl @ fl')"
    using assms by (auto simp: pipeline_inv_def flight_ok_def)
  have fl: "r = row \<or> r \<in> fst ` set (fl @ fl')" if "r \<in> set (pl_queue p)" "status r = Processing" for r
    using that assms by (auto simp: pipeline_inv_def flight_ok_def)
  have "within_budget mr r \<and> (status r = Processing \<longrightarrow> r \<in> fst ` set (fl @ fl'))"
    if rq: "r \<in> set (settle now row s (pl_queue p))" for r
  proof -
    obtain x where x: "x \<in> set (pl_queue p)"
      and r: "r = (if md_path x = md_path row \<and> status x = Processing then settled now row s x else x)"
      using rq unfolding settle_eq set_update_where image_iff by blast
    show ?thesis
    proof (cases "md_path x = md_path row \<and> status x = Processing")
      case True
      with fl [OF x] paths have "x = row" by force
      with True r settled_within [OF legal wb] show ?thesis
        by (simp add: settled_status split: settlement.splits verdict.splits)
    next
      case False
      with r x b fl [OF x] show ?thesis by auto
    qed
  qed
  with assms show ?thesis
    by (auto simp: pipeline_inv_def flight_ok_def wf_queue_settle)
qed

lemma pipeline_inv_restart:
  assumes "pipeline_inv mr p"
  shows "pipeline_inv mr (p\<lparr>pl_queue := snd (recover_orphan_processing (pl_queue p)), pl_flight := []\<rparr>)"
proof -
  have "wf_queue (snd (recover_orphan_processing (pl_queue p)))"
    using assms by (simp add: pipeline_inv_def wf_queue_recover)
  moreover have "within_budget mr r \<and> status r \<noteq> Processing"
    if "r \<in> set (snd (recover_orphan_processing (pl_queue p)))" for r
    using that assms
    by (auto simp: pipeline_inv_def within_budget_def recover_orphan_processing_def set_update_where)
  ultimately show ?thesis by (simp add: pipeline_inv_def flight_ok_def)
qed

lemma pipeline_inv_sweep:
  assumes "pipeline_inv mr p"
  shows "pipeline_inv mr (p\<lparr>pl_queue := snd (scan_once clk files kinds (pl_queue p))\<rparr>)"
  using assms pipeline_inv_upsert_decisions [OF assms]
  by (simp add: scan_once_def Let_def split: sum.splits)

lemma cascade_reachable_inv: "cascade_reachable hs n mr p \<Longrightarrow> pipeline_inv mr p"
proof (induction rule: cascade_reachable.induct)
  case (step p p')
  from step.hyps(2) step.IH show ?case
    by (cases rule: cascade_step.cases)
      (blast intro: pipeline_inv_sweep pipeline_inv_event pipeline_inv_claim pipeline_inv_handle
        pipeline_inv_verdict pipeline_inv_restart)+
qed (simp add: pipeline_inv_def flight_ok_def)

text \<open>
  C3: in every state the pipeline can reach, whatever order watcher events, sweeps,
  handlers, verdicts and restarts come in, a row marked \<open>processing\<close> is one the worker
  holds, so between batches none is; no two rows in flight share a path; and every retry
  count stays below the budget of 12 plus \<open>max_retry\<close>, below 12 while retryable.
\<close>

theorem no_claim_is_lost:
  assumes "cascade_reachable hs batch_size max_retry p"
  shows "(\<forall>r \<in> set (pl_queue p). status r = Processing \<longrightarrow> r \<in> fst ` set (pl_flight p)) \<and>
         distinct (map (md_path \<circ> fst) (pl_flight p)) \<and>
         (\<forall>r \<in> set (pl_queue p). retry_count r < MAX_TOTAL_RETRIES + max_retry \<and>
            (retryable r = Some True \<longrightarrow> retry_count r < MAX_TOTAL_RETRIES))"
  using cascade_reachable_inv [OF assms]
  by (auto simp: pipeline_inv_def flight_ok_def within_budget_def)

text \<open>A run: an event, a claim, a handler call and a restart while the row is in flight.\<close>

definition demo_queue :: queue where
  "demo_queue = on_event (\<lambda>n. 1) demo_fs (Created (Some demo_episode)) []"

theorem no_claim_is_lost_witness:
  "let (batch, q') = claim_pending_batch 2 50 None demo_queue
   in \<not> list_ex (\<lambda>r. status r = Processing \<and> r \<notin> set batch) q' \<and> batch \<noteq> []"
proof -
  let ?hs = "\<lambda>k. Some down_handler"
  let ?p0 = "\<lparr>pl_queue = [], pl_world = (), pl_flight = []\<rparr>"
  let ?p1 = "?p0\<lparr>pl_queue := demo_queue\<rparr>"
  obtain batch q' where c: "claim_pending_batch 2 50 None demo_queue = (batch, q')" by fastforce
  have "cascade_reachable ?hs 50 3 ?p0" by (rule cascade_reachable.fresh)
  moreover have "cascade_step ?hs 50 3 ?p0 ?p1"
    using cascade_step.event [of ?hs 50 3 ?p0 "\<lambda>n. 1" demo_fs "Created (Some demo_episode)"]
    by (simp add: demo_queue_def)
  moreover have "cascade_step ?hs 50 3 ?p1 (?p1\<lparr>pl_queue := q', pl_flight := map (\<lambda>r. (r, None)) batch\<rparr>)"
    by (rule cascade_step.claim [where kinds = None and now = 2]) (simp_all add: c)
  ultimately have "cascade_reachable ?hs 50 3 (?p1\<lparr>pl_queue := q', pl_flight := map (\<lambda>r. (r, None)) batch\<rparr>)"
    by (blast intro: cascade_reachable.step)
  from no_claim_is_lost [OF this] have "\<not> list_ex (\<lambda>r. status r = Processing \<and> r \<notin> set batch) q'"
    by (auto simp: list_ex_iff image_image)
  moreover have "fst (claim_pending_batch 2 50 None demo_queue) \<noteq> []" by code_simp
  ultimately show ?thesis by (simp add: c)
qed

section \<open>A service that stays down\<close>

text \<open>One retry cycle for one file: the sweep's decision, its upsert, the claim, the handler.\<close>

definition retry_cycle :: "time \<Rightarrow> 'w handlers \<Rightarrow> scan_input \<Rightarrow> 'w cascade \<Rightarrow> 'w cascade" where
  "retry_cycle now hs item st =
     (case decide_present (load_state_snapshot (c_queue st)) item of
        None \<Rightarrow> st
      | Some d \<Rightarrow>
          let q1 = snd (upsert now (d_path d) (d_kind d) (d_change d) (d_mtime d) (c_queue st))
          in case claim_one now (d_path d) q1 of
               (None, q2) \<Rightarrow> st\<lparr>c_queue := q2\<rparr>
             | (Some row, q2) \<Rightarrow>
                 snd (process_one (\<lambda>_. now) hs DEFAULT_MAX_RETRY row (st\<lparr>c_queue := q2\<rparr>)))"

definition always_down :: "'w handlers \<Rightarrow> string \<Rightarrow> bool" where
  "always_down hs k \<longleftrightarrow>
     (\<exists>h. hs k = Some h \<and> (\<forall>row w. \<exists>m w'. run_handler h row w = (Inl (External_service_error m), w')))"

lemma attempt_loop_down:
  assumes "\<And>row w. \<exists>m w'. run_handler h row w = (Inl (External_service_error m), w')"
  shows "\<exists>m w'. attempt_loop h row left rc w = (Gave_up m (rc + left), w')"
proof (induction left arbitrary: rc w)
  case 0
  from assms [of row w] show ?case by auto
next
  case (Suc left)
  from assms [of row w] obtain m w' where "run_handler h row w = (Inl (External_service_error m), w')" by blast
  with Suc.IH [of "Suc rc" w'] show ?case by auto
qed

text \<open>The row after \<open>n\<close> cycles, as far as the sweep is concerned.\<close>

definition spent :: "nat \<Rightarrow> scan_input \<Rightarrow> change_row option \<Rightarrow> bool" where
  "spent n item r =
     (case r of
        None \<Rightarrow> n = 0
      | Some r \<Rightarrow> 0 < n \<and> status r = Failed \<and> mtime r = si_mtime item
          \<and> retry_count r = 3 * min n 4 \<and> retryable r = Some (n < 4))"

lemma queue_row_claim_one:
  assumes "distinct (map md_path q)" and "queue_row p q = Some r" and "status r = Pending"
  shows "claim_one now p q = (Some (claim_row now r), snd (claim_one now p q))"
    and "queue_row p (snd (claim_one now p q)) = Some (claim_row now r)"
proof -
  let ?hit = "\<lambda>r. md_path r = p \<and> status r = Pending"
  have r: "r \<in> set q" "md_path r = p" using assms(1,2) by (auto simp: row_at_Some_iff)
  have "filter ?hit q = [r]"
  proof -
    have "set (filter ?hit q) = {r}"
      using assms r by (auto simp: distinct_map dest: inj_onD)
    moreover have "distinct (filter ?hit q)" using assms(1) by (simp add: distinct_map)
    ultimately show ?thesis by (rule distinct_singleton)
  qed
  then have "count_where ?hit q = 1" by (simp add: count_where_def)
  moreover show "queue_row p (snd (claim_one now p q)) = Some (claim_row now r)"
    using assms r by (simp add: claim_one_def Let_def row_at_update_where)
  ultimately show "claim_one now p q = (Some (claim_row now r), snd (claim_one now p q))"
    by (simp add: claim_one_def Let_def)
qed

lemma spent_step:
  assumes "wf_queue (c_queue st)" and "spent n item (queue_row (si_path item) (c_queue st))"
    and "always_down hs (si_kind item)"
  shows "spent (Suc n) item (queue_row (si_path item) (c_queue (retry_cycle now hs item st)))"
proof (cases "4 \<le> n")
  case True
  with assms(2) obtain r where "queue_row (si_path item) (c_queue st) = Some r"
    "status r = Failed" "mtime r = si_mtime item" "retry_count r = 12" "retryable r = Some False"
    by (auto simp: spent_def split: option.splits)
  with True show ?thesis
    by (simp add: retry_cycle_def decide_present_def map_of_snapshot mtime_stable_def
        MTIME_TOLERANCE_SECONDS_def spent_def min_def)
next
  case False
  let ?p = "si_path item"
  obtain h where h: "hs (si_kind item) = Some h"
    and down: "\<And>row w. \<exists>m w'. run_handler h row w = (Inl (External_service_error m), w')"
    using assms(3) by (auto simp: always_down_def)
  obtain d where d: "decide_present (load_state_snapshot (c_queue st)) item = Some d"
    and dp: "d_path d = ?p" "d_kind d = si_kind item" "d_mtime d = si_mtime item"
    using assms(2) False
    by (cases "queue_row ?p (c_queue st)")
      (auto simp: decide_present_def map_of_snapshot spent_def mtime_stable_def)
  let ?q1 = "snd (upsert now (d_path d) (d_kind d) (d_change d) (d_mtime d) (c_queue st))"
  have wf1: "wf_queue ?q1" by (rule wf_queue_upsert [OF assms(1)])
  obtain r1 where r1: "queue_row ?p ?q1 = Some r1" "status r1 = Pending" "kind r1 = si_kind item"
    "mtime r1 = si_mtime item" "retry_count r1 = 3 * n"
    using assms(2) False
    by (cases "queue_row ?p (c_queue st)")
      (auto simp: queue_row_upsert dp spent_def MTIME_TOLERANCE_SECONDS_def)
  have dq: "distinct (map md_path ?q1)" using wf1 by (simp add: wf_queue_def)
  note c = queue_row_claim_one [OF dq r1(1,2), of now]
  let ?row = "claim_row now r1" and ?q2 = "snd (claim_one now ?p ?q1)"
  obtain m w' where "attempt_loop h ?row 3 (3 * n) (c_world st) = (Gave_up m (3 * n + 3), w')"
    using attempt_loop_down [of h, OF down] by blast
  then have ph: "handler_phase hs DEFAULT_MAX_RETRY ?row (c_world st) = (Ran (Gave_up m (3 * n + 3)), w')"
    using False by (simp add: handler_phase_def r1 h MAX_TOTAL_RETRIES_def DEFAULT_MAX_RETRY_def)
  have path: "md_path r1 = ?p" using r1(1) by (auto dest: row_at_SomeD)
  obtain q2 where q2: "claim_one now ?p ?q1 = (Some ?row, q2)" using c(1) by blast
  then have "retry_cycle now hs item st
      = snd (process_one (\<lambda>_. now) hs DEFAULT_MAX_RETRY ?row (st\<lparr>c_queue := ?q2\<rparr>))"
    by (simp add: retry_cycle_def d Let_def dp)
  then have "queue_row ?p (c_queue (retry_cycle now hs item st))
      = Some (settled now ?row (Ran (Gave_up m (3 * n + 3))) ?row)"
    using c(2) path q2
    by (simp add: process_one_eq ph Let_def queue_row_settle del: settle.simps settled.simps)
  then show ?thesis
    using False r1(4) by (simp add: spent_def MAX_TOTAL_RETRIES_def min_def)
qed

lemma wf_retry_cycle: "wf_queue (c_queue st) \<Longrightarrow> wf_queue (c_queue (retry_cycle now hs item st))"
proof (cases "decide_present (load_state_snapshot (c_queue st)) item")
  case (Some d)
  assume "wf_queue (c_queue st)"
  then have "wf_queue (snd (claim_one now (d_path d)
      (snd (upsert now (d_path d) (d_kind d) (d_change d) (d_mtime d) (c_queue st)))))"
    by (intro wf_queue_ops)
  with Some show ?thesis
    by (auto simp: retry_cycle_def Let_def process_one_eq wf_queue_settle split: option.splits prod.splits)
qed (simp add: retry_cycle_def)

lemma spent_cycles:
  assumes "wf_queue (c_queue st)" and "queue_row (si_path item) (c_queue st) = None"
    and "always_down hs (si_kind item)"
  shows "spent n item (queue_row (si_path item) (c_queue ((retry_cycle now hs item ^^ n) st))) \<and>
         wf_queue (c_queue ((retry_cycle now hs item ^^ n) st))"
proof (induction n)
  case 0
  then show ?case using assms by (simp add: spent_def)
next
  case (Suc n)
  then have wf: "wf_queue (c_queue ((retry_cycle now hs item ^^ n) st))"
    and s: "spent n item (queue_row (si_path item) (c_queue ((retry_cycle now hs item ^^ n) st)))"
    by simp_all
  from spent_step [OF wf s assms(3), of now] wf_retry_cycle [OF wf, of now hs item]
  show ?case by simp
qed

text \<open>
  C15: with an external service that stays down, a new file is retried over exactly four
  sweep cycles, three retries counted in each: after \<open>n\<close> cycles its row is failed with
  \<open>3 * min n 4\<close> retries, retryable until the fourth, and from then on the sweep leaves the
  unchanged file alone.
\<close>

theorem outage_budget:
  assumes "wf_queue (c_queue st)" and "queue_row (si_path item) (c_queue st) = None"
    and "always_down hs (si_kind item)"
  shows "map_option (\<lambda>r. (status r, retry_count r, retryable r))
           (queue_row (si_path item) (c_queue ((retry_cycle now hs item ^^ Suc n) st)))
           = Some (Failed, 3 * min (Suc n) 4, Some (Suc n < 4)) \<and>
         (4 \<le> n \<longrightarrow> (retry_cycle now hs item ^^ n) st = (retry_cycle now hs item ^^ 4) st)"
proof
  show "map_option (\<lambda>r. (status r, retry_count r, retryable r))
           (queue_row (si_path item) (c_queue ((retry_cycle now hs item ^^ Suc n) st)))
           = Some (Failed, 3 * min (Suc n) 4, Some (Suc n < 4))"
    using spent_cycles [OF assms, of "Suc n" now]
    by (auto simp: spent_def simp del: funpow.simps split: option.splits)
  have stop: "retry_cycle now hs item ((retry_cycle now hs item ^^ k) st) = (retry_cycle now hs item ^^ k) st"
    if "4 \<le> k" for k
    using spent_cycles [OF assms, of k now] that
    by (auto simp: spent_def retry_cycle_def decide_present_def map_of_snapshot mtime_stable_def
        MTIME_TOLERANCE_SECONDS_def split: option.splits)
  have "(retry_cycle now hs item ^^ (4 + k)) st = (retry_cycle now hs item ^^ 4) st" for k
  proof (induction k)
    case (Suc k)
    have "(retry_cycle now hs item ^^ (4 + Suc k)) st
        = retry_cycle now hs item ((retry_cycle now hs item ^^ (4 + k)) st)"
      by (simp only: add_Suc_right funpow.simps o_apply)
    also have "\<dots> = (retry_cycle now hs item ^^ (4 + k)) st" by (rule stop) simp
    finally show ?case using Suc.IH by simp
  qed simp
  then show "4 \<le> n \<longrightarrow> (retry_cycle now hs item ^^ n) st = (retry_cycle now hs item ^^ 4) st"
    by (metis le_Suc_ex)
qed

theorem outage_budget_witness:
  "let st = \<lparr>c_queue = [], c_world = (), c_reads = 0, c_unrecoverable = 0\<rparr>;
       item = \<lparr>si_path = demo_episode, si_mtime = 5, si_kind = ''episode''\<rparr>
   in map_option retry_count (queue_row demo_episode
        (c_queue ((retry_cycle 7 (\<lambda>k. Some down_handler) item ^^ 9) st))) = Some 12"
proof -
  let ?st = "\<lparr>c_queue = [], c_world = (), c_reads = 0, c_unrecoverable = 0\<rparr>"
  let ?item = "\<lparr>si_path = demo_episode, si_mtime = 5, si_kind = ''episode''\<rparr>"
  have "always_down (\<lambda>k. Some down_handler) ''episode''"
    by (simp add: always_down_def run_handler_def down_handler_def)
  then have down: "always_down (\<lambda>k. Some down_handler) (si_kind ?item)" by simp
  have nine: "Suc 8 = 9" by simp
  have "wf_queue (c_queue ?st)" "queue_row (si_path ?item) (c_queue ?st) = None" by simp_all
  from outage_budget [OF this down, of 8 7, unfolded nine] show ?thesis
    by (simp add: Let_def min_def) (auto simp del: funpow.simps)
qed

end
