(* ===== verification/Index_Maintenance.thy ===== *)
theory Index_Maintenance
  imports Prelude
begin

text \<open>
  Upkeep of the vector index inside the cascade worker (\<open>memory/cascade/worker.py\<close>):
  scheduling and running the light (\<open>optimize\<close>) and heavy (\<open>prune\<close>) beats, the fallback and
  periodic rebuilds with their backoff, the supervision of the worker's loops and the
  health verdict. A call on the table repository is a parameter: it returns or raises with
  a message (a deadline that expires raises too). Clock readings are arguments.
\<close>

section \<open>State\<close>

record optimizer_state =
  last_run_at :: rat
  last_prune_attempt_at :: rat
  last_prune_at :: rat
  dirty :: bool
  optimize_failures :: nat
  failures_since_fallback :: nat
  rebuild_retry_at :: rat
  rebuild_attempt :: nat
  task_running :: bool

definition fresh_optimizer :: optimizer_state where
  "fresh_optimizer = \<lparr>last_run_at = 0, last_prune_attempt_at = 0, last_prune_at = 0,
     dirty = False, optimize_failures = 0, failures_since_fallback = 0,
     rebuild_retry_at = 0, rebuild_attempt = 0, task_running = False\<rparr>"

definition OPTIMIZE_FAILURE_ALERT_THRESHOLD :: nat where "OPTIMIZE_FAILURE_ALERT_THRESHOLD = 5"
definition DRAIN_FAILURE_ALERT_THRESHOLD :: nat where "DRAIN_FAILURE_ALERT_THRESHOLD = 3"
definition PRUNE_STALE_SECONDS_ALERT :: rat where "PRUNE_STALE_SECONDS_ALERT = 3 * 300"
definition REBUILD_CONFLICT_BACKOFFS_SECONDS :: "rat list" where
  "REBUILD_CONFLICT_BACKOFFS_SECONDS = [600, 1800, 10800]"
definition LOOP_RESTART_BACKOFF_SECONDS :: "rat list" where
  "LOOP_RESTART_BACKOFF_SECONDS = [5, 15, 45]"
definition LOOP_STABLE_RUN_SECONDS :: rat where "LOOP_STABLE_RUN_SECONDS = 60"

datatype call_result = Call_ok | Call_raised string

definition is_benign_commit_conflict :: "string \<Rightarrow> bool" where
  "is_benign_commit_conflict msg = contains ''commit conflict'' (map lower_char msg)"

section \<open>Scheduling and running the beats\<close>

text \<open>A write marks the kind dirty; a runner is started, after a delay, unless one is running.\<close>

definition schedule_optimize ::
  "bool \<Rightarrow> rat \<Rightarrow> rat \<Rightarrow> optimizer_state option \<Rightarrow> rat option \<times> optimizer_state option" where
  "schedule_optimize has_repo min_interval now st =
     (if \<not> has_repo then (None, st)
      else let s = (case st of None \<Rightarrow> fresh_optimizer | Some s \<Rightarrow> s)\<lparr>dirty := True\<rparr>
           in if task_running s then (None, Some s)
              else (Some (max 0 (min_interval - (now - last_run_at s))), Some (s\<lparr>task_running := True\<rparr>)))"

datatype wait_result = No_wait | Wait_ended | Wait_timeout

definition run_rebuild_once ::
  "bool \<Rightarrow> wait_result \<Rightarrow> call_result \<Rightarrow> rat \<Rightarrow> optimizer_state \<Rightarrow> optimizer_state" where
  "run_rebuild_once has_repo wait result now s =
     (if \<not> has_repo then s
      else if wait = Wait_timeout then s
      else case result of
             Call_ok \<Rightarrow> s\<lparr>rebuild_attempt := 0, rebuild_retry_at := 0\<rparr>
           | Call_raised msg \<Rightarrow>
               if is_benign_commit_conflict msg
                  \<and> rebuild_attempt s < length REBUILD_CONFLICT_BACKOFFS_SECONDS
               then s\<lparr>rebuild_retry_at := now + REBUILD_CONFLICT_BACKOFFS_SECONDS ! rebuild_attempt s,
                      rebuild_attempt := rebuild_attempt s + 1\<rparr>
               else s\<lparr>rebuild_attempt := 0, rebuild_retry_at := 0\<rparr>)"

datatype beat = Prune_beat | Compact_beat

definition should_prune :: "rat \<Rightarrow> rat \<Rightarrow> optimizer_state \<Rightarrow> bool" where
  "should_prune prune_interval now s \<longleftrightarrow>
     last_prune_attempt_at s = 0 \<or> prune_interval \<le> now - last_prune_attempt_at s"

text \<open>
  The result is the beat that ran, if any, and whether the fallback rebuild ran;
  \<open>rebuild\<close> is the outcome of that rebuild and \<open>now'\<close> the clock then (the runner itself
  is the current task, so the rebuild does not wait for it).
\<close>

definition run_optimize_once ::
  "bool \<Rightarrow> rat \<Rightarrow> rat \<Rightarrow> call_result \<Rightarrow> call_result \<Rightarrow> rat \<Rightarrow> optimizer_state \<Rightarrow>
   (beat option \<times> bool) \<times> optimizer_state" where
  "run_optimize_once has_repo prune_interval now result rebuild now' s =
     (if \<not> has_repo then ((None, False), s)
      else
        let prune = should_prune prune_interval now s;
            b = (if prune then Prune_beat else Compact_beat);
            s1 = (if prune then s\<lparr>last_prune_attempt_at := now\<rparr> else s)
        in case result of
             Call_ok \<Rightarrow>
               let s2 = (if prune then s1\<lparr>last_prune_at := now\<rparr> else s1)
               in ((Some b, False), s2\<lparr>optimize_failures := 0, failures_since_fallback := 0\<rparr>)
           | Call_raised msg \<Rightarrow>
               if is_benign_commit_conflict msg then ((Some b, False), s1)
               else
                 let s2 = s1\<lparr>optimize_failures := optimize_failures s1 + 1,
                             failures_since_fallback := failures_since_fallback s1 + 1\<rparr>
                 in if OPTIMIZE_FAILURE_ALERT_THRESHOLD \<le> failures_since_fallback s2
                    then ((Some b, True),
                          (run_rebuild_once has_repo No_wait rebuild now' s2)\<lparr>failures_since_fallback := 0\<rparr>)
                    else ((Some b, False), s2))"

text \<open>One pass of the rebuild loop over a kind between two sweeps.\<close>

definition serve_due_rebuild ::
  "bool \<Rightarrow> wait_result \<Rightarrow> call_result \<Rightarrow> rat \<Rightarrow> rat \<Rightarrow> optimizer_state \<Rightarrow> optimizer_state" where
  "serve_due_rebuild has_repo wait result now now' s =
     (if rebuild_retry_at s = 0 then s
      else if now < rebuild_retry_at s then s
      else run_rebuild_once has_repo wait result now' (s\<lparr>rebuild_retry_at := 0\<rparr>))"

section \<open>Supervision of the background loops\<close>

datatype body_end = Body_returned | Body_cancelled | Body_raised rat
datatype supervision = Supervised_stop | Supervised_cancel | Exit_requested | Still_running

text \<open>
  Each element is one round: whether a stop arrives during the backoff wait, whether the
  stop flag is set before the body starts, and how the body ends (with its run time if it
  raised). The second component of the result lists the backoffs waited.
\<close>

fun supervise :: "nat \<Rightarrow> (bool \<times> bool \<times> body_end) list \<Rightarrow> supervision \<times> rat list" where
  "supervise strikes [] = (Still_running, [])"
| "supervise strikes ((stop_in_wait, stop_set, ending) # rounds) =
     (let waits = (if strikes \<noteq> 0 then [LOOP_RESTART_BACKOFF_SECONDS ! (strikes - 1)] else [])
      in if strikes \<noteq> 0 \<and> stop_in_wait then (Supervised_stop, waits)
         else if stop_set then (Supervised_stop, waits)
         else case ending of
                Body_returned \<Rightarrow> (Supervised_stop, waits)
              | Body_cancelled \<Rightarrow> (Supervised_cancel, waits)
              | Body_raised dur \<Rightarrow>
                  let strikes' = (if LOOP_STABLE_RUN_SECONDS \<le> dur then 0 else strikes) + 1
                  in if length LOOP_RESTART_BACKOFF_SECONDS < strikes' then (Exit_requested, waits)
                     else (case supervise strikes' rounds of (r, ws) \<Rightarrow> (r, waits @ ws)))"

section \<open>Health\<close>

record worker_health =
  drain_consecutive_failures :: nat
  unrecoverable_total :: nat
  optimize_failure_streak :: nat
  prune_stale_seconds :: rat
  prune_stale_kind :: "string option"

text \<open>One constructor per message; the numbers are the ones the message prints.\<close>

datatype reason =
    Drain_failing nat
  | Optimize_stuck nat
  | Cleanup_stalled string int

definition health_reasons :: "worker_health \<Rightarrow> reason list" where
  "health_reasons h =
     (if DRAIN_FAILURE_ALERT_THRESHOLD \<le> drain_consecutive_failures h
      then [Drain_failing (drain_consecutive_failures h)] else []) @
     (if OPTIMIZE_FAILURE_ALERT_THRESHOLD \<le> optimize_failure_streak h
      then [Optimize_stuck (optimize_failure_streak h)] else []) @
     (if PRUNE_STALE_SECONDS_ALERT \<le> prune_stale_seconds h
      then [Cleanup_stalled (case prune_stale_kind h of Some (c # k) \<Rightarrow> c # k | _ \<Rightarrow> ''unknown'')
              \<lfloor>prune_stale_seconds h\<rfloor>] else [])"

fun worst_staleness ::
  "rat \<Rightarrow> rat \<Rightarrow> (string \<times> optimizer_state) list \<Rightarrow> rat \<times> string option \<Rightarrow> rat \<times> string option" where
  "worst_staleness started_at now [] worst = worst"
| "worst_staleness started_at now ((k, s) # states) worst =
     (let stale = max 0 (now - max (last_prune_at s) started_at)
      in worst_staleness started_at now states (if fst worst < stale then (stale, Some k) else worst))"

definition prune_staleness :: "rat \<Rightarrow> rat \<Rightarrow> (string \<times> optimizer_state) list \<Rightarrow> rat \<times> string option" where
  "prune_staleness started_at now states =
     (if states = [] \<or> started_at = 0 then (0, None)
      else case worst_staleness started_at now states (-1, None) of (w, k) \<Rightarrow> (max 0 w, k))"

definition worker_health_of ::
  "rat \<Rightarrow> rat \<Rightarrow> nat \<Rightarrow> nat \<Rightarrow> (string \<times> optimizer_state) list \<Rightarrow> worker_health" where
  "worker_health_of started_at now drain_failures unrecoverable states =
     (case prune_staleness started_at now states of
        (w, k) \<Rightarrow> \<lparr>drain_consecutive_failures = drain_failures, unrecoverable_total = unrecoverable,
                   optimize_failure_streak = fold max (map (\<lambda>(_, s). optimize_failures s) states) 0,
                   prune_stale_seconds = w, prune_stale_kind = k\<rparr>)"

text \<open>The drain loop's failure counter after one iteration.\<close>

definition drain_tick :: "bool \<Rightarrow> nat \<Rightarrow> nat" where
  "drain_tick raised failures = (if raised then failures + 1 else 0)"

section \<open>Failure streaks and the fallback rebuild\<close>

type_synonym beat_input = "rat \<times> call_result \<times> call_result \<times> rat"

definition run_beats :: "rat \<Rightarrow> beat_input list \<Rightarrow> optimizer_state \<Rightarrow> bool list \<times> optimizer_state" where
  "run_beats prune_interval inputs s =
     foldl (\<lambda>(bs, s) (now, res, reb, now').
        case run_optimize_once True prune_interval now res reb now' s of ((_, b), s') \<Rightarrow> (bs @ [b], s'))
       ([], s) inputs"

definition hard_failure :: "call_result \<Rightarrow> bool" where
  "hard_failure r = (case r of Call_ok \<Rightarrow> False | Call_raised m \<Rightarrow> \<not> is_benign_commit_conflict m)"

lemma hard_failure_ok [simp]: "\<not> hard_failure Call_ok"
  by (simp add: hard_failure_def)

text \<open>Hard failures since the last success; a lost commit race neither counts nor resets.\<close>

definition streak :: "call_result list \<Rightarrow> nat" where
  "streak rs = count_where hard_failure (takeWhile (\<lambda>r. r \<noteq> Call_ok) (rev rs))"

lemma streak_snoc:
  "streak [] = 0"
  "streak (rs @ [r]) = (if r = Call_ok then 0 else if hard_failure r then Suc (streak rs) else streak rs)"
  by (simp_all add: streak_def hard_failure_def)

lemma run_optimize_once_counts:
  assumes "run_optimize_once True prune_interval now res reb now' s = ((b, rebuilt), s')"
    and "failures_since_fallback s < 5"
  shows "optimize_failures s' = (if res = Call_ok then 0 else if hard_failure res
            then Suc (optimize_failures s) else optimize_failures s) \<and>
         failures_since_fallback s' = (if res = Call_ok then 0 else if hard_failure res
            then Suc (failures_since_fallback s) mod 5 else failures_since_fallback s) \<and>
         rebuilt = (hard_failure res \<and> Suc (failures_since_fallback s) = 5)"
  using assms
  by (auto simp: run_optimize_once_def Let_def hard_failure_def OPTIMIZE_FAILURE_ALERT_THRESHOLD_def
      run_rebuild_once_def mod_Suc split: call_result.splits if_splits)

text \<open>
  Over any sequence of beats the alert counter of a kind is the number of hard failures
  since its last success, lost commit races neither counting nor resetting it, and the
  fallback rebuild runs exactly on every fifth failure of such a streak, without hiding the
  streak from the alert.
\<close>

lemma fallback_every_fifth_failure:
  "let rs = map (fst \<circ> snd) inputs; (rebuilt, s) = run_beats prune_interval inputs fresh_optimizer
   in optimize_failures s = streak rs \<and> failures_since_fallback s = streak rs mod 5 \<and>
      rebuilt = map (\<lambda>i. hard_failure (rs ! i) \<and> streak (take (Suc i) rs) mod 5 = 0) [0..<length rs]"
proof (induction inputs rule: rev_induct)
  case Nil
  show ?case by (simp add: run_beats_def fresh_optimizer_def streak_snoc)
next
  case (snoc x inputs)
  obtain now res reb now' where x: "x = (now, res, reb, now')" by (cases x) auto
  let ?rs = "map (fst \<circ> snd) inputs"
  obtain bs s where run: "run_beats prune_interval inputs fresh_optimizer = (bs, s)" by fastforce
  obtain b rebuilt s' where one: "run_optimize_once True prune_interval now res reb now' s = ((b, rebuilt), s')"
    by (metis surj_pair)
  have run': "run_beats prune_interval (inputs @ [x]) fresh_optimizer = (bs @ [rebuilt], s')"
    using run by (simp add: run_beats_def x one)
  have IH: "optimize_failures s = streak ?rs" "failures_since_fallback s = streak ?rs mod 5"
    "bs = map (\<lambda>i. hard_failure (?rs ! i) \<and> streak (take (Suc i) ?rs) mod 5 = 0) [0..<length ?rs]"
    using snoc run by (simp_all add: Let_def o_def)
  have "failures_since_fallback s < 5" by (simp add: IH(2))
  note cnt = run_optimize_once_counts [OF one this, unfolded IH(1,2)]
  have five: "Suc (streak ?rs mod 5) = 5 \<longleftrightarrow> Suc (streak ?rs) mod 5 = 0"
    by (simp add: mod_Suc)
  have pre: "map (\<lambda>i. hard_failure ((?rs @ [res]) ! i) \<and> streak (take (Suc i) (?rs @ [res])) mod 5 = 0)
      [0..<length ?rs] = bs"
    unfolding IH(3) by (rule map_cong) (auto simp: nth_append)
  have fail: "optimize_failures s' = streak (?rs @ [res])"
    and since: "failures_since_fallback s' = streak (?rs @ [res]) mod 5"
    using cnt by (simp_all add: streak_snoc mod_Suc_eq)
  have "rebuilt = (hard_failure res \<and> streak (?rs @ [res]) mod 5 = 0)"
    using cnt five by (auto simp: streak_snoc)
  then have "bs @ [rebuilt] = map (\<lambda>i. hard_failure ((?rs @ [res]) ! i) \<and>
      streak (take (Suc i) (?rs @ [res])) mod 5 = 0) [0..<length (?rs @ [res])]"
    using pre by (simp add: nth_append)
  moreover have "map (fst \<circ> snd) (inputs @ [x]) = ?rs @ [res]" by (simp add: x)
  ultimately show ?case
    using fail since unfolding Let_def run' prod.case by (simp only: conj_assoc simp_thms)
qed

section \<open>The rebuild backoff ladder\<close>

definition conflicts_at :: "string \<Rightarrow> rat list \<Rightarrow> optimizer_state \<Rightarrow> optimizer_state" where
  "conflicts_at msg ts s = foldl (\<lambda>s now. run_rebuild_once True No_wait (Call_raised msg) now s) s ts"

text \<open>
  Consecutive rebuilds that lose the commit race are retried after 600, 1800 and 10800
  seconds; the fourth loss gives up until the next sweep and starts the ladder over, so the
  schedule is never indexed out of range.
\<close>

lemma rebuild_ladder:
  assumes "is_benign_commit_conflict msg"
  shows "rebuild_attempt (conflicts_at msg ts fresh_optimizer) = length ts mod 4 \<and>
         rebuild_retry_at (conflicts_at msg ts fresh_optimizer) =
           (if length ts mod 4 = 0 then 0
            else last ts + [600, 1800, 10800] ! (length ts mod 4 - 1))"
proof (induction ts rule: rev_induct)
  case Nil
  show ?case by (simp add: conflicts_at_def fresh_optimizer_def)
next
  case (snoc t ts)
  let ?s = "conflicts_at msg ts fresh_optimizer"
  have "conflicts_at msg (ts @ [t]) fresh_optimizer = run_rebuild_once True No_wait (Call_raised msg) t ?s"
    by (simp add: conflicts_at_def)
  moreover have "rebuild_attempt ?s = length ts mod 4" using snoc by simp
  moreover have "length ts mod 4 \<in> {0, 1, 2, 3}" by auto
  ultimately show ?case
    using assms by (auto simp: run_rebuild_once_def REBUILD_CONFLICT_BACKOFFS_SECONDS_def mod_Suc)
qed

lemma rebuild_ladder_witness:
  "rebuild_retry_at (conflicts_at ''Retryable Commit conflict'' [10, 700] fresh_optimizer) = 2500"
proof -
  have "is_benign_commit_conflict ''Retryable Commit conflict''" by code_simp
  from rebuild_ladder [OF this, of "[10, 700]"] show ?thesis by simp
qed

section \<open>When supervision gives up\<close>

fun crash_window :: "rat list \<Rightarrow> bool" where
  "crash_window [] = False"
| "crash_window (r # rs) = (3 \<le> length rs \<and> list_all (\<lambda>x. x < 60) (take 3 rs) \<or> crash_window rs)"

definition crashes :: "rat list \<Rightarrow> (bool \<times> bool \<times> body_end) list" where
  "crashes rs = map (\<lambda>r. (False, False, Body_raised r)) rs"

definition quick :: "nat \<Rightarrow> rat list \<Rightarrow> bool" where
  "quick k rs \<longleftrightarrow> k \<le> length rs \<and> list_all (\<lambda>x. x < 60) (take k rs)"

lemma quick_simps [simp]:
  "quick 0 rs" "\<not> quick (Suc k) []" "quick (Suc k) (r # rs) = (r < 60 \<and> quick k rs)"
  by (auto simp: quick_def)

lemma quick_mono: "quick k rs \<Longrightarrow> j \<le> k \<Longrightarrow> quick j rs"
  unfolding quick_def list_all_iff using set_take_subset_set_take by fastforce

lemma crash_window_Cons: "crash_window (r # rs) = (quick 3 rs \<or> crash_window rs)"
  by (simp add: quick_def)

lemma supervise_crashes:
  "s \<le> 3 \<Longrightarrow> fst (supervise s (crashes rs)) = Exit_requested \<longleftrightarrow>
     (1 \<le> s \<and> quick (4 - s) rs) \<or> crash_window rs"
proof (induction rs arbitrary: s)
  case Nil
  then have "\<not> quick (4 - s) []" by (cases "4 - s") auto
  then show ?case by (simp add: crashes_def)
next
  case (Cons r rs)
  let ?s' = "(if 60 \<le> r then 0 else s) + 1"
  have split: "quick (4 - s) (r # rs) = (r < 60 \<and> quick (3 - s) rs)"
  proof -
    have "4 - s = Suc (3 - s)" using Cons.prems by simp
    then show ?thesis by simp
  qed
  have run: "fst (supervise s (crashes (r # rs))) =
      (if 3 < ?s' then Exit_requested else fst (supervise ?s' (crashes rs)))"
    by (simp add: crashes_def Let_def LOOP_STABLE_RUN_SECONDS_def LOOP_RESTART_BACKOFF_SECONDS_def
        split: prod.splits)
  show ?case
  proof (cases "3 < ?s'")
    case True
    then have "s = 3" "r < 60" using Cons.prems by (auto split: if_splits)
    then show ?thesis using run split by simp
  next
    case False
    with Cons.IH [of ?s'] run have "fst (supervise s (crashes (r # rs))) = Exit_requested \<longleftrightarrow>
        quick (4 - ?s') rs \<or> crash_window rs" by simp
    then show ?thesis
      using split quick_mono [of 3 rs "3 - s"] crash_window_Cons [of r rs]
      by (cases "s = 0") (auto simp del: crash_window.simps)
  qed
qed

text \<open>
  A supervised loop that keeps crashing asks the process to exit exactly when four
  crashes come in a row of which the last three each ran less than 60 seconds; crashes
  spaced by a stable run never add up, however many there are.
\<close>

lemma supervise_exits_on_crash_window:
  "fst (supervise 0 (map (\<lambda>r. (False, False, Body_raised r)) rs)) = Exit_requested \<longleftrightarrow> crash_window rs"
  using supervise_crashes [of 0 rs] by (simp add: crashes_def)

section \<open>The health verdict\<close>

lemma worst_staleness_max:
  "fst (worst_staleness st now states w) =
     fold max (map (\<lambda>(_, s). max 0 (now - max (last_prune_at s) st)) states) (fst w)"
proof (induction states arbitrary: w)
  case (Cons ks states)
  obtain k s where "ks = (k, s)" by fastforce
  with Cons show ?case by (simp add: Let_def max_def)
qed simp

lemma fold_max_less: "fold max xs (y::'a::linorder) < b \<longleftrightarrow> y < b \<and> list_all (\<lambda>x. x < b) xs"
  by (induction xs arbitrary: y) auto

text \<open>
  The worker reports no reason to be degraded exactly when the drain loop failed fewer
  than three times in a row, no kind has five or more failed optimisations in a row, and
  every registered kind pruned (or the worker started) less than 900 seconds ago; one kind
  whose cleanup died cannot hide behind the others.
\<close>

lemma healthy_iff:
  "health_reasons (worker_health_of started_at now drain_failures unrecoverable states) = [] \<longleftrightarrow>
     drain_failures < 3 \<and>
     list_all (\<lambda>(_, s). optimize_failures s < 5) states \<and>
     (started_at = 0 \<or> list_all (\<lambda>(_, s). now - max (last_prune_at s) started_at < 900) states)"
proof -
  have stale: "fst (prune_staleness started_at now states) < 900 \<longleftrightarrow>
      started_at = 0 \<or> list_all (\<lambda>(_, s). now - max (last_prune_at s) started_at < 900) states"
    using worst_staleness_max [of started_at now states "(-1, None)"]
    by (auto simp: prune_staleness_def fold_max_less list_all_iff split: prod.splits)
  have streak: "fold max (map (\<lambda>(_, s). optimize_failures s) states) 0 < 5 \<longleftrightarrow>
      list_all (\<lambda>(_, s). optimize_failures s < 5) states"
    by (auto simp: fold_max_less list_all_iff)
  show ?thesis
    using stale streak
    by (auto simp: health_reasons_def worker_health_of_def DRAIN_FAILURE_ALERT_THRESHOLD_def
        OPTIMIZE_FAILURE_ALERT_THRESHOLD_def PRUNE_STALE_SECONDS_ALERT_def not_le split: prod.splits)
qed

end
