(* ===== verification/Markdown_Entries.thy ===== *)
theory Markdown_Entries
  imports Prelude
begin

text \<open>
  Marker-delimited entries of a memory file (\<open>core/persistence/markdown/entries.py\<close>) and the
  writer step that appends them (\<open>_append_entries_unlocked\<close> in
  \<open>core/persistence/markdown/writer.py\<close>). A text is a list of characters. The two marker
  regexes are translated by hand: an id is a maximal run of \<open>[A-Za-z0-9_-]\<close>, which a marker's
  following blank ends, so the greedy match is the only one.
\<close>

section \<open>Entry ids\<close>

text \<open>The date is the text \<open>strftime\<close> gives for \<open>%Y%m%d\<close>.\<close>

record entry_id =
  ei_prefix :: string
  ei_date :: string
  ei_seq :: nat

definition SEQ_DIGITS :: nat where "SEQ_DIGITS = 8"

definition entry_id_format :: "entry_id \<Rightarrow> string" where
  "entry_id_format e =
     ei_prefix e @ ''_'' @ ei_date e @ ''_'' @ zero_pad SEQ_DIGITS (dec (ei_seq e))"

text \<open>\<open>EntryId.next_for\<close>; a negative count raises, which a count of type \<open>nat\<close> rules out.\<close>

definition next_for :: "string \<Rightarrow> string \<Rightarrow> nat \<Rightarrow> entry_id" where
  "next_for prefix date current_count =
     \<lparr>ei_prefix = prefix, ei_date = date, ei_seq = current_count + 1\<rparr>"

section \<open>Finding markers\<close>

record entry =
  e_id :: string
  e_body :: string
  e_start :: nat
  e_end :: nat

definition id_char :: "char \<Rightarrow> bool" where
  "id_char c \<longleftrightarrow>
     (let n = (of_char c :: nat)
      in (65 \<le> n \<and> n \<le> 90) \<or> (97 \<le> n \<and> n \<le> 122) \<or> (48 \<le> n \<and> n \<le> 57) \<or> n = 95 \<or> n = 45)"

definition open_head :: string where "open_head = ''<!-- entry:''"
definition marker_tail :: string where "marker_tail = '' -->''"

definition open_marker :: "string \<Rightarrow> string" where
  "open_marker i = open_head @ i @ marker_tail"

definition close_marker :: "string \<Rightarrow> string" where
  "close_marker i = ''<!-- /entry:'' @ i @ marker_tail"

definition starts_with :: "string \<Rightarrow> string \<Rightarrow> bool" where
  "starts_with p s \<longleftrightarrow> take (length p) s = p"

text \<open>The id of an open marker at the start of a text.\<close>

definition open_at :: "string \<Rightarrow> string option" where
  "open_at s =
     (if starts_with open_head s
      then let r = drop (length open_head) s; i = takeWhile id_char r
           in if i \<noteq> [] \<and> starts_with marker_tail (dropWhile id_char r) then Some i else None
      else None)"

text \<open>First open marker, with its offset; first occurrence of a fixed text.\<close>

fun search_open :: "string \<Rightarrow> (nat \<times> string) option" where
  "search_open [] = None"
| "search_open (c # s) =
     (case open_at (c # s) of
        Some i \<Rightarrow> Some (0, i)
      | None \<Rightarrow> map_option (\<lambda>(n, i). (Suc n, i)) (search_open s))"

fun search_text :: "string \<Rightarrow> string \<Rightarrow> nat option" where
  "search_text p [] = (if p = [] then Some 0 else None)"
| "search_text p (c # s) =
     (if starts_with p (c # s) then Some 0 else map_option Suc (search_text p s))"

definition strip_one_newline :: "string \<Rightarrow> string" where
  "strip_one_newline text =
     (let nl = [CHR 0x0A]; crnl = [CHR 0x0D, CHR 0x0A];
          t = (if starts_with crnl text then drop 2 text
               else if starts_with nl text then drop 1 text else text)
      in if starts_with (rev crnl) (rev t) then take (length t - 2) t
         else if starts_with nl (rev t) then take (length t - 1) t else t)"

section \<open>Splitting and finding\<close>

text \<open>
  One iteration of the scan loop from offset \<open>pos\<close> of the text \<open>s\<close> that is left: the next
  entry with the offset after it, or the end of the scan.
\<close>

definition next_entry :: "nat \<Rightarrow> string \<Rightarrow> (entry \<times> nat) option" where
  "next_entry pos s =
     (case search_open s of
        None \<Rightarrow> None
      | Some (n, i) \<Rightarrow>
          let after = n + length (open_marker i)
          in case search_text (close_marker i) (drop after s) of
               None \<Rightarrow> None
             | Some k \<Rightarrow>
                 let stop = after + k + length (close_marker i)
                 in Some (\<lparr>e_id = i, e_body = strip_one_newline (take k (drop after s)),
                           e_start = pos + n, e_end = pos + stop\<rparr>, stop))"

lemma next_entry_progress: "next_entry pos s = Some (e, stop) \<Longrightarrow> 0 < stop \<and> s \<noteq> []"
  by (cases s) (auto simp: next_entry_def Let_def close_marker_def split: option.splits)

function split_from :: "nat \<Rightarrow> string \<Rightarrow> entry list" where
  "split_from pos s =
     (case next_entry pos s of
        None \<Rightarrow> []
      | Some (e, stop) \<Rightarrow> e # split_from (pos + stop) (drop stop s))"
  by pat_completeness auto
termination
  by (relation "measure (length \<circ> snd)") (auto dest: next_entry_progress)

declare split_from.simps [simp del]

definition split_entries :: "string \<Rightarrow> entry list" where
  "split_entries body = split_from 0 body"

definition find_entry :: "string \<Rightarrow> string \<Rightarrow> entry option" where
  "find_entry body i =
     (case search_text (open_marker i) body of
        None \<Rightarrow> None
      | Some n \<Rightarrow>
          let after = n + length (open_marker i)
          in map_option (\<lambda>k. \<lparr>e_id = i, e_body = strip_one_newline (take k (drop after body)),
                              e_start = n, e_end = after + k + length (close_marker i)\<rparr>)
               (search_text (close_marker i) (drop after body)))"

section \<open>Appending\<close>

definition entry_block :: "string \<times> string \<Rightarrow> string" where
  "entry_block eb =
     (case eb of (b, i) \<Rightarrow>
        open_marker i @ [CHR 0x0A] @ b @ [CHR 0x0A] @ close_marker i @ [CHR 0x0A])"

text \<open>The body part of \<open>_append_entries_unlocked\<close>: the new body of the file.\<close>

definition append_blocks :: "string \<Rightarrow> (string \<times> string) list \<Rightarrow> string" where
  "append_blocks body entries =
     (if entries = [] then body
      else (if body \<noteq> [] \<and> last body \<noteq> CHR 0x0A then body @ [CHR 0x0A] else body)
           @ concat (map entry_block entries))"

section \<open>Markers and line ends\<close>

text \<open>
  No marker contains a line end, so none can straddle the end of a text that is empty or
  ends with one; searching such a text followed by another is searching them in turn.
\<close>

abbreviation newline :: char where "newline \<equiv> CHR 0x0A"

definition line_closed :: "string \<Rightarrow> bool" where
  "line_closed s \<longleftrightarrow> s = [] \<or> last s = newline"

lemma line_closed_drop: "line_closed s \<Longrightarrow> line_closed (drop n s)"
  by (cases "n < length s") (auto simp: line_closed_def last_drop)

lemma line_closed_Cons: "line_closed (c # s) \<Longrightarrow> line_closed s"
  by (auto simp: line_closed_def split: if_splits)

definition valid_id :: "string \<Rightarrow> bool" where
  "valid_id i \<longleftrightarrow> i \<noteq> [] \<and> list_all id_char i"

lemma starts_with_iff: "starts_with p s \<longleftrightarrow> (\<exists>r. s = p @ r)"
  by (auto simp: starts_with_def) (metis append_take_drop_id)

lemma takeWhile_id_tail:
  "list_all id_char i \<Longrightarrow> takeWhile id_char (i @ marker_tail @ r) = i
     \<and> dropWhile id_char (i @ marker_tail @ r) = marker_tail @ r"
  by (induction i) (auto simp: marker_tail_def id_char_def)

lemma open_at_Some_iff:
  "open_at s = Some i \<longleftrightarrow> valid_id i \<and> starts_with (open_marker i) s"
proof
  assume "open_at s = Some i"
  then obtain r where s: "s = open_head @ r" and i: "i = takeWhile id_char r" "i \<noteq> []"
    and tl: "starts_with marker_tail (dropWhile id_char r)"
    by (auto simp: open_at_def Let_def starts_with_iff split: if_splits)
  have "r = i @ dropWhile id_char r" by (simp add: i)
  moreover have "list_all id_char i" unfolding i list_all_iff by (auto dest: set_takeWhileD)
  ultimately show "valid_id i \<and> starts_with (open_marker i) s"
    using s i tl by (metis append.assoc open_marker_def starts_with_iff valid_id_def)
next
  assume *: "valid_id i \<and> starts_with (open_marker i) s"
  then obtain r where s: "s = open_head @ i @ marker_tail @ r"
    by (auto simp: starts_with_iff open_marker_def)
  have "takeWhile id_char (i @ marker_tail @ r) = i" "dropWhile id_char (i @ marker_tail @ r) = marker_tail @ r"
    using takeWhile_id_tail [of i r] * by (simp_all add: valid_id_def)
  then show "open_at s = Some i"
    using * by (auto simp: s open_at_def Let_def starts_with_iff valid_id_def)
qed

lemma newline_not_id: "list_all id_char i \<Longrightarrow> newline \<notin> set i"
  by (auto simp: list_all_iff id_char_def)

lemma newline_not_open: "valid_id i \<Longrightarrow> newline \<notin> set (open_marker i)"
  using newline_not_id [of i] by (auto simp: valid_id_def open_marker_def open_head_def marker_tail_def)

lemma newline_not_close: "valid_id i \<Longrightarrow> newline \<notin> set (close_marker i)"
  using newline_not_id [of i] by (auto simp: valid_id_def close_marker_def marker_tail_def)

lemma starts_with_append:
  assumes "line_closed s" and "s \<noteq> []" and "newline \<notin> set p"
  shows "starts_with p (s @ u) = starts_with p s"
proof
  assume "starts_with p (s @ u)"
  then obtain r where "s @ u = p @ r" by (auto simp: starts_with_iff)
  then obtain x where "s = p @ x \<or> p = s @ x" by (auto simp: append_eq_append_conv2)
  moreover have "newline \<in> set s" using assms by (metis last_in_set line_closed_def)
  ultimately show "starts_with p s" using assms(3) by (auto simp: starts_with_iff)
qed (auto simp: starts_with_iff)

lemma open_at_append:
  assumes "line_closed s" and "s \<noteq> []"
  shows "open_at (s @ u) = open_at s"
proof -
  have "open_at (s @ u) = Some i \<longleftrightarrow> open_at s = Some i" for i
    using starts_with_append [OF assms newline_not_open] by (auto simp: open_at_Some_iff)
  then show ?thesis by (metis option.exhaust)
qed

lemma search_open_append:
  "line_closed s \<Longrightarrow> search_open (s @ u) =
     (case search_open s of Some r \<Rightarrow> Some r
      | None \<Rightarrow> map_option (\<lambda>(n, i). (n + length s, i)) (search_open u))"
proof (induction s)
  case Nil
  then show ?case by (simp add: option.map_ident case_prod_unfold)
next
  case (Cons c s)
  have "open_at (c # s @ u) = open_at (c # s)"
    using open_at_append [OF Cons.prems, of u] by simp
  moreover from Cons.prems have "line_closed s" by (rule line_closed_Cons)
  ultimately show ?case
    using Cons.IH by (auto simp: option.map_comp o_def case_prod_unfold split: option.splits)
qed

lemma search_text_append:
  assumes "newline \<notin> set p" and "p \<noteq> []"
  shows "line_closed s \<Longrightarrow> search_text p (s @ u) =
     (case search_text p s of Some n \<Rightarrow> Some n | None \<Rightarrow> map_option (\<lambda>n. n + length s) (search_text p u))"
proof (induction s)
  case Nil
  then show ?case using assms by (simp add: option.map_ident)
next
  case (Cons c s)
  have "starts_with p (c # s @ u) = starts_with p (c # s)"
    using starts_with_append [OF Cons.prems _ assms(1), of u] by simp
  moreover from Cons.prems have "line_closed s" by (rule line_closed_Cons)
  ultimately show ?case
    using Cons.IH by (auto simp: option.map_comp o_def split: option.splits)
qed

lemma search_open_valid: "search_open s = Some (n, i) \<Longrightarrow> valid_id i"
  by (induction s arbitrary: n) (auto simp: open_at_Some_iff split: option.splits)

section \<open>Scanning a text in two parts\<close>

lemma search_open_bound: "search_open s = Some (n, i) \<Longrightarrow> starts_with (open_marker i) (drop n s)"
  by (induction s arbitrary: n) (auto simp: open_at_Some_iff split: option.splits)

lemma starts_with_length: "starts_with p s \<Longrightarrow> length p \<le> length s"
  by (auto simp: starts_with_iff)

lemma search_text_bound: "search_text p s = Some n \<Longrightarrow> starts_with p (drop n s)"
  by (induction s arbitrary: n) (auto simp: starts_with_def split: if_splits)

lemma next_entry_append:
  assumes "line_closed s" and "next_entry pos s = Some (e, stop)"
  shows "next_entry pos (s @ u) = Some (e, stop) \<and> stop \<le> length s"
proof -
  obtain n i where o: "search_open s = Some (n, i)"
    using assms(2) by (auto simp: next_entry_def split: option.splits)
  let ?after = "n + length (open_marker i)"
  obtain k where k: "search_text (close_marker i) (drop ?after s) = Some k"
    and e: "stop = ?after + k + length (close_marker i)"
    using assms(2) o by (auto simp: next_entry_def Let_def split: option.splits)
  have v: "valid_id i" by (rule search_open_valid [OF o])
  have "length (open_marker i) \<le> length (drop n s)"
    using search_open_bound [OF o] by (rule starts_with_length)
  then have after: "?after \<le> length s" by (simp add: open_marker_def open_head_def)
  have "length (close_marker i) \<le> length (drop k (drop ?after s))"
    using search_text_bound [OF k] by (rule starts_with_length)
  then have stop: "stop \<le> length s" by (simp add: e close_marker_def)
  have "search_open (s @ u) = Some (n, i)"
    using search_open_append [OF assms(1), of u] o by simp
  moreover have "search_text (close_marker i) (drop ?after s @ u) = Some k"
    using search_text_append [OF newline_not_close [OF v] _ line_closed_drop [OF assms(1)], of ?after u] k
    by (simp add: close_marker_def)
  moreover have "k + ?after \<le> length s" using stop e by simp
  ultimately have "next_entry pos (s @ u) = next_entry pos s"
    using o k after by (simp add: next_entry_def Let_def)
  with assms(2) stop show ?thesis by simp
qed

lemma next_entry_shift:
  assumes "line_closed s" and "search_open s = None"
  shows "next_entry pos (s @ u) =
     map_option (\<lambda>(e, stop). (e, length s + stop)) (next_entry (pos + length s) u)"
proof (cases "search_open u")
  case None
  then show ?thesis using search_open_append [OF assms(1), of u] assms(2) by (simp add: next_entry_def)
next
  case (Some ni)
  then show ?thesis
    using search_open_append [OF assms(1), of u] assms(2)
    by (cases ni) (auto simp: next_entry_def Let_def add_ac split: option.splits)
qed

lemma split_from_shift:
  assumes "line_closed s" and "search_open s = None"
  shows "split_from pos (s @ u) = split_from (pos + length s) u"
  by (subst (1 2) split_from.simps)
    (simp add: next_entry_shift [OF assms] add_ac split: option.splits prod.splits)

text \<open>Every open marker of the text is closed: what is left after the scan has none.\<close>

function well_closed_from :: "nat \<Rightarrow> string \<Rightarrow> bool" where
  "well_closed_from pos s =
     (case next_entry pos s of
        None \<Rightarrow> search_open s = None
      | Some (e, stop) \<Rightarrow> well_closed_from (pos + stop) (drop stop s))"
  by pat_completeness auto
termination
  by (relation "measure (length \<circ> snd)") (auto dest: next_entry_progress)

declare well_closed_from.simps [simp del]

definition well_closed :: "string \<Rightarrow> bool" where
  "well_closed body \<longleftrightarrow> well_closed_from 0 body"

lemma scan_append:
  "line_closed s \<Longrightarrow> well_closed_from pos s \<Longrightarrow>
     split_from pos (s @ u) = split_from pos s @ split_from (pos + length s) u \<and>
     (well_closed_from (pos + length s) u \<longrightarrow> well_closed_from pos (s @ u))"
proof (induction pos s rule: well_closed_from.induct)
  case (1 pos s)
  show ?case
  proof (cases "next_entry pos s")
    case None
    with 1(3) have so: "search_open s = None" by (simp add: well_closed_from.simps [of pos s])
    have "well_closed_from pos (s @ u) = well_closed_from (pos + length s) u"
      by (subst (1 2) well_closed_from.simps)
        (use search_open_append [OF 1(2), of u] so in
          \<open>auto simp: next_entry_shift [OF 1(2) so] add_ac split: option.splits prod.splits\<close>)
    then show ?thesis
      using split_from_shift [OF 1(2) so] None by (simp add: split_from.simps [of pos s])
  next
    case (Some es)
    obtain e stop where es: "es = (e, stop)" by fastforce
    note n = next_entry_append [OF 1(2) Some [unfolded es]]
    have wc: "well_closed_from (pos + stop) (drop stop s)"
      using 1(3) Some es by (simp add: well_closed_from.simps [of pos s])
    have "pos + stop + length (drop stop s) = pos + length s" using n by simp
    with 1(1) [OF Some es [symmetric] line_closed_drop [OF 1(2)] wc] n Some es
    show ?thesis
      by (simp add: split_from.simps [of pos s] split_from.simps [of pos "s @ u"]
          well_closed_from.simps [of pos "s @ u"])
  qed
qed

text \<open>A line end added at the end of a text changes nothing.\<close>

lemma starts_with_snoc: "newline \<notin> set p \<Longrightarrow> starts_with p (s @ [newline]) = starts_with p s"
proof
  assume p: "newline \<notin> set p" and "starts_with p (s @ [newline])"
  then obtain r where r: "s @ [newline] = p @ r" by (auto simp: starts_with_iff)
  with p have "r \<noteq> []" by (metis append_Nil2 in_set_conv_decomp)
  then obtain r' c where "r = r' @ [c]" by (cases r rule: rev_cases) auto
  with r have "s = p @ r'" by simp
  then show "starts_with p s" by (auto simp: starts_with_iff)
qed (auto simp: starts_with_iff)

lemma search_text_snoc:
  "newline \<notin> set p \<Longrightarrow> p \<noteq> [] \<Longrightarrow> search_text p (s @ [newline]) = search_text p s"
proof (induction s)
  case Nil
  then show ?case using starts_with_snoc [of p "[]"] by (auto simp: starts_with_def)
next
  case (Cons c s)
  then show ?case using starts_with_snoc [of p "c # s"] by simp
qed

lemma open_at_snoc: "open_at (s @ [newline]) = open_at s"
proof -
  have "open_at (s @ [newline]) = Some i \<longleftrightarrow> open_at s = Some i" for i
    using starts_with_snoc [OF newline_not_open] by (auto simp: open_at_Some_iff)
  then show ?thesis by (metis option.exhaust)
qed

lemma search_open_snoc: "search_open (s @ [newline]) = search_open s"
proof (induction s)
  case Nil
  have "open_at [] = None" by (simp add: open_at_def starts_with_def open_head_def)
  then show ?case using open_at_snoc [of "[]"] by simp
next
  case (Cons c s)
  then show ?case using open_at_snoc [of "c # s"] by (simp split: option.split)
qed

lemma next_entry_bound: "next_entry pos s = Some (e, stop) \<Longrightarrow> stop \<le> length s"
proof -
  assume "next_entry pos s = Some (e, stop)"
  then obtain n i k where o: "search_open s = Some (n, i)"
    and k: "search_text (close_marker i) (drop (n + length (open_marker i)) s) = Some k"
    and e: "stop = n + length (open_marker i) + k + length (close_marker i)"
    by (auto simp: next_entry_def Let_def split: option.splits)
  have "length (close_marker i) \<le> length (drop k (drop (n + length (open_marker i)) s))"
    using search_text_bound [OF k] by (rule starts_with_length)
  then show ?thesis by (simp add: e close_marker_def)
qed

lemma next_entry_snoc: "next_entry pos (s @ [newline]) = next_entry pos s"
proof (cases "search_open s")
  case (Some ni)
  obtain n i where ni: "ni = (n, i)" by fastforce
  have v: "valid_id i" using Some ni by (auto intro: search_open_valid)
  let ?after = "n + length (open_marker i)"
  have "length (open_marker i) \<le> length (drop n s)"
    using search_open_bound Some ni starts_with_length by blast
  then have after: "?after \<le> length s" by (simp add: open_marker_def open_head_def)
  have srch: "search_text (close_marker i) (drop ?after s @ [newline]) = search_text (close_marker i) (drop ?after s)"
    by (rule search_text_snoc [OF newline_not_close [OF v]]) (simp add: close_marker_def)
  show ?thesis
  proof (cases "search_text (close_marker i) (drop ?after s)")
    case (Some k)
    have "length (close_marker i) \<le> length (drop k (drop ?after s))"
      using search_text_bound [OF Some] by (rule starts_with_length)
    then have "k + ?after \<le> length s" by (simp add: close_marker_def)
    with srch Some \<open>search_open s = Some ni\<close> ni after show ?thesis
      by (simp add: next_entry_def search_open_snoc Let_def)
  qed (use srch Some ni after in \<open>simp add: next_entry_def search_open_snoc Let_def\<close>)
qed (simp add: next_entry_def search_open_snoc)

lemma split_from_snoc:
  "split_from pos (s @ [newline]) = split_from pos s \<and>
   well_closed_from pos (s @ [newline]) = well_closed_from pos s"
proof (induction pos s rule: split_from.induct)
  case (1 pos s)
  show ?case
  proof (cases "next_entry pos s")
    case None
    then show ?thesis
      by (simp add: split_from.simps [of pos] well_closed_from.simps [of pos] next_entry_snoc search_open_snoc)
  next
    case (Some es)
    obtain e stop where es: "es = (e, stop)" by fastforce
    with Some next_entry_bound have "stop \<le> length s" by simp
    then have "drop stop (s @ [newline]) = drop stop s @ [newline]" by simp
    with 1 [OF Some es [symmetric]] Some es show ?thesis
      by (simp add: split_from.simps [of pos] well_closed_from.simps [of pos] next_entry_snoc)
  qed
qed

section \<open>Appended entries are read back\<close>

text \<open>What the writer's blocks need: an id of the marker alphabet, no closing marker of that
  id in the text, and no carriage return at its end.\<close>

definition ok_block :: "string \<times> string \<Rightarrow> bool" where
  "ok_block eb = (case eb of (b, i) \<Rightarrow>
     valid_id i \<and> search_text (close_marker i) b = None \<and> \<not> starts_with [CHR 0x0D] (rev b))"

lemma strip_block: "\<not> starts_with [CHR 0x0D] (rev b) \<Longrightarrow> strip_one_newline (newline # b @ [newline]) = b"
  by (cases "rev b") (auto simp: strip_one_newline_def Let_def starts_with_def)

lemma open_not_newline: "\<not> starts_with (open_marker i) (newline # s)"
  by (simp add: starts_with_def open_marker_def open_head_def)

lemma search_open_newline: "search_open [newline] = None"
  by (cases "open_at [newline]") (auto simp: open_at_Some_iff open_not_newline)

lemma next_entry_block:
  assumes "ok_block (b, i)"
  shows "\<exists>e. next_entry pos (entry_block (b, i) @ u) = Some (e, length (entry_block (b, i)) - 1)
            \<and> e_body e = b \<and> e_id e = i"
proof -
  have v: "valid_id i" and none: "search_text (close_marker i) b = None"
    and cr: "\<not> starts_with [CHR 0x0D] (rev b)"
    using assms by (simp_all add: ok_block_def)
  note nl = newline_not_close [OF v]
  have ne: "close_marker i \<noteq> []" by (simp add: close_marker_def)
  let ?mid = "newline # b @ [newline]"
  let ?rest = "close_marker i @ newline # u"
  have txt': "entry_block (b, i) @ u = open_marker i @ ?mid @ ?rest" by (simp add: entry_block_def)
  have "open_at (open_marker i @ x) = Some i" for x
    using v by (auto simp: open_at_Some_iff starts_with_iff)
  moreover obtain c r where "open_marker i = c # r" by (cases "open_marker i") (auto simp: open_marker_def open_head_def)
  ultimately have o: "search_open (entry_block (b, i) @ u) = Some (0, i)"
    unfolding txt' by (metis append_Cons option.simps(5) search_open.simps(2))
  have "search_text (close_marker i) ?mid = None"
    using search_text_snoc [OF nl ne, of b] none by (simp add: starts_with_def close_marker_def)
  moreover have "line_closed ?mid" by (simp add: line_closed_def)
  moreover have "search_text (close_marker i) ?rest = Some 0"
    by (cases "close_marker i") (use ne in \<open>auto simp: starts_with_def\<close>)
  ultimately have k: "search_text (close_marker i) (?mid @ ?rest) = Some (length ?mid)"
    using search_text_append [OF nl ne, of ?mid ?rest] by simp
  have "drop (0 + length (open_marker i)) (entry_block (b, i) @ u) = ?mid @ ?rest" unfolding txt' by simp
  with o k strip_block [OF cr] show ?thesis
    by (auto simp: next_entry_def Let_def entry_block_def)
qed

lemma split_block:
  assumes "ok_block (b, i)"
  shows "\<exists>e. split_from pos (entry_block (b, i) @ u) = e # split_from (pos + length (entry_block (b, i))) u
            \<and> e_body e = b \<and> e_id e = i
            \<and> (well_closed_from (pos + length (entry_block (b, i))) u \<longrightarrow>
               well_closed_from pos (entry_block (b, i) @ u))"
proof -
  obtain m where m: "length (entry_block (b, i)) = Suc m"
    by (cases "length (entry_block (b, i))") (auto simp: entry_block_def)
  obtain e where e: "next_entry pos (entry_block (b, i) @ u) = Some (e, m)" "e_body e = b" "e_id e = i"
    using next_entry_block [OF assms, of pos u] m by auto
  have "drop (length (entry_block (b, i)) - 1) (entry_block (b, i)) = [newline]"
    by (simp add: entry_block_def)
  then have d: "drop m (entry_block (b, i) @ u) = [newline] @ u" using m by simp
  have lc: "line_closed [newline]" by (simp add: line_closed_def)
  have "well_closed_from (pos + m) [newline]"
    by (simp add: well_closed_from.simps next_entry_def search_open_newline del: search_open.simps)
  then have "well_closed_from (pos + Suc m) u \<longrightarrow> well_closed_from (pos + m) ([newline] @ u)"
    using scan_append [OF lc, of "pos + m" u] by simp
  moreover have "split_from (pos + m) ([newline] @ u) = split_from (pos + Suc m) u"
    using split_from_shift [OF lc search_open_newline, of "pos + m" u] by simp
  ultimately show ?thesis
    using e d
    by (intro exI [of _ e])
      (simp add: m split_from.simps [of pos] well_closed_from.simps [of pos] del: append_Cons)
qed

lemma split_blocks:
  "list_all ok_block es \<Longrightarrow>
     map (\<lambda>e. (e_body e, e_id e)) (split_from pos (concat (map entry_block es))) = es
     \<and> well_closed_from pos (concat (map entry_block es))"
proof (induction es arbitrary: pos)
  case Nil
  show ?case by (simp add: split_from.simps well_closed_from.simps next_entry_def)
next
  case (Cons eb es)
  obtain b i where eb: "eb = (b, i)" by fastforce
  from Cons.prems have "ok_block (b, i)" by (simp add: eb)
  from split_block [OF this, of pos "concat (map entry_block es)"] Cons.IH Cons.prems
  show ?case by (auto simp: eb)
qed

lemma append_blocks_scan:
  assumes "well_closed body" and "list_all ok_block es"
  shows "map (\<lambda>e. (e_body e, e_id e)) (split_entries (append_blocks body es))
           = map (\<lambda>e. (e_body e, e_id e)) (split_entries body) @ es \<and>
         well_closed (append_blocks body es)"
proof -
  let ?b = "if body \<noteq> [] \<and> last body \<noteq> newline then body @ [newline] else body"
  have same: "split_from 0 ?b = split_from 0 body" "well_closed_from 0 ?b" "line_closed ?b"
    using assms(1) split_from_snoc [of 0 body] by (auto simp: well_closed_def line_closed_def)
  show ?thesis
  proof (cases "es = []")
    case True
    with assms(1) show ?thesis by (simp add: append_blocks_def)
  next
    case False
    then have "append_blocks body es = ?b @ concat (map entry_block es)"
      by (simp add: append_blocks_def)
    with scan_append [OF same(3,2)] split_blocks [OF assms(2)] same(1) show ?thesis
      by (simp add: split_entries_def well_closed_def)
  qed
qed

text \<open>
  Entries appended by the writer are read back: scanning the new body gives the old
  entries followed by the appended bodies with their ids, in order, and the new body is
  again closed, so the property holds along any sequence of appends.
\<close>

lemma appended_entries_round_trip:
  assumes "well_closed body" and "list_all ok_block es"
  shows "map (\<lambda>e. (e_body e, e_id e)) (split_entries (append_blocks body es))
           = map (\<lambda>e. (e_body e, e_id e)) (split_entries body) @ es \<and>
         well_closed (append_blocks body es)"
  by (rule append_blocks_scan [OF assms])

lemma appended_entries_round_trip_witness:
  "map e_id (split_entries (append_blocks (append_blocks [] [(''first'', ''ep_1'')]) [(''x'', ''ep_2'')]))
     = [''ep_1'', ''ep_2'']"
proof -
  have "well_closed []" by (simp add: well_closed_def well_closed_from.simps next_entry_def)
  moreover have "list_all ok_block [(''first'', ''ep_1'')]" by code_simp
  ultimately have 1: "well_closed (append_blocks [] [(''first'', ''ep_1'')])"
    and 2: "map (\<lambda>e. (e_body e, e_id e)) (split_entries (append_blocks [] [(''first'', ''ep_1'')]))
        = map (\<lambda>e. (e_body e, e_id e)) (split_entries []) @ [(''first'', ''ep_1'')]"
    using appended_entries_round_trip by blast+
  have 3: "list_all ok_block [(''x'', ''ep_2'')]" by code_simp
  have "split_entries [] = []" by (simp add: split_entries_def split_from.simps next_entry_def)
  with 2 appended_entries_round_trip [OF 1 3]
  have "map (\<lambda>e. (e_body e, e_id e))
      (split_entries (append_blocks (append_blocks [] [(''first'', ''ep_1'')]) [(''x'', ''ep_2'')]))
      = [(''first'', ''ep_1''), (''x'', ''ep_2'')]" by simp
  then have "map snd (map (\<lambda>e. (e_body e, e_id e))
      (split_entries (append_blocks (append_blocks [] [(''first'', ''ep_1'')]) [(''x'', ''ep_2'')])))
      = [''ep_1'', ''ep_2'']" by simp
  then show ?thesis by (simp add: o_def)
qed

end
