(* ===== verification/Daily_Handler.thy ===== *)
theory Daily_Handler
  imports Cascade_Worker Markdown_Entries "HOL-Library.AList" "HOL-Library.List_Lexorder" "HOL-Library.Char_ord"
begin

text \<open>
  The handler of the daily-log kinds (\<open>memory/cascade/handlers/_daily_log_base.py\<close> with
  \<open>handlers/_common.py\<close>), which brings the rows of one memory file in the vector index in
  line with the file. The vector table is a parameter: \<open>lance_ops\<close> holds the four calls
  \<open>LanceRepoBase\<close> (\<open>core/persistence/lancedb/repository.py\<close>) makes on it, the locale
  \<open>lance_table\<close> states their documented effect, and \<open>list_ops\<close> is the in-memory table
  that satisfies it. Parsing an entry body into inline fields and sections, building the
  columns of a row (tokeniser and embedding service) and SHA-256 are parameters of the
  handler's environment.
\<close>

section \<open>Scope of a path\<close>

definition app_dir_name :: "string \<Rightarrow> string" where
  "app_dir_name a = (if a = ''default'' then ''default_app'' else a)"

definition project_dir_name :: "string \<Rightarrow> string" where
  "project_dir_name p = (if p = ''default'' then ''default_project'' else p)"

definition app_id_from_dir :: "string \<Rightarrow> string" where
  "app_id_from_dir d = (if d = ''default_app'' then ''default'' else d)"

definition project_id_from_dir :: "string \<Rightarrow> string" where
  "project_id_from_dir d = (if d = ''default_project'' then ''default'' else d)"

definition resolve_scope :: "string \<Rightarrow> string \<times> string" where
  "resolve_scope md =
     (let parts = path_parts md;
          app_dir = (if 0 < length parts then parts ! 0 else ''default_app'');
          project_dir = (if 1 < length parts then parts ! 1 else ''default_project'')
      in (app_id_from_dir app_dir, project_id_from_dir project_dir))"

section \<open>Files, entries and digests\<close>

text \<open>
  A memory file after \<open>MarkdownReader.read\<close>: the frontmatter fields the handler reads (a
  missing id is the empty text) and the body. Reading may find no file or raise.
\<close>

record md_file =
  f_agent_id :: string
  f_user_id :: string
  f_deprecated :: "(string \<times> string) list"
  f_body :: string

datatype md_read = Md_missing | Md_unreadable string | Md_file md_file

definition resolve_owner :: "md_file \<Rightarrow> string \<Rightarrow> string \<times> string" where
  "resolve_owner f md =
     (let parts = path_parts md; scope_dir = (if 2 < length parts then parts ! 2 else '''')
      in if scope_dir = ''agents'' then (f_agent_id f, ''agent'') else (f_user_id f, ''user''))"

record structured =
  s_inline :: "string \<Rightarrow> string option"
  s_sections :: "string \<Rightarrow> string option"

record parsed_entry =
  pe_id :: string
  pe_structured :: structured
  pe_sha :: string

text \<open>\<open>content_sha256\<close> before hashing: sorted \<open>key=value\<close> lines.\<close>

definition join_lines :: "string list \<Rightarrow> string" where
  "join_lines xs = concat (case xs of [] \<Rightarrow> [] | y # ys \<Rightarrow> y # map (\<lambda>z. [CHR 0x0A] @ z) ys)"

definition canonical_content :: "(string \<times> string) list \<Rightarrow> string" where
  "canonical_content parts = join_lines (map (\<lambda>(k, v). k @ ''='' @ v) (sort_key fst parts))"

definition partition_colon :: "string \<Rightarrow> string \<times> string" where
  "partition_colon k =
     (takeWhile (\<lambda>c. c \<noteq> CHR '':'') k, drop 1 (dropWhile (\<lambda>c. c \<noteq> CHR '':'') k))"

text \<open>A dict entry is written once per key; a repeated key keeps the same value.\<close>

fun content_parts :: "string list \<Rightarrow> structured \<Rightarrow> handler_exc + (string \<times> string) list" where
  "content_parts [] s = Inr []"
| "content_parts (key # keys) s =
     (case partition_colon key of (k, name) \<Rightarrow>
        let value = (if k = ''section'' then Some (case s_sections s name of None \<Rightarrow> '''' | Some v \<Rightarrow> v)
                     else if k = ''inline'' then Some (case s_inline s name of None \<Rightarrow> '''' | Some v \<Rightarrow> v)
                     else None)
        in case value of
             None \<Rightarrow> Inl (Other_exception (''unsupported prefix in '' @ key))
           | Some v \<Rightarrow>
               (case content_parts keys s of
                  Inl e \<Rightarrow> Inl e
                | Inr parts \<Rightarrow> Inr (AList.update key v parts)))"

section \<open>The vector table\<close>

record 'c lance_row =
  l_id :: string
  l_entry_id :: string
  l_owner_id :: string
  l_owner_type :: string
  l_app_id :: string
  l_project_id :: string
  l_md_path :: string
  l_sha :: string
  l_deprecated_by :: "string option"
  l_columns :: 'c

record ('c, 't) lance_ops =
  lo_find :: "('c lance_row \<Rightarrow> bool) \<Rightarrow> nat \<Rightarrow> 't \<Rightarrow> handler_exc + 'c lance_row list"
  lo_upsert :: "'c lance_row list \<Rightarrow> 't \<Rightarrow> (handler_exc + unit) \<times> 't"
  lo_delete :: "('c lance_row \<Rightarrow> bool) \<Rightarrow> 't \<Rightarrow> (handler_exc + nat) \<times> 't"
  lo_update :: "('c lance_row \<Rightarrow> bool) \<Rightarrow> ('c lance_row \<Rightarrow> 'c lance_row) \<Rightarrow> 't \<Rightarrow> (handler_exc + unit) \<times> 't"

record ('c, 't) daily_env =
  de_kind :: string
  de_keys :: "string list"
  de_structure :: "string \<Rightarrow> structured"
  de_digest :: "string \<Rightarrow> string"
  de_columns :: "structured \<Rightarrow> handler_exc + 'c"
  de_ops :: "('c, 't) lance_ops"

record 't mem_world =
  w_files :: "string \<Rightarrow> md_read"
  w_table :: 't

section \<open>The handler\<close>

definition content_sha256 :: "('c, 't) daily_env \<Rightarrow> structured \<Rightarrow> handler_exc + string" where
  "content_sha256 env s =
     (case content_parts (de_keys env) s of
        Inl e \<Rightarrow> Inl e
      | Inr parts \<Rightarrow> Inr (de_digest env (canonical_content parts)))"

fun parse_entries :: "('c, 't) daily_env \<Rightarrow> entry list \<Rightarrow> handler_exc + parsed_entry list" where
  "parse_entries env [] = Inr []"
| "parse_entries env (e # es) =
     (case content_sha256 env (de_structure env (e_body e)) of
        Inl x \<Rightarrow> Inl x
      | Inr sha \<Rightarrow>
          (case parse_entries env es of
             Inl x \<Rightarrow> Inl x
           | Inr ps \<Rightarrow> Inr (\<lparr>pe_id = e_id e, pe_structured = de_structure env (e_body e),
                             pe_sha = sha\<rparr> # ps)))"

definition read_entries ::
  "('c, 't) daily_env \<Rightarrow> 't mem_world \<Rightarrow> string \<Rightarrow> handler_exc + md_file \<times> parsed_entry list" where
  "read_entries env w md =
     (case w_files w md of
        Md_missing \<Rightarrow> Inl (File_not_found md)
      | Md_unreadable m \<Rightarrow> Inl (Other_exception m)
      | Md_file f \<Rightarrow>
          (case parse_entries env (split_entries (f_body f)) of
             Inl e \<Rightarrow> Inl e
           | Inr es \<Rightarrow> Inr (f, es)))"

text \<open>\<open>existing_by_entry\<close> is a dict: of rows with one entry id the last one counts.\<close>

definition diff_entries ::
  "parsed_entry list \<Rightarrow> 'c lance_row list \<Rightarrow> parsed_entry list \<times> nat" where
  "diff_entries new_entries existing =
     (let by_entry = map_of (rev (map (\<lambda>r. (l_entry_id r, r)) existing));
          same = (\<lambda>e. case by_entry (pe_id e) of None \<Rightarrow> False | Some prior \<Rightarrow> l_sha prior = pe_sha e)
      in (filter (\<lambda>e. \<not> same e) new_entries, length (filter same new_entries)))"

definition row_id :: "string \<Rightarrow> string \<Rightarrow> string" where
  "row_id owner i = owner @ ''_'' @ i"

definition build_row ::
  "('c, 't) daily_env \<Rightarrow> string \<times> string \<Rightarrow> string \<times> string \<Rightarrow> string \<Rightarrow> parsed_entry \<Rightarrow>
   handler_exc + 'c lance_row" where
  "build_row env owner scope md e =
     (case de_columns env (pe_structured e) of
        Inl x \<Rightarrow> Inl x
      | Inr c \<Rightarrow> Inr \<lparr>l_id = row_id (fst owner) (pe_id e), l_entry_id = pe_id e,
                    l_owner_id = fst owner, l_owner_type = snd owner,
                    l_app_id = fst scope, l_project_id = snd scope, l_md_path = md,
                    l_sha = pe_sha e, l_deprecated_by = None, l_columns = c\<rparr>)"

fun embed_entries ::
  "('c, 't) daily_env \<Rightarrow> string \<times> string \<Rightarrow> string \<times> string \<Rightarrow> string \<Rightarrow> parsed_entry list \<Rightarrow>
   handler_exc + 'c lance_row list" where
  "embed_entries env owner scope md [] = Inr []"
| "embed_entries env owner scope md (e # es) =
     (case build_row env owner scope md e of
        Inl x \<Rightarrow> Inl x
      | Inr r \<Rightarrow>
          (case embed_entries env owner scope md es of
             Inl x \<Rightarrow> Inl x
           | Inr rs \<Rightarrow> Inr (r # rs)))"

definition apply_lance_changes ::
  "('c, 't) lance_ops \<Rightarrow> 'c lance_row list \<Rightarrow> string list \<Rightarrow> string \<Rightarrow> 't \<Rightarrow> (handler_exc + unit) \<times> 't" where
  "apply_lance_changes ops to_upsert to_delete md t =
     (case (if to_upsert \<noteq> [] then lo_upsert ops to_upsert t else (Inr (), t)) of
        (Inl e, t1) \<Rightarrow> (Inl e, t1)
      | (Inr _, t1) \<Rightarrow>
          if to_delete \<noteq> []
          then (case lo_delete ops (\<lambda>r. l_md_path r = md \<and> l_entry_id r \<in> set to_delete) t1 of
                  (Inl e, t2) \<Rightarrow> (Inl e, t2)
                | (Inr _, t2) \<Rightarrow> (Inr (), t2))
          else (Inr (), t1))"

text \<open>A deprecation mark that fails is logged and dropped.\<close>

definition mark_deprecated ::
  "('c, 't) lance_ops \<Rightarrow> string \<Rightarrow> string \<times> string \<Rightarrow> string \<times> string \<Rightarrow> 't \<Rightarrow> 't" where
  "mark_deprecated ops owner_id scope d t =
     snd (lo_update ops
       (\<lambda>r. l_owner_id r = owner_id \<and> l_entry_id r = fst d \<and> l_app_id r = fst scope
            \<and> l_project_id r = snd scope)
       (\<lambda>r. r\<lparr>l_deprecated_by := Some (snd d)\<rparr>) t)"

definition propagate_deprecations ::
  "('c, 't) lance_ops \<Rightarrow> md_file \<Rightarrow> string \<Rightarrow> string \<times> string \<Rightarrow> 't \<Rightarrow> 't" where
  "propagate_deprecations ops f owner_id scope t =
     fold (mark_deprecated ops owner_id scope) (f_deprecated f) t"

definition daily_added_or_modified ::
  "('c, 't) daily_env \<Rightarrow> 't mem_world handler_fun" where
  "daily_added_or_modified env md w =
     (case read_entries env w md of
        Inl e \<Rightarrow> (Inl e, w)
      | Inr (f, new_entries) \<Rightarrow>
          (case lo_find (de_ops env) (\<lambda>r. l_md_path r = md) 10000 (w_table w) of
             Inl e \<Rightarrow> (Inl e, w)
           | Inr existing \<Rightarrow>
               let owner = resolve_owner f md; scope = resolve_scope md;
                   (to_build, skipped) = diff_entries new_entries existing
               in case embed_entries env owner scope md to_build of
                    Inl e \<Rightarrow> (Inl e, w)
                  | Inr to_upsert \<Rightarrow>
                      let to_delete = filter (\<lambda>i. i \<notin> pe_id ` set new_entries) (map l_entry_id existing)
                      in case apply_lance_changes (de_ops env) to_upsert to_delete md (w_table w) of
                           (Inl e, t1) \<Rightarrow> (Inl e, w\<lparr>w_table := t1\<rparr>)
                         | (Inr _, t1) \<Rightarrow>
                             (Inr \<lparr>ho_path = md, ho_kind = de_kind env, ho_upserted = length to_upsert,
                                   ho_deleted = length to_delete, ho_skipped = skipped\<rparr>,
                              w\<lparr>w_table := propagate_deprecations (de_ops env) f (fst owner) scope t1\<rparr>)))"

definition daily_deleted :: "('c, 't) daily_env \<Rightarrow> 't mem_world handler_fun" where
  "daily_deleted env md w =
     (case lo_delete (de_ops env) (\<lambda>r. l_md_path r = md) (w_table w) of
        (Inl e, t1) \<Rightarrow> (Inl e, w\<lparr>w_table := t1\<rparr>)
      | (Inr n, t1) \<Rightarrow>
          (Inr \<lparr>ho_path = md, ho_kind = de_kind env, ho_upserted = 0, ho_deleted = n, ho_skipped = 0\<rparr>,
           w\<lparr>w_table := t1\<rparr>))"

definition daily_handler :: "('c, 't) daily_env \<Rightarrow> 't mem_world handler" where
  "daily_handler env = \<lparr>handle_added_or_modified = daily_added_or_modified env,
                        handle_deleted = daily_deleted env\<rparr>"

section \<open>What the vector table promises\<close>

text \<open>
  The documented effect of the four table calls when they return: \<open>contents\<close> is the table
  as a map from the merge key \<open>id\<close>. A \<open>find\<close> that returns fewer rows than its limit
  returned them all; \<open>merge_insert\<close> replaces a matching row wholesale; an update that
  raises leaves the table as it was.
\<close>

locale lance_table =
  fixes ops :: "('c, 't) lance_ops"
    and contents :: "'t \<Rightarrow> string \<Rightarrow> 'c lance_row option"
    and invar :: "'t \<Rightarrow> bool"
  assumes contents_id: "invar t \<Longrightarrow> contents t k = Some r \<Longrightarrow> l_id r = k"
    and find_rows: "invar t \<Longrightarrow> lo_find ops p n t = Inr rs \<Longrightarrow>
      set rs \<subseteq> {r. contents t (l_id r) = Some r \<and> p r} \<and> distinct (map l_id rs) \<and>
      (length rs < n \<longrightarrow> {r. contents t (l_id r) = Some r \<and> p r} \<subseteq> set rs)"
    and upsert_invar: "invar t \<Longrightarrow> invar (snd (lo_upsert ops rs t))"
    and upsert_rows: "invar t \<Longrightarrow> distinct (map l_id rs) \<Longrightarrow> lo_upsert ops rs t = (Inr (), t') \<Longrightarrow>
      contents t' = contents t ++ map_of (map (\<lambda>r. (l_id r, r)) rs)"
    and delete_invar: "invar t \<Longrightarrow> invar (snd (lo_delete ops p t))"
    and delete_rows: "invar t \<Longrightarrow> lo_delete ops p t = (Inr n, t') \<Longrightarrow>
      contents t' k = (case contents t k of None \<Rightarrow> None | Some r \<Rightarrow> if p r then None else Some r)"
    and update_invar: "invar t \<Longrightarrow> (\<And>r. l_id (f r) = l_id r) \<Longrightarrow> invar (snd (lo_update ops p f t))"
    and update_rows: "invar t \<Longrightarrow> (\<And>r. l_id (f r) = l_id r) \<Longrightarrow> lo_update ops p f t = (Inr (), t') \<Longrightarrow>
      contents t' k = map_option (\<lambda>r. if p r then f r else r) (contents t k)"
    and update_fails: "invar t \<Longrightarrow> lo_update ops p f t = (Inl e, t') \<Longrightarrow> contents t' = contents t"

text \<open>The in-memory table: a list of rows with distinct ids.\<close>

definition list_ops :: "('c, 'c lance_row list) lance_ops" where
  "list_ops =
     \<lparr>lo_find = (\<lambda>p n t. Inr (take n (filter p t))),
      lo_upsert = (\<lambda>rs t. (Inr (), fold (\<lambda>r t. upsert_row l_id r (\<lambda>_. r) t) rs t)),
      lo_delete = (\<lambda>p t. (Inr (count_where p t), delete_where p t)),
      lo_update = (\<lambda>p f t. (Inr (), update_where p f t))\<rparr>"

definition list_contents :: "'c lance_row list \<Rightarrow> string \<Rightarrow> 'c lance_row option" where
  "list_contents t k = row_at l_id k t"

definition list_invar :: "'c lance_row list \<Rightarrow> bool" where
  "list_invar t \<longleftrightarrow> distinct (map l_id t)"

lemma row_at_replace:
  "row_at l_id k (upsert_row l_id r (\<lambda>_. r) t) = (if k = l_id r then Some r else row_at l_id k t)"
proof -
  have "upsert_row l_id r (\<lambda>_. r) t = upsert_row l_id r (\<lambda>x. if l_id x = l_id r then r else x) t"
    by (simp add: upsert_row_def update_where_def cong: if_cong)
  moreover have "l_id (if l_id x = l_id r then r else x) = l_id x" for x by simp
  ultimately show ?thesis
    by (auto simp: row_at_upsert_row split: option.splits dest: row_at_SomeD)
qed

lemma distinct_replace:
  assumes "distinct (map l_id t)"
  shows "distinct (map l_id (upsert_row l_id r (\<lambda>_. r) t))"
proof -
  have "upsert_row l_id r (\<lambda>_. r) t = upsert_row l_id r (\<lambda>x. if l_id x = l_id r then r else x) t"
    by (simp add: upsert_row_def update_where_def cong: if_cong)
  moreover have "l_id (if l_id x = l_id r then r else x) = l_id x" for x by simp
  ultimately show ?thesis using assms by (simp add: distinct_upsert_row)
qed

lemma list_upsert:
  "row_at l_id k (fold (\<lambda>r t. upsert_row l_id r (\<lambda>_. r) t) rs t) =
     (case map_of (rev (map (\<lambda>r. (l_id r, r)) rs)) k of Some r \<Rightarrow> Some r | None \<Rightarrow> row_at l_id k t)"
  by (induction rs arbitrary: t)
    (auto simp: row_at_replace map_add_def map_of_append split: option.splits)

lemma list_upsert_distinct:
  "distinct (map l_id t) \<Longrightarrow> distinct (map l_id (fold (\<lambda>r t. upsert_row l_id r (\<lambda>_. r) t) rs t))"
  by (induction rs arbitrary: t) (simp_all add: distinct_replace)

lemma map_of_rev_distinct: "distinct (map fst xs) \<Longrightarrow> map_of (rev xs) = map_of xs"
  by (subst map_of_inject_set) (simp_all add: rev_map [symmetric])

lemma list_upsert_contents:
  assumes "distinct (map l_id rs)"
  shows "list_contents (fold (\<lambda>r t. upsert_row l_id r (\<lambda>_. r) t) rs t)
         = list_contents t ++ map_of (map (\<lambda>r. (l_id r, r)) rs)"
proof -
  have "distinct (map fst (map (\<lambda>r. (l_id r, r)) rs))" using assms by (simp add: o_def)
  from map_of_rev_distinct [OF this] show ?thesis
    by (auto simp: list_contents_def [abs_def] fun_eq_iff list_upsert map_add_def)
qed

interpretation list_table: lance_table list_ops list_contents list_invar
proof
  fix t t' :: "'c lance_row list" and rs :: "'c lance_row list" and k p f n r e
  assume inv: "list_invar t"
  show "list_contents t k = Some r \<Longrightarrow> l_id r = k"
    by (auto simp: list_contents_def dest: row_at_SomeD)
  assume "lo_find list_ops p n t = Inr rs"
  then have rs: "rs = take n (filter p t)" by (simp add: list_ops_def)
  have all: "set rs = set (filter p t)" if "length rs < n" using that by (simp add: rs)
  have "distinct (map l_id rs)"
    using inv by (auto simp: rs list_invar_def intro: distinct_map_take distinct_map_filter)
  then show "set rs \<subseteq> {r. list_contents t (l_id r) = Some r \<and> p r} \<and> distinct (map l_id rs) \<and>
      (length rs < n \<longrightarrow> {r. list_contents t (l_id r) = Some r \<and> p r} \<subseteq> set rs)"
    using inv all by (auto simp: rs list_contents_def list_invar_def row_at_Some_iff dest: in_set_takeD)
next
  fix t t' :: "'c lance_row list" and rs :: "'c lance_row list"
  assume "distinct (map l_id rs)" and "lo_upsert list_ops rs t = (Inr (), t')"
  then show "list_contents t' = list_contents t ++ map_of (map (\<lambda>r. (l_id r, r)) rs)"
    by (auto simp: list_ops_def list_upsert_contents)
qed (auto simp: list_ops_def list_contents_def list_invar_def list_upsert_distinct distinct_map_delete_where
    row_at_delete_where row_at_update_where map_update_where)

section \<open>Rows built for entries\<close>

lemma row_id_inj [simp]: "row_id owner i = row_id owner j \<longleftrightarrow> i = j"
  by (simp add: row_id_def)

lemma build_row_Inr:
  "build_row env owner scope md e = Inr r \<Longrightarrow>
     l_id r = row_id (fst owner) (pe_id e) \<and> l_entry_id r = pe_id e \<and> l_md_path r = md
     \<and> l_sha r = pe_sha e \<and> l_deprecated_by r = None
     \<and> l_owner_id r = fst owner \<and> l_app_id r = fst scope \<and> l_project_id r = snd scope"
  by (auto simp: build_row_def split: sum.splits)

lemma embed_entries_Inr:
  "embed_entries env owner scope md es = Inr rs \<Longrightarrow> list_all2 (\<lambda>e r. build_row env owner scope md e = Inr r) es rs"
  by (induction es arbitrary: rs) (auto split: sum.splits)

lemma embed_entries_rows:
  assumes "embed_entries env owner scope md es = Inr rs"
  shows "map l_id rs = map (\<lambda>e. row_id (fst owner) (pe_id e)) es"
    and "r \<in> set rs \<Longrightarrow> \<exists>e \<in> set es. build_row env owner scope md e = Inr r"
    and "e \<in> set es \<Longrightarrow> \<exists>r \<in> set rs. build_row env owner scope md e = Inr r"
    and "length rs = length es"
proof -
  have l: "list_all2 (\<lambda>e r. build_row env owner scope md e = Inr r) es rs"
    by (rule embed_entries_Inr [OF assms])
  show "map l_id rs = map (\<lambda>e. row_id (fst owner) (pe_id e)) es"
    using l by (induction rule: list_all2_induct) (auto dest: build_row_Inr)
  show "r \<in> set rs \<Longrightarrow> \<exists>e \<in> set es. build_row env owner scope md e = Inr r"
    using l by (induction rule: list_all2_induct) auto
  show "e \<in> set es \<Longrightarrow> \<exists>r \<in> set rs. build_row env owner scope md e = Inr r"
    using l by (induction rule: list_all2_induct) auto
  show "length rs = length es" using l by (simp add: list_all2_lengthD)
qed

text \<open>The entries the diff keeps: those whose row carries the same digest.\<close>

lemma diff_entries_iff:
  assumes "distinct (map l_entry_id existing)"
  shows "diff_entries es existing =
    (filter (\<lambda>e. \<not> list_ex (\<lambda>r. l_entry_id r = pe_id e \<and> l_sha r = pe_sha e) existing) es,
     count_where (\<lambda>e. list_ex (\<lambda>r. l_entry_id r = pe_id e \<and> l_sha r = pe_sha e) existing) es)"
proof -
  have d: "distinct (map fst (map (\<lambda>r. (l_entry_id r, r)) existing))"
    using assms by (simp add: o_def)
  have *: "map_of (rev (map (\<lambda>r. (l_entry_id r, r)) existing)) i = Some r \<longleftrightarrow>
      r \<in> set existing \<and> l_entry_id r = i" for i r
    unfolding map_of_rev_distinct [OF d] using map_of_eq_Some_iff [OF d] by auto
  have "(case map_of (rev (map (\<lambda>r. (l_entry_id r, r)) existing)) (pe_id e) of
        None \<Rightarrow> False | Some prior \<Rightarrow> l_sha prior = pe_sha e) \<longleftrightarrow>
      list_ex (\<lambda>r. l_entry_id r = pe_id e \<and> l_sha r = pe_sha e) existing" (is "?l e \<longleftrightarrow> ?r e")
    for e :: parsed_entry
  proof -
    have "?r e \<longleftrightarrow> (\<exists>r. map_of (rev (map (\<lambda>r. (l_entry_id r, r)) existing)) (pe_id e) = Some r
        \<and> l_sha r = pe_sha e)"
      by (auto simp: list_ex_iff *)
    then show ?thesis by (simp split: option.split)
  qed
  then show ?thesis by (simp add: diff_entries_def Let_def count_where_def)
qed

section \<open>The index after a handler run\<close>

text \<open>
  A row up to its deprecation mark; \<open>indexed\<close> says that the rows of a path are exactly the
  entries of its file, one row per entry under the row id of its owner, with their digests.
\<close>

definition undeprecated :: "'c lance_row \<Rightarrow> 'c lance_row" where
  "undeprecated r = r\<lparr>l_deprecated_by := None\<rparr>"

definition facts :: "'c lance_row \<Rightarrow> string \<times> string \<times> string" where
  "facts r = (l_md_path r, l_entry_id r, l_sha r)"

definition indexed :: "(string \<Rightarrow> 'c lance_row option) \<Rightarrow> string \<Rightarrow> string \<Rightarrow> parsed_entry list \<Rightarrow> bool" where
  "indexed m md owner es \<longleftrightarrow>
     (\<forall>k i s. map_option facts (m k) = Some (md, i, s) \<longrightarrow>
        (\<exists>e \<in> set es. k = row_id owner (pe_id e) \<and> i = pe_id e \<and> s = pe_sha e)) \<and>
     (\<forall>e \<in> set es. map_option facts (m (row_id owner (pe_id e))) = Some (md, pe_id e, pe_sha e))"

text \<open>Row ids of the path follow its owner, and no other path holds a row id of its entries.\<close>

definition ids_regular :: "(string \<Rightarrow> 'c lance_row option) \<Rightarrow> string \<Rightarrow> string \<Rightarrow> parsed_entry list \<Rightarrow> bool" where
  "ids_regular m md owner es \<longleftrightarrow>
     (\<forall>k r. m k = Some r \<and> l_md_path r = md \<longrightarrow> k = row_id owner (l_entry_id r)) \<and>
     (\<forall>e \<in> set es. \<forall>r. m (row_id owner (pe_id e)) = Some r \<longrightarrow> l_md_path r = md)"

lemma facts_undeprecated [simp]: "facts (undeprecated r) = facts r"
  by (simp add: facts_def undeprecated_def)

lemma indexed_undeprecated:
  assumes "\<And>k. map_option undeprecated (m' k) = map_option undeprecated (m k)"
  shows "indexed m' md owner es = indexed m md owner es"
proof -
  have "map_option facts (m' k) = map_option facts (m k)" for k
    using arg_cong [OF assms, of "map_option facts" k] by (simp add: option.map_comp o_def)
  then show ?thesis by (simp add: indexed_def)
qed

section \<open>The change a run makes, as a map\<close>

definition same_row :: "'c lance_row list \<Rightarrow> parsed_entry \<Rightarrow> bool" where
  "same_row existing e = list_ex (\<lambda>r. l_entry_id r = pe_id e \<and> l_sha r = pe_sha e) existing"

lemma reconciled_map:
  assumes ex: "set existing = {r. m (l_id r) = Some r \<and> l_md_path r = md}"
    and idk: "\<forall>k r. m k = Some r \<longrightarrow> l_id r = k"
    and reg: "ids_regular m md (fst owner) es" and dist: "distinct (map pe_id es)"
    and emb: "embed_entries env owner scope md (filter (\<lambda>e. \<not> same_row existing e) es) = Inr us"
    and m'_def: "m' = (\<lambda>k. case (m ++ map_of (map (\<lambda>r. (l_id r, r)) us)) k of
       None \<Rightarrow> None
     | Some r \<Rightarrow> if l_md_path r = md \<and>
         l_entry_id r \<in> set (filter (\<lambda>i. i \<notin> pe_id ` set es) (map l_entry_id existing)) then None else Some r)"
  shows "e \<in> set es \<Longrightarrow> map_option facts (m' (row_id (fst owner) (pe_id e))) = Some (md, pe_id e, pe_sha e)"
    and "k \<notin> row_id (fst owner) ` pe_id ` set es \<Longrightarrow>
      m' k = (case m k of None \<Rightarrow> None | Some r \<Rightarrow> if l_md_path r = md then None else Some r)"
proof -
  let ?U = "map_of (map (\<lambda>r. (l_id r, r)) us)"
  note m' = fun_cong [OF m'_def]
  have ids: "l_id r = k" if "m k = Some r" for k r using idk that by blast
  note rows = embed_entries_rows [OF emb]
  have "distinct (map l_id us)"
    unfolding rows(1) using dist by (simp add: distinct_map inj_on_def)
  then have dU: "distinct (map fst (map (\<lambda>r. (l_id r, r)) us))" by (simp add: o_def)
  have U: "?U k = Some u \<longleftrightarrow> u \<in> set us \<and> l_id u = k" for k u
    using map_of_eq_Some_iff [OF dU] by auto
  have U_None: "?U k = None" if "\<And>e. e \<in> set es \<Longrightarrow> k = row_id (fst owner) (pe_id e) \<Longrightarrow> same_row existing e" for k
  proof (rule ccontr)
    assume "?U k \<noteq> None"
    then obtain u where "u \<in> set us" "l_id u = k" using U by blast
    with rows(2) [of u] obtain e where "e \<in> set es" "\<not> same_row existing e" "build_row env owner scope md e = Inr u"
      by auto
    with build_row_Inr [of env owner scope md e u] \<open>l_id u = k\<close> that [of e] show False by simp
  qed
  have reg_id: "l_id r = row_id (fst owner) (l_entry_id r)" if "r \<in> set existing" for r
    using that ex reg by (auto simp: ids_regular_def)
  show "map_option facts (m' (row_id (fst owner) (pe_id e))) = Some (md, pe_id e, pe_sha e)"
    if e: "e \<in> set es"
  proof (cases "same_row existing e")
    case True
    then obtain r where r: "r \<in> set existing" "l_entry_id r = pe_id e" "l_sha r = pe_sha e"
      by (auto simp: same_row_def list_ex_iff)
    have "m (l_id r) = Some r \<and> l_md_path r = md" using r(1) unfolding ex by simp
    then have mr: "m (row_id (fst owner) (pe_id e)) = Some r" "l_md_path r = md"
      using reg_id [OF r(1)] r(2) by simp_all
    have "?U (row_id (fst owner) (pe_id e)) = None"
    proof (rule U_None)
      fix e' assume "e' \<in> set es" "row_id (fst owner) (pe_id e) = row_id (fst owner) (pe_id e')"
      then have "e' = e" using dist e by (auto simp: distinct_map dest: inj_onD)
      then show "same_row existing e'" using True by simp
    qed
    then show ?thesis using mr r e by (auto simp: m' map_add_def facts_def)
  next
    case False
    with e have "e \<in> set (filter (\<lambda>e. \<not> same_row existing e) es)" by simp
    from rows(3) [OF this] obtain u where u: "u \<in> set us" and b: "build_row env owner scope md e = Inr u"
      by blast
    from build_row_Inr [OF b] u
    have "?U (row_id (fst owner) (pe_id e)) = Some u" "l_entry_id u = pe_id e" "facts u = (md, pe_id e, pe_sha e)"
      by (simp_all add: U facts_def)
    then show ?thesis using e by (simp add: m' map_add_def)
  qed
  show "m' k = (case m k of None \<Rightarrow> None | Some r \<Rightarrow> if l_md_path r = md then None else Some r)"
    if k: "k \<notin> row_id (fst owner) ` pe_id ` set es"
  proof -
    have "?U k = None" using k by (intro U_None) blast
    moreover have "l_entry_id r \<in> set (filter (\<lambda>i. i \<notin> pe_id ` set es) (map l_entry_id existing))"
      if "m k = Some r" "l_md_path r = md" for r
    proof -
      have "r \<in> set existing" using that ids [of k r] ex by auto
      moreover have "l_entry_id r \<notin> pe_id ` set es"
        using reg_id [OF calculation] ids [OF that(1)] k by auto
      ultimately show ?thesis by auto
    qed
    ultimately show ?thesis by (auto simp: m' map_add_def split: option.splits)
  qed
qed

section \<open>Correctness of a run, for any table that keeps its promises\<close>

context lance_table
begin

lemma mark_keeps:
  assumes "invar t"
  shows "invar (mark_deprecated ops owner scope d t) \<and>
    map_option undeprecated (contents (mark_deprecated ops owner scope d t) k)
      = map_option undeprecated (contents t k)"
proof -
  let ?p = "\<lambda>r. l_owner_id r = owner \<and> l_entry_id r = fst d \<and> l_app_id r = fst scope \<and> l_project_id r = snd scope"
  let ?f = "\<lambda>r::'a lance_row. r\<lparr>l_deprecated_by := Some (snd d)\<rparr>"
  obtain res t' where u: "lo_update ops ?p ?f t = (res, t')" by fastforce
  have inv: "invar (snd (lo_update ops ?p ?f t))" by (rule update_invar [OF assms]) simp
  have "map_option undeprecated (contents t' k) = map_option undeprecated (contents t k)"
  proof (cases res)
    case (Inl e)
    with u have "contents t' = contents t" by (intro update_fails [OF assms]) simp
    then show ?thesis by simp
  next
    case (Inr x)
    with u have "contents t' k = map_option (\<lambda>r. if ?p r then ?f r else r) (contents t k)"
      by (intro update_rows [OF assms]) simp_all
    then show ?thesis by (cases "contents t k") (simp_all add: undeprecated_def)
  qed
  with inv show ?thesis by (simp add: mark_deprecated_def u)
qed

lemma propagate_keeps:
  "invar t \<Longrightarrow> invar (fold (mark_deprecated ops owner scope) ds t) \<and>
    map_option undeprecated (contents (fold (mark_deprecated ops owner scope) ds t) k)
      = map_option undeprecated (contents t k)"
  using mark_keeps by (induction ds arbitrary: t) auto

lemma apply_changes:
  assumes "invar t" and "distinct (map l_id us)" and "apply_lance_changes ops us ds md t = (Inr x, t')"
  shows "invar t' \<and> contents t' k =
    (case (contents t ++ map_of (map (\<lambda>r. (l_id r, r)) us)) k of
       None \<Rightarrow> None
     | Some r \<Rightarrow> if l_md_path r = md \<and> l_entry_id r \<in> set ds then None else Some r)"
proof -
  obtain t1 where t1: "(if us \<noteq> [] then lo_upsert ops us t else (Inr (), t)) = (Inr (), t1)"
    using assms(3) by (auto simp: apply_lance_changes_def split: prod.splits sum.splits)
  have c1: "contents t1 = contents t ++ map_of (map (\<lambda>r. (l_id r, r)) us)" and i1: "invar t1"
  proof -
    show "contents t1 = contents t ++ map_of (map (\<lambda>r. (l_id r, r)) us)"
      using t1 upsert_rows [OF assms(1,2)] by (cases us) auto
    show "invar t1" using t1 upsert_invar [OF assms(1), of us] assms(1) by (cases us) auto
  qed
  show ?thesis
  proof (cases "ds = []")
    case True
    with assms(3) t1 have "t' = t1" by (auto simp: apply_lance_changes_def)
    with True c1 i1 show ?thesis by (auto split: option.splits)
  next
    case False
    let ?p = "\<lambda>r. l_md_path r = md \<and> l_entry_id r \<in> set ds"
    from False assms(3) t1 obtain n where d: "lo_delete ops ?p t1 = (Inr n, t')"
      by (auto simp: apply_lance_changes_def split: prod.splits sum.splits)
    with delete_rows [OF i1 d] delete_invar [OF i1, of ?p] c1 show ?thesis by simp
  qed
qed

lemma handler_run:
  assumes inv: "invar (w_table w)"
    and rd: "read_entries env w md = Inr (f, es)" and dist: "distinct (map pe_id es)"
    and ops: "de_ops env = ops"
    and fnd: "lo_find ops (\<lambda>r. l_md_path r = md) 10000 (w_table w) = Inr existing"
    and few: "length existing < 10000"
    and reg: "ids_regular (contents (w_table w)) md (fst (resolve_owner f md)) es"
    and run: "daily_added_or_modified env md w = (Inr out, w')"
  shows "indexed (contents (w_table w')) md (fst (resolve_owner f md)) es"
    and "invar (w_table w')" and "w_files w' = w_files w"
    and "contents (w_table w) k = Some r \<Longrightarrow> l_md_path r \<noteq> md \<Longrightarrow>
           map_option undeprecated (contents (w_table w') k) = Some (undeprecated r)"
    and "case contents (w_table w) k of None \<Rightarrow> True | Some r \<Rightarrow> l_md_path r = md \<Longrightarrow>
           k \<notin> row_id (fst (resolve_owner f md)) ` pe_id ` set es \<Longrightarrow> contents (w_table w') k = None"
    and "ho_upserted out + ho_skipped out = length es"
    and "ho_skipped out = count_where (\<lambda>e. map_option facts
           (contents (w_table w) (row_id (fst (resolve_owner f md)) (pe_id e))) = Some (md, pe_id e, pe_sha e)) es"
    and "ho_deleted out = count_where (\<lambda>r. l_entry_id r \<notin> pe_id ` set es) existing"
proof -
  let ?o = "resolve_owner f md" and ?s = "resolve_scope md" and ?t = "w_table w"
  let ?ids = "row_id (fst ?o) ` pe_id ` set es"
  let ?del = "filter (\<lambda>i. i \<notin> pe_id ` set es) (map l_entry_id existing)"
  have ex: "set existing = {r. contents ?t (l_id r) = Some r \<and> l_md_path r = md}"
    and dex: "distinct (map l_id existing)"
    using find_rows [OF inv fnd] few by auto
  have ids: "\<forall>k r. contents ?t k = Some r \<longrightarrow> l_id r = k" using contents_id [OF inv] by blast
  have rid: "l_id r = row_id (fst ?o) (l_entry_id r)" if "r \<in> set existing" for r
    using that ex reg by (auto simp: ids_regular_def)
  have "distinct (map l_entry_id existing)"
    using dex rid by (simp add: distinct_map inj_on_def)
  note diff = diff_entries_iff [OF this, of es, folded same_row_def]
  obtain us t1 where us: "embed_entries env ?o ?s md (filter (\<lambda>e. \<not> same_row existing e) es) = Inr us"
    and t1: "apply_lance_changes ops us ?del md ?t = (Inr (), t1)"
    and out: "out = \<lparr>ho_path = md, ho_kind = de_kind env, ho_upserted = length us,
        ho_deleted = length ?del, ho_skipped = count_where (same_row existing) es\<rparr>"
    and w': "w' = w\<lparr>w_table := propagate_deprecations ops f (fst ?o) ?s t1\<rparr>"
    using run by (auto simp: daily_added_or_modified_def rd fnd ops diff Let_def split: sum.splits prod.splits)
  note rows = embed_entries_rows [OF us]
  have "distinct (map l_id us)"
    unfolding rows(1) using dist by (simp add: distinct_map inj_on_def)
  note ap = apply_changes [OF inv this t1]
  have keep: "invar (w_table w')"
    "\<And>k. map_option undeprecated (contents (w_table w') k) = map_option undeprecated (contents t1 k)"
    using propagate_keeps [of t1 "fst ?o" ?s "f_deprecated f"] ap by (simp_all add: w' propagate_deprecations_def)
  have "contents t1 = (\<lambda>k. case (contents ?t ++ map_of (map (\<lambda>r. (l_id r, r)) us)) k of
       None \<Rightarrow> None
     | Some r \<Rightarrow> if l_md_path r = md \<and> l_entry_id r \<in> set ?del then None else Some r)"
    using ap by (intro ext) blast
  note rc = reconciled_map [OF ex ids reg dist us this]
  have "indexed (contents t1) md (fst ?o) es"
    unfolding indexed_def
  proof (intro conjI ballI allI impI)
    fix k i s assume k: "map_option facts (contents t1 k) = Some (md, i, s)"
    show "\<exists>e \<in> set es. k = row_id (fst ?o) (pe_id e) \<and> i = pe_id e \<and> s = pe_sha e"
    proof (cases "k \<in> ?ids")
      case True
      then obtain e where "e \<in> set es" "k = row_id (fst ?o) (pe_id e)" by auto
      with rc(1) [of e] k show ?thesis by auto
    next
      case False
      with rc(2) [of k] k show ?thesis by (auto simp: facts_def split: option.splits if_splits)
    qed
  qed (rule rc(1))
  then show "indexed (contents (w_table w')) md (fst ?o) es"
    using indexed_undeprecated [OF keep(2)] by simp
  show "invar (w_table w')" by (rule keep(1))
  show "w_files w' = w_files w" by (simp add: w')
  show "map_option undeprecated (contents (w_table w') k) = Some (undeprecated r)"
    if k: "contents ?t k = Some r" and md: "l_md_path r \<noteq> md"
  proof -
    have "k \<notin> ?ids" using reg k md by (auto simp: ids_regular_def)
    with rc(2) [of k] k md keep(2) [of k] show ?thesis by simp
  qed
  show "contents (w_table w') k = None"
    if "case contents ?t k of None \<Rightarrow> True | Some r \<Rightarrow> l_md_path r = md" "k \<notin> ?ids"
    using rc(2) [of k] that keep(2) [of k] by (auto split: option.splits)
  have "length (filter (\<lambda>e. \<not> p e) es) + count_where p es = length es" for p :: "parsed_entry \<Rightarrow> bool"
    by (induction es) auto
  then show "ho_upserted out + ho_skipped out = length es" by (simp add: out rows(4))
  show "ho_deleted out = count_where (\<lambda>r. l_entry_id r \<notin> pe_id ` set es) existing"
    by (simp add: out count_where_def filter_map o_def)
  have "same_row existing e \<longleftrightarrow> map_option facts (contents ?t (row_id (fst ?o) (pe_id e))) = Some (md, pe_id e, pe_sha e)" for e
    using ex rid ids by (fastforce simp: same_row_def list_ex_iff facts_def)
  then have "same_row existing = (\<lambda>e. map_option facts
      (contents ?t (row_id (fst ?o) (pe_id e))) = Some (md, pe_id e, pe_sha e))" by (rule ext)
  then show "ho_skipped out = count_where (\<lambda>e. map_option facts
      (contents ?t (row_id (fst ?o) (pe_id e))) = Some (md, pe_id e, pe_sha e)) es"
    by (simp add: out)
qed

end

section \<open>The handler's theorems\<close>

definition list_env ::
  "string \<Rightarrow> string list \<Rightarrow> (string \<Rightarrow> structured) \<Rightarrow> (string \<Rightarrow> string) \<Rightarrow> (structured \<Rightarrow> handler_exc + 'c) \<Rightarrow>
   ('c, 'c lance_row list) daily_env" where
  "list_env k keys structure digest columns =
     \<lparr>de_kind = k, de_keys = keys, de_structure = structure, de_digest = digest,
      de_columns = columns, de_ops = list_ops\<rparr>"

text \<open>
  C2: a run that returns leaves the rows of the path exactly the entries of its file, one
  row per entry with the digest of the entry's content, whatever the index held for the
  path before; rows of other paths change at most in their deprecation mark; and the
  outcome counts every entry once, as upserted or as skipped.
\<close>

theorem handler_indexes_file:
  assumes "lance_table (de_ops env) contents invar" and "invar (w_table w)"
    and "read_entries env w md = Inr (f, es)" and "distinct (map pe_id es)"
    and "lo_find (de_ops env) (\<lambda>r. l_md_path r = md) 10000 (w_table w) = Inr existing"
    and "length existing < 10000"
    and "ids_regular (contents (w_table w)) md (fst (resolve_owner f md)) es"
    and "daily_added_or_modified env md w = (Inr out, w')"
  shows "indexed (contents (w_table w')) md (fst (resolve_owner f md)) es \<and>
         (\<forall>k r. contents (w_table w) k = Some r \<and> l_md_path r \<noteq> md \<longrightarrow>
            map_option undeprecated (contents (w_table w') k) = Some (undeprecated r)) \<and>
         ho_upserted out + ho_skipped out = length es"
proof -
  note run = lance_table.handler_run [OF assms(1,2,3,4) refl assms(5-8)]
  show ?thesis using run(1,6) run(4) by blast
qed

text \<open>A file with one entry, in the space of the default app and project.\<close>

definition demo_body :: string where
  "demo_body = append_blocks [] [(''hello'', ''ep_20260512_00000001'')]"

definition demo_file :: md_file where
  "demo_file = \<lparr>f_agent_id = '''', f_user_id = ''u1'', f_deprecated = [], f_body = demo_body\<rparr>"

definition demo_env :: "(unit, unit lance_row list) daily_env" where
  "demo_env = list_env ''episode'' [''section:Content'']
     (\<lambda>b. \<lparr>s_inline = (\<lambda>_. None), s_sections = (\<lambda>n. if n = ''Content'' then Some b else None)\<rparr>)
     (\<lambda>s. s) (\<lambda>_. Inr ())"

definition demo_world :: "unit lance_row list mem_world" where
  "demo_world = \<lparr>w_files = (\<lambda>p. if p = demo_episode then Md_file demo_file else Md_missing), w_table = []\<rparr>"

lemma demo_read:
  "read_entries demo_env demo_world demo_episode = Inr (demo_file,
     [\<lparr>pe_id = ''ep_20260512_00000001'', pe_structured = de_structure demo_env ''hello'',
       pe_sha = ''section:Content=hello''\<rparr>])"
proof -
  have "map e_id (split_entries demo_body) = [''ep_20260512_00000001'']"
    "map e_body (split_entries demo_body) = [''hello'']" by code_simp+
  then obtain e where "split_entries demo_body = [e]" "e_id e = ''ep_20260512_00000001''" "e_body e = ''hello''"
    by auto
  moreover have "content_sha256 demo_env (de_structure demo_env ''hello'') = Inr ''section:Content=hello''"
    by code_simp
  ultimately show ?thesis
    by (simp add: read_entries_def demo_world_def demo_file_def)
qed

lemma demo_run: "\<exists>out w'. daily_added_or_modified demo_env demo_episode demo_world = (Inr out, w')"
proof -
  have "\<not> isl (fst (daily_added_or_modified demo_env demo_episode demo_world))" by code_simp
  then show ?thesis by (metis prod.collapse sum.collapse(2))
qed

abbreviation demo_entry :: parsed_entry where
  "demo_entry \<equiv> \<lparr>pe_id = ''ep_20260512_00000001'',
     pe_structured = de_structure demo_env ''hello'', pe_sha = ''section:Content=hello''\<rparr>"

lemma demo_facts:
  "lance_table (de_ops demo_env) list_contents list_invar"
  "list_invar (w_table demo_world)" "distinct (map pe_id [demo_entry])"
  "lo_find (de_ops demo_env) (\<lambda>r. l_md_path r = demo_episode) 10000 (w_table demo_world) = Inr []"
  "length ([] :: unit lance_row list) < 10000"
  "ids_regular (list_contents (w_table demo_world)) demo_episode (fst (resolve_owner demo_file demo_episode)) [demo_entry]"
  using list_table.lance_table_axioms
  by (simp_all add: demo_env_def list_env_def demo_world_def list_invar_def list_ops_def ids_regular_def
      list_contents_def)

theorem handler_indexes_file_witness:
  "\<exists>out w'. daily_added_or_modified demo_env demo_episode demo_world = (Inr out, w') \<and>
     map_option l_entry_id (list_contents (w_table w') ''u1_ep_20260512_00000001'')
       = Some ''ep_20260512_00000001''"
proof -
  have o: "fst (resolve_owner demo_file demo_episode) = ''u1''" by code_simp
  obtain out w' where run: "daily_added_or_modified demo_env demo_episode demo_world = (Inr out, w')"
    using demo_run by blast
  from handler_indexes_file [OF demo_facts(1,2) demo_read demo_facts(3-6) run]
  have "map_option facts (list_contents (w_table w') ''u1_ep_20260512_00000001'')
      = Some (demo_episode, ''ep_20260512_00000001'', ''section:Content=hello'')"
    by (simp add: o indexed_def row_id_def)
  with run show ?thesis by (intro exI [of _ out] exI [of _ w']) (auto simp: facts_def)
qed

context lance_table
begin

lemma indexed_regular:
  assumes "invar t" and "indexed (contents t) md owner es"
  shows "ids_regular (contents t) md owner es"
  unfolding ids_regular_def
proof (intro conjI allI impI ballI)
  fix k r assume "contents t k = Some r \<and> l_md_path r = md"
  with assms(2) show "k = row_id owner (l_entry_id r)"
    by (fastforce simp: indexed_def facts_def)
next
  fix e r assume "e \<in> set es" "contents t (row_id owner (pe_id e)) = Some r"
  with assms(2) show "l_md_path r = md" by (fastforce simp: indexed_def facts_def)
qed

lemma run_keeps_others:
  assumes inv: "invar (w_table w)"
    and rd: "read_entries env w md = Inr (f, es)" and dist: "distinct (map pe_id es)"
    and ops: "de_ops env = ops"
    and fnd: "lo_find ops (\<lambda>r. l_md_path r = md) 10000 (w_table w) = Inr existing"
    and few: "length existing < 10000"
    and reg: "ids_regular (contents (w_table w)) md (fst (resolve_owner f md)) es"
    and run: "daily_added_or_modified env md w = (Inr out, w')" and q: "q \<noteq> md"
  shows "map_option facts (contents (w_table w') k) = Some (q, i, s) \<longleftrightarrow>
         map_option facts (contents (w_table w) k) = Some (q, i, s)"
proof -
  note h = handler_run [OF inv rd dist ops fnd few reg run]
  let ?ids = "row_id (fst (resolve_owner f md)) ` pe_id ` set es"
  have facts: "map_option facts (map_option undeprecated x) = map_option facts x" for x :: "'a lance_row option"
    by (simp add: option.map_comp o_def)
  show ?thesis
  proof (cases "\<exists>r. contents (w_table w) k = Some r \<and> l_md_path r \<noteq> md")
    case True
    then obtain r where r: "contents (w_table w) k = Some r" "l_md_path r \<noteq> md" by blast
    have "map_option facts (contents (w_table w') k) = Some (facts r)"
      using arg_cong [OF h(4) [OF r], of "map_option facts"] unfolding facts by simp
    with r(1) show ?thesis by (metis option.simps(9))
  next
    case False
    then have old: "map_option facts (contents (w_table w) k) \<noteq> Some (q, i, s)"
      using q by (auto simp: facts_def)
    have "map_option facts (contents (w_table w') k) \<noteq> Some (q, i, s)"
    proof (cases "k \<in> ?ids")
      case True
      with h(1) q show ?thesis by (auto simp: indexed_def)
    next
      case nin: False
      have "case contents (w_table w) k of None \<Rightarrow> True | Some r \<Rightarrow> l_md_path r = md"
        using False by (simp split: option.splits)
      from h(5) [OF this nin] show ?thesis by simp
    qed
    with old show ?thesis by blast
  qed
qed

lemma run_on_indexed:
  assumes inv: "invar (w_table w)"
    and rd: "read_entries env w md = Inr (f, es)" and dist: "distinct (map pe_id es)"
    and ops: "de_ops env = ops"
    and fnd: "lo_find ops (\<lambda>r. l_md_path r = md) 10000 (w_table w) = Inr existing"
    and few: "length existing < 10000"
    and ix: "indexed (contents (w_table w)) md (fst (resolve_owner f md)) es"
    and run: "daily_added_or_modified env md w = (Inr out, w')"
  shows "ho_upserted out = 0 \<and> ho_deleted out = 0 \<and> ho_skipped out = length es"
proof -
  note r = handler_run [OF inv rd dist ops fnd few indexed_regular [OF inv ix] run]
  have "count_where p xs = length xs" if "\<forall>x \<in> set xs. p x" for p and xs :: "parsed_entry list"
    using that by (induction xs) auto
  then have "ho_skipped out = length es"
    unfolding r(7) using ix by (simp add: indexed_def)
  moreover have "l_entry_id x \<in> pe_id ` set es" if "x \<in> set existing" for x
    using that find_rows [OF inv fnd] ix by (fastforce simp: indexed_def facts_def)
  then have "ho_deleted out = 0" unfolding r(8) by (simp add: count_where_zero_iff)
  ultimately show ?thesis using r(6) by simp
qed

end

text \<open>
  Once a file is indexed, running the handler again on the unchanged file embeds and
  deletes nothing: every entry is skipped.
\<close>

lemma rerun_skips_everything:
  assumes "lance_table (de_ops env) contents invar" and "invar (w_table w)"
    and "read_entries env w md = Inr (f, es)" and "distinct (map pe_id es)"
    and "lo_find (de_ops env) (\<lambda>r. l_md_path r = md) 10000 (w_table w) = Inr existing"
    and "length existing < 10000"
    and "indexed (contents (w_table w)) md (fst (resolve_owner f md)) es"
    and "daily_added_or_modified env md w = (Inr out, w')"
  shows "ho_upserted out = 0 \<and> ho_deleted out = 0 \<and> ho_skipped out = length es"
  by (rule lance_table.run_on_indexed [OF assms(1,2,3,4) refl assms(5-8)])

definition demo_indexed :: "unit lance_row list mem_world" where
  "demo_indexed = snd (daily_added_or_modified demo_env demo_episode demo_world)"

lemma rerun_skips_everything_witness:
  "\<exists>out w'. daily_added_or_modified demo_env demo_episode demo_indexed = (Inr out, w') \<and> ho_skipped out = 1"
proof -
  obtain out w' where run: "daily_added_or_modified demo_env demo_episode demo_world = (Inr out, w')"
    using demo_run by blast
  then have w': "demo_indexed = w'" by (simp add: demo_indexed_def)
  note h = lance_table.handler_run [OF demo_facts(1,2) demo_read demo_facts(3) refl demo_facts(4-6) run, folded w']
  have rd: "read_entries demo_env demo_indexed demo_episode = Inr (demo_file, [demo_entry])"
    using demo_read h(3) by (simp add: read_entries_def)
  have "\<not> isl (fst (daily_added_or_modified demo_env demo_episode demo_indexed))" by code_simp
  then obtain out2 w2 where run2: "daily_added_or_modified demo_env demo_episode demo_indexed = (Inr out2, w2)"
    by (metis prod.collapse sum.collapse(2))
  have "length (w_table demo_indexed) = 1" by code_simp
  then have "lo_find (de_ops demo_env) (\<lambda>r. l_md_path r = demo_episode) 10000 (w_table demo_indexed)
      = Inr (filter (\<lambda>r. l_md_path r = demo_episode) (w_table demo_indexed))"
    "length (filter (\<lambda>r. l_md_path r = demo_episode) (w_table demo_indexed)) < 10000"
    using length_filter_le [of "\<lambda>r. l_md_path r = demo_episode" "w_table demo_indexed"]
    by (simp_all add: demo_env_def list_env_def list_ops_def)
  from rerun_skips_everything [OF demo_facts(1) h(2) rd demo_facts(3) this h(1) run2] run2
  show ?thesis by simp
qed

section \<open>Two behaviours worth knowing\<close>

text \<open>
  The same owner writes the first entry of the day in two projects; each file gets the
  entry id the writer gives it.
\<close>

definition other_episode :: string where
  "other_episode = ''default_app/work/users/u1/episodes/episode-2026-05-12.md''"

definition two_projects :: "unit lance_row list mem_world" where
  "two_projects = \<lparr>w_files = (\<lambda>p. if p = demo_episode \<or> p = other_episode then Md_file demo_file else Md_missing),
                   w_table = []\<rparr>"

text \<open>
  The row id joins owner and entry id only, so indexing the second project's file
  replaces the row of the first: after both runs succeed the index holds a single row, of
  the second path, and the first file's entry cannot be found.
\<close>

lemma same_owner_two_projects_collide:
  "let w1 = snd (daily_added_or_modified demo_env demo_episode two_projects);
       w2 = snd (daily_added_or_modified demo_env other_episode w1)
   in map (\<lambda>r. (l_id r, l_md_path r)) (w_table w1) = [(''u1_ep_20260512_00000001'', demo_episode)] \<and>
      map (\<lambda>r. (l_id r, l_md_path r)) (w_table w2) = [(''u1_ep_20260512_00000001'', other_episode)]"
  by code_simp

text \<open>
  Removing a deprecation from the frontmatter is not carried over: the entry's digest
  is unchanged, so the row is skipped and keeps its mark, while an index rebuilt from the
  same file has none.
\<close>

lemma withdrawn_deprecation_stays:
  "let marked = demo_world\<lparr>w_files := (\<lambda>p. Md_file
          (demo_file\<lparr>f_deprecated := [(''ep_20260512_00000001'', ''ep_20260513_00000001'')]\<rparr>))\<rparr>;
       w1 = snd (daily_added_or_modified demo_env demo_episode marked);
       w2 = snd (daily_added_or_modified demo_env demo_episode (w1\<lparr>w_files := w_files demo_world\<rparr>));
       rebuilt = snd (daily_added_or_modified demo_env demo_episode demo_world)
   in map l_deprecated_by (w_table w2) = [Some ''ep_20260513_00000001''] \<and>
      map l_deprecated_by (w_table rebuilt) = [None]"
  by code_simp

end
