(* ===== verification/Cascade_Sync.thy ===== *)
theory Cascade_Sync
  imports Daily_Handler Index_Maintenance
begin

text \<open>
  The cascade as a whole: what \<open>CascadeOrchestrator.sync_once\<close>
  (\<open>memory/cascade/orchestrator.py\<close>) achieves. The locale \<open>handler_contract\<close> is the
  interface the worker relies on (\<open>handlers/base.py\<close>): a successful handler run brings the
  index of its path in line with the file and disturbs no other path. The convergence of a
  sync is proved once from the contract; the daily-log handler of \<open>Daily_Handler\<close> is shown
  to keep it. \<open>cascade_health\<close> is the orchestrator's health report.
\<close>

section \<open>The health report\<close>

record cascade_health =
  ch_healthy :: bool
  ch_reasons :: "reason list"
  ch_pending :: nat
  ch_failed_permanent :: nat
  ch_failed_retryable :: nat

definition cascade_health_of :: "worker_health \<Rightarrow> queue \<Rightarrow> cascade_health" where
  "cascade_health_of wh q =
     (let summary = queue_summary_of q; reasons = health_reasons wh
      in \<lparr>ch_healthy = (reasons = []), ch_reasons = reasons, ch_pending = qs_pending summary,
          ch_failed_permanent = qs_failed_permanent summary,
          ch_failed_retryable = qs_failed_retryable summary\<rparr>)"

section \<open>The contract of a handler\<close>

text \<open>
  \<open>agrees w k p\<close>: the index of kind \<open>k\<close> agrees with the file at \<open>p\<close>; \<open>missing w p\<close>: there is
  no such file; \<open>inv\<close>: the world is in order.
\<close>

locale handler_contract =
  fixes hs :: "'w handlers"
    and missing :: "'w \<Rightarrow> string \<Rightarrow> bool"
    and agrees :: "'w \<Rightarrow> string \<Rightarrow> string \<Rightarrow> bool"
    and inv :: "'w \<Rightarrow> bool"
  assumes upd_keeps: "hs k = Some h \<Longrightarrow> inv w \<Longrightarrow> handle_added_or_modified h p w = (res, w') \<Longrightarrow>
      inv w' \<and> missing w' = missing w \<and> (\<forall>k' q. (k', q) \<noteq> (k, p) \<and> agrees w k' q \<longrightarrow> agrees w' k' q)"
    and upd_ok: "hs k = Some h \<Longrightarrow> inv w \<Longrightarrow> handle_added_or_modified h p w = (Inr out, w') \<Longrightarrow> agrees w' k p"
    and upd_missing: "hs k = Some h \<Longrightarrow> inv w \<Longrightarrow>
      handle_added_or_modified h p w = (Inl (File_not_found m), w') \<Longrightarrow> missing w p"
    and del_keeps: "hs k = Some h \<Longrightarrow> inv w \<Longrightarrow> handle_deleted h p w = (res, w') \<Longrightarrow>
      inv w' \<and> missing w' = missing w \<and> (\<forall>k' q. (k', q) \<noteq> (k, p) \<and> agrees w k' q \<longrightarrow> agrees w' k' q)"
    and del_ok: "hs k = Some h \<Longrightarrow> inv w \<Longrightarrow> missing w p \<Longrightarrow>
      handle_deleted h p w = (Inr out, w') \<Longrightarrow> agrees w' k p"

text \<open>Rows recorded as done agree with the index; claimed deletions are of missing files.\<close>

definition index_faithful :: "('w \<Rightarrow> string \<Rightarrow> string \<Rightarrow> bool) \<Rightarrow> 'w cascade \<Rightarrow> bool" where
  "index_faithful agrees st \<longleftrightarrow>
     (\<forall>r \<in> set (c_queue st). status r = Done \<longrightarrow> agrees (c_world st) (kind r) (md_path r))"

definition deletions_real :: "('w \<Rightarrow> string \<Rightarrow> bool) \<Rightarrow> 'w cascade \<Rightarrow> bool" where
  "deletions_real missing st \<longleftrightarrow>
     (\<forall>r \<in> set (c_queue st). status r \<in> {Pending, Processing} \<and> change_type r = Deleted \<longrightarrow>
        missing (c_world st) (md_path r))"

context handler_contract
begin

definition others_kept :: "string \<Rightarrow> string \<Rightarrow> 'w \<Rightarrow> 'w \<Rightarrow> bool" where
  "others_kept k p w w' \<longleftrightarrow> inv w' \<and> missing w' = missing w \<and>
     (\<forall>k' q. (k', q) \<noteq> (k, p) \<and> agrees w k' q \<longrightarrow> agrees w' k' q)"

lemma others_kept_trans: "others_kept k p w w1 \<Longrightarrow> others_kept k p w1 w2 \<Longrightarrow> others_kept k p w w2"
  by (auto simp: others_kept_def)

lemma run_handler_contract:
  assumes "hs (kind row) = Some h" and "inv w"
    and "change_type row = Deleted \<Longrightarrow> missing w (md_path row)"
    and "run_handler h row w = (res, w')"
  shows "others_kept (kind row) (md_path row) w w' \<and> (\<not> isl res \<longrightarrow> agrees w' (kind row) (md_path row))"
proof (cases "change_type row = Deleted")
  case True
  then have "handle_deleted h (md_path row) w = (res, w')" using assms(4) by (simp add: run_handler_def)
  with del_keeps [OF assms(1,2)] del_ok [OF assms(1,2) assms(3) [OF True]] show ?thesis
    by (cases res) (auto simp: others_kept_def)
next
  case False
  obtain res1 w1 where u: "handle_added_or_modified h (md_path row) w = (res1, w1)" by fastforce
  have k1: "others_kept (kind row) (md_path row) w w1"
    using upd_keeps [OF assms(1,2) u] by (simp add: others_kept_def)
  show ?thesis
  proof (cases "\<exists>m. res1 = Inl (File_not_found m)")
    case fnf: True
    then obtain m where m: "res1 = Inl (File_not_found m)" by blast
    have d: "handle_deleted h (md_path row) w1 = (res, w')"
      using assms(4) False u m by (simp add: run_handler_def)
    have inv1: "inv w1" and "missing w1 (md_path row)"
      using k1 upd_missing [OF assms(1,2)] u m by (auto simp: others_kept_def)
    then have "others_kept (kind row) (md_path row) w1 w' \<and>
        (\<not> isl res \<longrightarrow> agrees w' (kind row) (md_path row))"
      using del_keeps [OF assms(1) inv1 d] del_ok [OF assms(1) inv1] d
      by (cases res) (auto simp: others_kept_def)
    with k1 others_kept_trans show ?thesis by blast
  next
    case no: False
    have "(res, w') = (res1, w1)"
      using assms(4) False u no by (auto simp: run_handler_def split: sum.splits handler_exc.splits)
    with k1 upd_ok [OF assms(1,2)] u show ?thesis by (cases res1) auto
  qed
qed

lemma attempt_loop_contract:
  assumes "hs (kind row) = Some h"
  shows "inv w \<Longrightarrow> (change_type row = Deleted \<Longrightarrow> missing w (md_path row)) \<Longrightarrow>
    attempt_loop h row left rc w = (v, w') \<Longrightarrow>
    others_kept (kind row) (md_path row) w w' \<and>
    ((\<exists>out. v = Succeeded out) \<longrightarrow> agrees w' (kind row) (md_path row))"
proof (induction left arbitrary: rc w)
  case 0
  obtain res w1 where r: "run_handler h row w = (res, w1)" by fastforce
  from run_handler_contract [OF assms 0(1,2) r] 0(3) r show ?case
    by (auto split: sum.splits handler_exc.splits)
next
  case (Suc left)
  obtain res w1 where r: "run_handler h row w = (res, w1)" by fastforce
  note c = run_handler_contract [OF assms Suc.prems(1,2) r]
  show ?case
  proof (cases "\<exists>m. res = Inl (External_service_error m)")
    case True
    then have "attempt_loop h row left (Suc rc) w1 = (v, w')" using Suc.prems(3) r by auto
    moreover have "inv w1" "change_type row = Deleted \<Longrightarrow> missing w1 (md_path row)"
      using c Suc.prems(2) by (auto simp: others_kept_def)
    ultimately show ?thesis using Suc.IH c others_kept_trans by blast
  next
    case False
    with Suc.prems(3) r c show ?thesis by (auto split: sum.splits handler_exc.splits)
  qed
qed

lemma handler_phase_contract:
  assumes "inv w" and "change_type row = Deleted \<Longrightarrow> missing w (md_path row)"
    and "handler_phase hs mr row w = (s, w')"
  shows "others_kept (kind row) (md_path row) w w' \<and>
    ((\<exists>out. s = Ran (Succeeded out)) \<longrightarrow> agrees w' (kind row) (md_path row))"
proof (cases "hs (kind row)")
  case (Some h)
  with assms attempt_loop_contract [OF Some assms(1,2)] show ?thesis
    by (auto simp: handler_phase_def others_kept_def split: if_splits prod.splits)
qed (use assms in \<open>simp add: handler_phase_def others_kept_def\<close>)

end

section \<open>What a drain preserves\<close>

text \<open>The rows still claimed are exactly those the rest of the batch holds.\<close>

definition claimed_in :: "change_row list \<Rightarrow> queue \<Rightarrow> bool" where
  "claimed_in rows q \<longleftrightarrow>
     distinct (map md_path rows) \<and> set rows \<subseteq> set q \<and>
     (\<forall>r \<in> set q. status r = Processing \<longleftrightarrow> r \<in> set rows)"

context handler_contract
begin

definition sound :: "'w cascade \<Rightarrow> bool" where
  "sound st \<longleftrightarrow> wf_queue (c_queue st) \<and> inv (c_world st) \<and>
     index_faithful agrees st \<and> deletions_real missing st"

lemma process_one_sound:
  assumes st: "sound st" and cl: "claimed_in (row # rows) (c_queue st)"
    and st': "st' = snd (process_one clk hs mr row st)"
  shows "sound st' \<and> claimed_in rows (c_queue st') \<and> missing (c_world st') = missing (c_world st)"
proof -
  obtain s w' where ph: "handler_phase hs mr row (c_world st) = (s, w')" by fastforce
  have q': "c_queue st' = settle (clk (c_reads st)) row s (c_queue st)" and cw: "c_world st' = w'"
    by (simp_all add: st' process_one_eq Let_def ph)
  have row: "row \<in> set (c_queue st)" "status row = Processing"
    using cl by (auto simp: claimed_in_def)
  have wf: "wf_queue (c_queue st)" using st by (simp add: sound_def)
  have del: "change_type row = Deleted \<Longrightarrow> missing (c_world st) (md_path row)"
    using st row by (simp add: sound_def deletions_real_def)
  have "inv (c_world st)" using st by (simp add: sound_def)
  from handler_phase_contract [OF this del ph]
  have keep: "inv w'" "missing w' = missing (c_world st)"
    "\<And>k' q. (k', q) \<noteq> (kind row, md_path row) \<Longrightarrow> agrees (c_world st) k' q \<Longrightarrow> agrees w' k' q"
    and ok: "(\<exists>out. s = Ran (Succeeded out)) \<Longrightarrow> agrees w' (kind row) (md_path row)"
    by (auto simp: others_kept_def)
  have cases: "r = settled (clk (c_reads st)) row s row \<or> (r \<in> set (c_queue st) \<and> md_path r \<noteq> md_path row)"
    if rq: "r \<in> set (c_queue st')" for r
  proof -
    obtain x where x: "x \<in> set (c_queue st)"
      and r: "r = (if md_path x = md_path row \<and> status x = Processing
                   then settled (clk (c_reads st)) row s x else x)"
      using rq unfolding q' settle_eq set_update_where image_iff by blast
    have "md_path x = md_path row \<Longrightarrow> x = row" using wf_queue_same_path [OF wf x row(1)] .
    with x r row show ?thesis by auto
  qed
  have "agrees w' (kind r) (md_path r)" if "r \<in> set (c_queue st')" "status r = Done" for r
    using cases [OF that(1)]
  proof
    assume r: "r = settled (clk (c_reads st)) row s row"
    with that(2) have "\<exists>out. s = Ran (Succeeded out)"
      by (auto simp: settled_status split: settlement.splits verdict.splits)
    with ok r show ?thesis by simp
  next
    assume r: "r \<in> set (c_queue st) \<and> md_path r \<noteq> md_path row"
    with st that(2) have "agrees (c_world st) (kind r) (md_path r)"
      by (simp add: sound_def index_faithful_def)
    with keep(3) r show ?thesis by simp
  qed
  moreover have "missing w' (md_path r)"
    if "r \<in> set (c_queue st')" "status r \<in> {Pending, Processing}" "change_type r = Deleted" for r
    using cases [OF that(1)]
  proof
    assume "r = settled (clk (c_reads st)) row s row"
    with that(2) show ?thesis by (auto simp: settled_status split: settlement.splits verdict.splits)
  next
    assume "r \<in> set (c_queue st) \<and> md_path r \<noteq> md_path row"
    with st that(2,3) keep(2) show ?thesis by (simp add: sound_def deletions_real_def)
  qed
  ultimately have "sound st'"
    using keep(1) wf wf_queue_settle
    by (auto simp: sound_def index_faithful_def deletions_real_def cw q')
  moreover have "claimed_in rows (c_queue st')"
    unfolding claimed_in_def
  proof (intro conjI ballI subsetI)
    show "distinct (map md_path rows)" using cl by (simp add: claimed_in_def)
    have other: "md_path r \<noteq> md_path row" if "r \<in> set rows" for r
      using cl that by (auto simp: claimed_in_def image_iff)
    show "r \<in> set (c_queue st')" if r: "r \<in> set rows" for r
    proof -
      have "r \<in> set (c_queue st)" using cl r by (auto simp: claimed_in_def)
      then show ?thesis using other [OF r] by (force simp: q' settle_eq set_update_where)
    qed
    fix r assume r: "r \<in> set (c_queue st')"
    show "status r = Processing \<longleftrightarrow> r \<in> set rows"
      using cases [OF r]
    proof
      assume e: "r = settled (clk (c_reads st)) row s row"
      then have "status r \<noteq> Processing"
        by (simp add: settled_status split: settlement.splits verdict.splits)
      moreover have "md_path r = md_path row" using e by simp
      ultimately show ?thesis using other by blast
    next
      assume "r \<in> set (c_queue st) \<and> md_path r \<noteq> md_path row"
      with cl show ?thesis by (auto simp: claimed_in_def)
    qed
  qed
  ultimately show ?thesis using keep(2) by (simp add: cw)
qed

lemma process_batch_sound:
  "sound st \<Longrightarrow> claimed_in rows (c_queue st) \<Longrightarrow> st' = snd (process_batch clk hs mr rows st) \<Longrightarrow>
     sound st' \<and> claimed_in [] (c_queue st') \<and> missing (c_world st') = missing (c_world st)"
proof (induction rows arbitrary: st)
  case (Cons row rows)
  from process_one_sound [OF Cons.prems(1,2) refl, of clk mr]
    Cons.IH [of "snd (process_one clk hs mr row st)"] Cons.prems(3)
  show ?case by (simp add: case_prod_unfold)
qed simp

end

lemma paths_settle [simp]: "map md_path (settle now row s q) = map md_path q"
  by (simp add: settle_eq map_update_where)

lemma paths_process_one [simp]:
  "map md_path (c_queue (snd (process_one clk hs mr row st))) = map md_path (c_queue st)"
  by (simp add: process_one_eq Let_def)

lemma paths_process_batch [simp]:
  "map md_path (c_queue (snd (process_batch clk hs mr rows st))) = map md_path (c_queue st)"
proof (induction rows arbitrary: st)
  case (Cons row rows)
  from Cons.IH [of "snd (process_one clk hs mr row st)"] show ?case by (simp add: case_prod_unfold)
qed simp

context handler_contract
begin

lemma claim_sound:
  assumes st: "sound st" and cl: "claimed_in [] (c_queue st)"
    and c: "claim_pending_batch now n kinds (c_queue st) = (batch, q1)"
  shows "sound (st\<lparr>c_queue := q1, c_reads := m\<rparr>) \<and> claimed_in batch q1 \<and>
    map md_path q1 = map md_path (c_queue st)"
proof -
  let ?q = "c_queue st" and ?p = "claim_prefix n kinds (c_queue st)"
  have wf: "wf_queue ?q" using st by (simp add: sound_def)
  have batch: "batch = map (claim_row now) ?p"
    and q1: "q1 = update_where (\<lambda>r. r \<in> set ?p) (claim_row now) ?q"
    using claim_pending_batch_eq [OF wf, of now n kinds] c by simp_all
  have wf1: "wf_queue q1" using wf_queue_claim_pending_batch [OF wf, of now n kinds] c by simp
  have np: "status r \<noteq> Processing" if "r \<in> set ?q" for r
    using cl that by (simp add: claimed_in_def)
  have pend: "r \<in> set ?q \<and> status r = Pending" if "r \<in> set ?p" for r
    using claim_prefix_subset [OF that] by (simp add: claimable_def)
  have old: "(\<exists>x \<in> set ?p. r = claim_row now x) \<or> (r \<in> set ?q \<and> r \<notin> set ?p)" if "r \<in> set q1" for r
    using that by (auto simp: q1 set_update_where)
  have "agrees (c_world st) (kind r) (md_path r)" if "r \<in> set q1" "status r = Done" for r
    using old [OF that(1)] that(2) st by (auto simp: sound_def index_faithful_def)
  then have "index_faithful agrees (st\<lparr>c_queue := q1, c_reads := m\<rparr>)"
    by (simp add: index_faithful_def)
  moreover have "missing (c_world st) (md_path r)"
    if "r \<in> set q1" "status r \<in> {Pending, Processing}" "change_type r = Deleted" for r
    using old [OF that(1)]
  proof
    assume "\<exists>x \<in> set ?p. r = claim_row now x"
    then obtain x where x: "x \<in> set ?p" "r = claim_row now x" by blast
    with pend [OF x(1)] st that(3) show ?thesis by (simp add: sound_def deletions_real_def)
  next
    assume "r \<in> set ?q \<and> r \<notin> set ?p"
    with st that(2,3) show ?thesis by (simp add: sound_def deletions_real_def)
  qed
  then have "deletions_real missing (st\<lparr>c_queue := q1, c_reads := m\<rparr>)"
    by (simp add: deletions_real_def)
  moreover have "claimed_in batch q1"
    unfolding claimed_in_def
  proof (intro conjI ballI)
    have "distinct (map md_path ?p)"
      using wf by (intro distinct_map_claim_prefix) (simp add: wf_queue_def)
    then show "distinct (map md_path batch)" by (simp add: batch o_def)
    show "set batch \<subseteq> set q1" using pend by (force simp: batch q1 set_update_where)
    fix r assume "r \<in> set q1"
    then show "status r = Processing \<longleftrightarrow> r \<in> set batch"
      using old [of r] np by (auto simp: batch)
  qed
  moreover have "map md_path q1 = map md_path ?q" by (simp add: q1 map_update_where)
  ultimately show ?thesis using st wf1 by (simp add: sound_def)
qed

lemma drain_once_sound:
  assumes "sound st" and "claimed_in [] (c_queue st)"
    and d: "drain_once clk hs bs mr kinds st = (x, st')"
  shows "sound st' \<and> claimed_in [] (c_queue st') \<and> missing (c_world st') = missing (c_world st)
       \<and> map md_path (c_queue st') = map md_path (c_queue st)"
proof -
  obtain batch q1 where c: "claim_pending_batch (clk (c_reads st)) bs kinds (c_queue st) = (batch, q1)"
    by fastforce
  let ?st1 = "st\<lparr>c_queue := q1, c_reads := Suc (c_reads st)\<rparr>"
  note s = claim_sound [OF assms(1,2) c, of "Suc (c_reads st)"]
  have "st' = snd (process_batch clk hs mr batch ?st1)"
    using d c by (cases "batch = []") (auto simp: drain_once_def Let_def split: prod.splits)
  moreover have "sound ?st1" "claimed_in batch (c_queue ?st1)" using s by simp_all
  ultimately have "sound st' \<and> claimed_in [] (c_queue st') \<and> missing (c_world st') = missing (c_world ?st1)"
    and "map md_path (c_queue st') = map md_path (c_queue ?st1)"
    using process_batch_sound [of ?st1 batch st' clk mr] by (blast, simp)
  with s show ?thesis by simp
qed

lemma drain_until_empty_sound:
  "sound st \<Longrightarrow> claimed_in [] (c_queue st) \<Longrightarrow>
     drain_until_empty clk hs bs mr passes kinds st = (n, st') \<Longrightarrow>
     sound st' \<and> claimed_in [] (c_queue st') \<and> missing (c_world st') = missing (c_world st)
       \<and> map md_path (c_queue st') = map md_path (c_queue st)"
proof (induction passes arbitrary: st n)
  case (Suc passes)
  obtain k ks st1 where d: "drain_once clk hs bs mr kinds st = ((k, ks), st1)" by (metis surj_pair)
  note one = drain_once_sound [OF Suc.prems(1,2) d]
  show ?case
  proof (cases "k = 0")
    case True
    with Suc.prems(3) d one show ?thesis by simp
  next
    case False
    with Suc.prems(3) d obtain m where "drain_until_empty clk hs bs mr passes kinds st1 = (m, st')"
      by (auto split: prod.splits)
    with Suc.IH [of st1] one show ?thesis by simp
  qed
qed simp

end

section \<open>A sync leaves the index in agreement with the disk\<close>

text \<open>
  What the queue has to say about the disk before the sweep: a row recorded as done and up
  to date is right, a processed deletion of an absent path too, and no deletion is pending
  for a file the sweep would call unchanged.
\<close>

definition coherent ::
  "('w \<Rightarrow> string \<Rightarrow> string \<Rightarrow> bool) \<Rightarrow> fs \<Rightarrow> 'w cascade \<Rightarrow> bool" where
  "coherent agrees files st \<longleftrightarrow>
     (\<forall>r \<in> set (c_queue st).
        (case on_disk files (md_path r) of
           Some m \<Rightarrow> up_to_date r m \<longrightarrow> (status r = Done \<longrightarrow> agrees (c_world st) (kind r) (md_path r))
             \<and> (status r = Pending \<longrightarrow> change_type r \<noteq> Deleted)
         | None \<Rightarrow> tombstone r \<longrightarrow> agrees (c_world st) (kind r) (md_path r)) \<and>
        status r \<noteq> Processing)"

context handler_contract
begin

lemma sound_after_scan:
  assumes wf: "wf_queue (c_queue st)" and iv: "inv (c_world st)"
    and files: "distinct (map fst files)" and co: "coherent agrees files st"
    and gone: "\<forall>r \<in> set (c_queue st). on_disk files (md_path r) = None \<longrightarrow> missing (c_world st) (md_path r)"
    and scan: "scan_once clk files None (c_queue st) = (Inr ds, q1)"
  shows "sound (st\<lparr>c_queue := q1, c_reads := m\<rparr>) \<and> claimed_in [] q1"
proof -
  have wf1: "wf_queue q1" using wf_queue_scan_once [OF wf, of clk files None] scan by simp
  have row: "queue_row (md_path r) q1 = Some r" if "r \<in> set q1" for r
    using wf1 that by (simp add: wf_queue_def row_at_in_set)
  note sw = scan_swept [OF wf files scan]
  have coh: "(case on_disk files (md_path r) of
           Some m \<Rightarrow> up_to_date r m \<longrightarrow> (status r = Done \<longrightarrow> agrees (c_world st) (kind r) (md_path r))
             \<and> (status r = Pending \<longrightarrow> change_type r \<noteq> Deleted)
         | None \<Rightarrow> tombstone r \<longrightarrow> agrees (c_world st) (kind r) (md_path r))" "status r \<noteq> Processing"
    "on_disk files p = None \<longrightarrow> missing (c_world st) p"
    if "queue_row p (c_queue st) = Some r" for p r
    using co gone row_at_SomeD [OF that] by (auto simp: coherent_def)
  have fin: "agrees (c_world st) (kind r) (md_path r)" if r: "r \<in> set q1" "status r = Done" for r
    using sw [of "md_path r"] coh(1) [of "md_path r" r] row [OF r(1)] r(2)
    by (auto simp: swept_def queued_def split: option.splits if_splits)
  have nproc: "status r \<noteq> Processing" if r: "r \<in> set q1" for r
    using sw [of "md_path r"] coh(2) [of "md_path r" r] row [OF r]
    by (auto simp: swept_def queued_def split: option.splits if_splits)
  have del: "missing (c_world st) (md_path r)" if r: "r \<in> set q1" "status r = Pending" "change_type r = Deleted" for r
    using sw [of "md_path r"] coh(1) [of "md_path r" r] coh(3) [of "md_path r"] row [OF r(1)] r(2,3)
    by (auto simp: swept_def queued_def tombstone_def split: option.splits if_splits)
  show ?thesis
    using wf1 iv fin nproc del
    by (auto simp: sound_def index_faithful_def deletions_real_def claimed_in_def)
qed

lemma sync_converges:
  assumes wf: "wf_queue (c_queue st)" and iv: "inv (c_world st)"
    and files: "distinct (map fst (files_of (c_world st)))"
    and co: "coherent agrees (files_of (c_world st)) st"
    and gone: "\<forall>r \<in> set (c_queue st). on_disk (files_of (c_world st)) (md_path r) = None \<longrightarrow>
      missing (c_world st) (md_path r)"
    and sync: "sync_once clk hs bs mr None files_of st = (Inr n, st')"
    and room: "0 < bs" "length (c_queue st') \<le> MAX_PASSES * bs"
    and fine: "\<forall>r \<in> set (c_queue st'). status r \<noteq> Failed"
  shows "(\<forall>r \<in> set (c_queue st'). status r = Done \<and> agrees (c_world st') (kind r) (md_path r)) \<and>
    (\<forall>p. on_disk (files_of (c_world st)) p \<noteq> None \<longrightarrow> p \<in> md_path ` set (c_queue st'))"
proof -
  let ?fs = "files_of (c_world st)"
  obtain ds q1 where scan: "scan_once (\<lambda>n. clk (c_reads st + n)) ?fs None (c_queue st) = (Inr ds, q1)"
    and drain: "drain_until_empty clk hs bs mr MAX_PASSES None
      (st\<lparr>c_queue := q1, c_reads := c_reads st + length ds\<rparr>) = (n, st')"
    using sync by (auto simp: sync_once_def split: prod.splits sum.splits)
  let ?st1 = "st\<lparr>c_queue := q1, c_reads := c_reads st + length ds\<rparr>"
  have s1: "sound ?st1" "claimed_in [] (c_queue ?st1)"
    using sound_after_scan [OF wf iv files co gone scan] by simp_all
  note after = drain_until_empty_sound [OF s1 drain]
  have paths: "map md_path (c_queue st') = map md_path q1" using after by simp
  have len: "length (c_queue st') = length q1" using arg_cong [OF paths, of length] by simp
  have "count_where (claimable None) q1 \<le> MAX_PASSES * bs"
    using count_where_le [of "claimable None" q1] len room(2) by simp
  with drain_until_empty_queue [OF _ room(1) _ drain] s1(1)
  have "count_where (claimable None) (c_queue st') = 0" by (simp add: sound_def)
  then have "status r \<noteq> Pending" if "r \<in> set (c_queue st')" for r
    using that by (simp add: count_where_zero_iff claimable_def)
  moreover have "status r \<noteq> Processing" if "r \<in> set (c_queue st')" for r
    using after that by (simp add: claimed_in_def)
  ultimately have fin: "status r = Done" if "r \<in> set (c_queue st')" for r
    using fine that by (cases "status r") auto
  have "p \<in> md_path ` set (c_queue st')" if "on_disk ?fs p \<noteq> None" for p
  proof -
    have "queue_row p q1 \<noteq> None"
      using scan_swept [OF wf files scan, of p] that
      by (auto simp: swept_def queued_def split: option.splits if_splits)
    then have "p \<in> set (map md_path q1)" by (auto simp: row_at_None_iff)
    then show ?thesis unfolding paths [symmetric] by simp
  qed
  with fin after show ?thesis by (simp add: sound_def index_faithful_def)
qed

end

section \<open>The daily-log handlers keep the contract\<close>

text \<open>
  One table per kind. \<open>daily_handlers\<close> is the handler dict of the daily-log kinds over the
  in-memory tables: \<open>cfg k\<close> gives the content keys and the column builder of kind \<open>k\<close>,
  whose only failure is the embedding service's.
\<close>

type_synonym 'c memory = "(string \<Rightarrow> 'c lance_row list) mem_world"

definition kind_view :: "string \<Rightarrow> 'c memory \<Rightarrow> 'c lance_row list mem_world" where
  "kind_view k w = \<lparr>w_files = w_files w, w_table = w_table w k\<rparr>"

definition on_kind :: "string \<Rightarrow> 'c lance_row list mem_world handler_fun \<Rightarrow> 'c memory handler_fun" where
  "on_kind k run md w =
     (case run md (kind_view k w) of
        (res, w') \<Rightarrow> (res, w\<lparr>w_table := (w_table w)(k := w_table w')\<rparr>))"

definition service_columns :: "(structured \<Rightarrow> string + 'c) \<Rightarrow> structured \<Rightarrow> handler_exc + 'c" where
  "service_columns cols s = (case cols s of Inl m \<Rightarrow> Inl (External_service_error m) | Inr c \<Rightarrow> Inr c)"

type_synonym 'c daily_cfg = "string \<Rightarrow> (string list \<times> (structured \<Rightarrow> string + 'c)) option"

definition daily_envs ::
  "(string \<Rightarrow> structured) \<Rightarrow> (string \<Rightarrow> string) \<Rightarrow> 'c daily_cfg \<Rightarrow> string \<Rightarrow>
   ('c, 'c lance_row list) daily_env option" where
  "daily_envs structure digest cfg k =
     map_option (\<lambda>(keys, cols). list_env k keys structure digest (service_columns cols)) (cfg k)"

definition daily_handlers ::
  "(string \<Rightarrow> structured) \<Rightarrow> (string \<Rightarrow> string) \<Rightarrow> 'c daily_cfg \<Rightarrow> 'c memory handlers" where
  "daily_handlers structure digest cfg k =
     map_option (\<lambda>env. \<lparr>handle_added_or_modified = on_kind k (daily_added_or_modified env),
                        handle_deleted = on_kind k (daily_deleted env)\<rparr>)
       (daily_envs structure digest cfg k)"

definition file_missing :: "'t mem_world \<Rightarrow> string \<Rightarrow> bool" where
  "file_missing w p \<longleftrightarrow> w_files w p = Md_missing"

text \<open>The rows of a path agree with its file, or are none if there is no file.\<close>

definition table_agrees :: "('c, 'c lance_row list) daily_env \<Rightarrow> 'c lance_row list mem_world \<Rightarrow> string \<Rightarrow> bool" where
  "table_agrees env w p \<longleftrightarrow>
     (if file_missing w p then \<forall>k i s. map_option facts (list_contents (w_table w) k) \<noteq> Some (p, i, s)
      else \<exists>f es. read_entries env w p = Inr (f, es)
             \<and> indexed (list_contents (w_table w)) p (fst (resolve_owner f p)) es)"

definition index_agrees ::
  "(string \<Rightarrow> structured) \<Rightarrow> (string \<Rightarrow> string) \<Rightarrow> 'c daily_cfg \<Rightarrow> 'c memory \<Rightarrow> string \<Rightarrow> string \<Rightarrow> bool" where
  "index_agrees structure digest cfg w k p =
     (case daily_envs structure digest cfg k of
        None \<Rightarrow> False
      | Some env \<Rightarrow> table_agrees env (kind_view k w) p)"

text \<open>
  A regular world: row ids tell the path of their entry (the condition two projects of one
  owner break), entry ids are distinct within a file, and no path has 10,000 entries.
\<close>

definition regular_table ::
  "(string \<Rightarrow> string) \<Rightarrow> (string \<Rightarrow> string) \<Rightarrow> 'c lance_row list \<Rightarrow> bool" where
  "regular_table owner_of path_of t \<longleftrightarrow>
     list_invar t \<and>
     (\<forall>k p i s. map_option facts (list_contents t k) = Some (p, i, s) \<longrightarrow>
        k = row_id (owner_of p) i \<and> path_of k = p) \<and>
     (\<forall>p. count_where (\<lambda>r. l_md_path r = p) t < 10000)"

definition regular_files ::
  "(string \<Rightarrow> string) \<Rightarrow> (string \<Rightarrow> string) \<Rightarrow> ('c, 't) daily_env \<Rightarrow> 't mem_world \<Rightarrow> bool" where
  "regular_files owner_of path_of env w \<longleftrightarrow>
     (\<forall>p f es. read_entries env w p = Inr (f, es) \<longrightarrow>
        fst (resolve_owner f p) = owner_of p \<and> distinct (map pe_id es) \<and> length es < 10000 \<and>
        (\<forall>e \<in> set es. path_of (row_id (owner_of p) (pe_id e)) = p))"

definition regular_world ::
  "(string \<Rightarrow> structured) \<Rightarrow> (string \<Rightarrow> string) \<Rightarrow> 'c daily_cfg \<Rightarrow> (string \<Rightarrow> string) \<Rightarrow>
   (string \<Rightarrow> string) \<Rightarrow> 'c memory \<Rightarrow> bool" where
  "regular_world structure digest cfg owner_of path_of w \<longleftrightarrow>
     (\<forall>k env. daily_envs structure digest cfg k = Some env \<longrightarrow>
        regular_table owner_of path_of (w_table w k) \<and> regular_files owner_of path_of env (kind_view k w))"

subsection \<open>One table\<close>

lemma count_path_card:
  assumes "list_invar t"
  shows "count_where (\<lambda>r. l_md_path r = p) t
       = card {k. \<exists>i s. map_option facts (list_contents t k) = Some (p, i, s)}"
proof -
  let ?t = "filter (\<lambda>r. l_md_path r = p) t"
  have "distinct (map l_id ?t)" using assms by (simp add: list_invar_def distinct_map_filter)
  then have "card (l_id ` set ?t) = length ?t" using distinct_card [of "map l_id ?t"] by simp
  moreover have "(\<exists>i s. map_option facts (list_contents t k) = Some (p, i, s)) \<longleftrightarrow> k \<in> l_id ` set ?t" for k
  proof -
    have row: "list_contents t k = Some r \<longleftrightarrow> r \<in> set t \<and> l_id r = k" for r
      using assms by (simp add: list_contents_def list_invar_def row_at_Some_iff)
    have "(\<exists>i s. map_option facts (list_contents t k) = Some (p, i, s)) \<longleftrightarrow>
        (\<exists>r. list_contents t k = Some r \<and> l_md_path r = p)"
      by (cases "list_contents t k") (simp_all add: facts_def)
    also have "\<dots> \<longleftrightarrow> k \<in> l_id ` set ?t"
      unfolding row image_iff set_filter by blast
    finally show ?thesis .
  qed
  then have "l_id ` set ?t = {k. \<exists>i s. map_option facts (list_contents t k) = Some (p, i, s)}" by blast
  ultimately show ?thesis by (simp add: count_where_def)
qed

lemma read_entries_cong: "w_files w' = w_files w \<Longrightarrow> read_entries env w' md = read_entries env w md"
  by (simp add: read_entries_def)

lemma regular_files_cong: "w_files w' = w_files w \<Longrightarrow> regular_files ow pa env w' = regular_files ow pa env w"
  by (simp add: regular_files_def read_entries_def)

lemma service_columns_not_found: "service_columns cols s \<noteq> Inl (File_not_found m)"
  by (simp add: service_columns_def split: sum.splits)

lemma embed_not_found:
  assumes "de_columns env = service_columns cols"
  shows "embed_entries env owner scope md es \<noteq> Inl (File_not_found m)"
  by (induction es) (auto simp: build_row_def assms service_columns_not_found split: sum.splits)

lemma parts_not_found: "content_parts keys s \<noteq> Inl (File_not_found m)"
  by (induction keys) (auto simp: Let_def split: sum.splits option.splits prod.splits if_splits)

lemma parse_not_found: "parse_entries env es \<noteq> Inl (File_not_found m)"
  by (induction es) (auto simp: content_sha256_def parts_not_found split: sum.splits)

lemma apply_list_ops: "\<exists>t'. apply_lance_changes list_ops us ds md t = (Inr (), t')"
  by (simp add: apply_lance_changes_def list_ops_def)

lemma daily_upd_fails:
  assumes "de_ops env = list_ops" and "de_columns env = service_columns cols"
    and "daily_added_or_modified env md w = (Inl e, w')"
  shows "w' = w \<and> (e = File_not_found m \<longrightarrow> file_missing w md)"
proof (cases "read_entries env w md")
  case (Inl x)
  with assms(3) show ?thesis
    by (auto simp: daily_added_or_modified_def read_entries_def file_missing_def parse_not_found
        split: md_read.splits sum.splits)
next
  case (Inr fes)
  obtain f es where fes: "fes = (f, es)" by fastforce
  let ?ex = "take 10000 (filter (\<lambda>r. l_md_path r = md) (w_table w))"
  obtain tb sk where d: "diff_entries es ?ex = (tb, sk)" by fastforce
  have f: "lo_find list_ops (\<lambda>r. l_md_path r = md) 10000 (w_table w) = Inr ?ex" by (simp add: list_ops_def)
  show ?thesis
  proof (cases "embed_entries env (resolve_owner f md) (resolve_scope md) md tb")
    case (Inl x)
    with assms(3) Inr fes d f show ?thesis
      by (auto simp: daily_added_or_modified_def assms(1) embed_not_found [OF assms(2)])
  next
    case (Inr us)
    obtain t' where "apply_lance_changes list_ops us
        (filter (\<lambda>i. i \<notin> pe_id ` set es) (map l_entry_id ?ex)) md (w_table w) = (Inr (), t')"
      using apply_list_ops by blast
    with Inr assms(3) \<open>read_entries env w md = Inr fes\<close> fes d f show ?thesis
      by (auto simp: daily_added_or_modified_def assms(1) Let_def)
  qed
qed

lemma regular_find:
  assumes "regular_table ow pa t"
  shows "lo_find list_ops (\<lambda>r. l_md_path r = md) 10000 t = Inr (filter (\<lambda>r. l_md_path r = md) t)"
    and "length (filter (\<lambda>r. l_md_path r = md) t) < 10000"
  using assms by (auto simp: regular_table_def count_where_def list_ops_def less_imp_le)

lemma regular_ids:
  assumes "regular_table ow pa t" and "\<forall>e \<in> set es. pa (row_id (ow md) (pe_id e)) = md"
  shows "ids_regular (list_contents t) md (ow md) es"
  unfolding ids_regular_def
proof (intro conjI allI impI ballI)
  have reg: "k = row_id (ow (l_md_path r)) (l_entry_id r) \<and> pa k = l_md_path r"
    if "list_contents t k = Some r" for k r
    using assms(1) that by (simp add: regular_table_def facts_def)
  show "list_contents t k = Some r \<and> l_md_path r = md \<Longrightarrow> k = row_id (ow md) (l_entry_id r)" for k r
    using reg by blast
  show "e \<in> set es \<Longrightarrow> list_contents t (row_id (ow md) (pe_id e)) = Some r \<Longrightarrow> l_md_path r = md" for e r
    using reg assms(2) by force
qed

lemma table_agrees_cong:
  assumes "w_files w' = w_files w"
    and "\<And>k i s. map_option facts (list_contents (w_table w') k) = Some (q, i, s) \<longleftrightarrow>
           map_option facts (list_contents (w_table w) k) = Some (q, i, s)"
  shows "table_agrees env w' q = table_agrees env w q"
  using assms by (simp add: table_agrees_def file_missing_def indexed_def read_entries_def)

lemma regular_rows:
  assumes t: "regular_table ow pa t" and inv: "list_invar t'"
    and other: "\<And>k q i s. q \<noteq> md \<Longrightarrow> map_option facts (list_contents t' k) = Some (q, i, s) \<longleftrightarrow>
      map_option facts (list_contents t k) = Some (q, i, s)"
    and own: "\<And>k i s. map_option facts (list_contents t' k) = Some (md, i, s) \<Longrightarrow>
      k = row_id (ow md) i \<and> pa k = md"
    and few: "count_where (\<lambda>r. l_md_path r = md) t' < 10000"
  shows "regular_table ow pa t'"
  unfolding regular_table_def
proof (intro conjI allI impI)
  show "list_invar t'" by (rule inv)
  have reg: "k = row_id (ow p) i \<and> pa k = p" if "map_option facts (list_contents t' k) = Some (p, i, s)" for k p i s
  proof (cases "p = md")
    case True
    then show ?thesis using own that by blast
  next
    case False
    with that t show ?thesis unfolding other [OF False] regular_table_def by blast
  qed
  show "map_option facts (list_contents t' k) = Some (p, i, s) \<Longrightarrow> k = row_id (ow p) i" for k p i s
    using reg by blast
  show "map_option facts (list_contents t' k) = Some (p, i, s) \<Longrightarrow> pa k = p" for k p i s
    using reg by blast
  show "count_where (\<lambda>r. l_md_path r = p) t' < 10000" for p
  proof (cases "p = md")
    case False
    have "list_invar t" using t by (simp add: regular_table_def)
    then have "count_where (\<lambda>r. l_md_path r = p) t' = count_where (\<lambda>r. l_md_path r = p) t"
      using inv by (simp only: count_path_card other [OF False])
    with t show ?thesis by (simp add: regular_table_def)
  qed (simp add: few)
qed

lemma daily_upd_succeeds:
  assumes ops: "de_ops env = list_ops"
    and t: "regular_table ow pa (w_table w)" and fs: "regular_files ow pa env w"
    and run: "daily_added_or_modified env md w = (Inr out, w')"
  shows "regular_table ow pa (w_table w') \<and> w_files w' = w_files w \<and> table_agrees env w' md \<and>
    (\<forall>q. q \<noteq> md \<and> table_agrees env w q \<longrightarrow> table_agrees env w' q)"
proof -
  obtain f es where rd: "read_entries env w md = Inr (f, es)"
    using run by (auto simp: daily_added_or_modified_def split: sum.splits)
  have fl: "fst (resolve_owner f md) = ow md" "distinct (map pe_id es)" "length es < 10000"
    and pa: "\<forall>e \<in> set es. pa (row_id (ow md) (pe_id e)) = md"
    using fs rd by (auto simp: regular_files_def)
  have inv: "list_invar (w_table w)" using t by (simp add: regular_table_def)
  note fnd = regular_find [OF t, of md]
  have reg: "ids_regular (list_contents (w_table w)) md (fst (resolve_owner f md)) es"
    unfolding fl(1) by (rule regular_ids [OF t pa])
  note h = list_table.handler_run [OF inv rd fl(2) ops fnd reg run]
  have oth: "map_option facts (list_contents (w_table w') k) = Some (q, i, s) \<longleftrightarrow>
      map_option facts (list_contents (w_table w) k) = Some (q, i, s)" if "q \<noteq> md" for k q i s
    by (rule list_table.run_keeps_others [OF inv rd fl(2) ops fnd reg run that])
  have ix: "indexed (list_contents (w_table w')) md (ow md) es" using h(1) fl(1) by simp
  have sub: "{k. \<exists>i s. map_option facts (list_contents (w_table w') k) = Some (md, i, s)}
      \<subseteq> row_id (ow md) ` pe_id ` set es"
    using ix unfolding indexed_def by blast
  have "card {k. \<exists>i s. map_option facts (list_contents (w_table w') k) = Some (md, i, s)}
      \<le> card (row_id (ow md) ` pe_id ` set es)"
    by (rule card_mono [OF _ sub]) simp
  also have "\<dots> \<le> length es"
    by (metis card_image_le card_length finite_imageI image_image List.finite_set order_trans)
  finally have few: "count_where (\<lambda>r. l_md_path r = md) (w_table w') < 10000"
    using fl(3) h(2) by (simp add: count_path_card)
  have own: "k = row_id (ow md) i \<and> pa k = md"
    if "map_option facts (list_contents (w_table w') k) = Some (md, i, s)" for k i s
  proof -
    from that ix obtain e where "e \<in> set es" "k = row_id (ow md) (pe_id e)" "i = pe_id e"
      unfolding indexed_def by blast
    with pa show ?thesis by simp
  qed
  have "regular_table ow pa (w_table w')" by (rule regular_rows [OF t h(2) oth own few])
  moreover have "\<not> file_missing w md"
    using rd by (auto simp: read_entries_def file_missing_def)
  then have "table_agrees env w' md"
    using ix fl(1) rd h(3) by (auto simp: table_agrees_def file_missing_def read_entries_def)
  moreover have "table_agrees env w' q" if "q \<noteq> md" "table_agrees env w q" for q
    using table_agrees_cong [OF h(3) oth [OF that(1)], of env] that(2) by simp
  ultimately show ?thesis using h(3) by blast
qed

lemma daily_del_runs:
  assumes ops: "de_ops env = list_ops" and t: "regular_table ow pa (w_table w)"
    and run: "daily_deleted env md w = (res, w')"
  shows "regular_table ow pa (w_table w') \<and> w_files w' = w_files w \<and>
    (file_missing w md \<longrightarrow> table_agrees env w' md) \<and>
    (\<forall>q. q \<noteq> md \<and> table_agrees env w q \<longrightarrow> table_agrees env w' q)"
proof -
  have w': "w' = w\<lparr>w_table := delete_where (\<lambda>r. l_md_path r = md) (w_table w)\<rparr>"
    using run by (simp add: daily_deleted_def ops list_ops_def)
  have inv: "list_invar (w_table w)" using t by (simp add: regular_table_def)
  then have c: "list_contents (w_table w') k =
      (case list_contents (w_table w) k of None \<Rightarrow> None | Some r \<Rightarrow> if l_md_path r = md then None else Some r)" for k
    by (simp add: w' list_contents_def list_invar_def row_at_delete_where split: option.split)
  have oth: "map_option facts (list_contents (w_table w') k) = Some (q, i, s) \<longleftrightarrow>
      map_option facts (list_contents (w_table w) k) = Some (q, i, s)" if "q \<noteq> md" for k q i s
    using that by (cases "list_contents (w_table w) k") (auto simp: c facts_def)
  have own: "map_option facts (list_contents (w_table w') k) \<noteq> Some (md, i, s)" for k i s
    by (cases "list_contents (w_table w) k") (auto simp: c facts_def)
  have inv': "list_invar (w_table w')"
    using inv by (simp add: w' list_invar_def distinct_map_delete_where)
  have files: "w_files w' = w_files w" by (simp add: w')
  have "count_where (\<lambda>r. l_md_path r = md) (w_table w') = 0"
    by (simp add: w' count_where_zero_iff delete_where_def)
  then have "regular_table ow pa (w_table w')"
    by (intro regular_rows [OF t inv' oth]) (use own in auto)
  moreover have "table_agrees env w' q" if "q \<noteq> md" "table_agrees env w q" for q
    using table_agrees_cong [OF files oth [OF that(1)], of env] that(2) by simp
  moreover have "file_missing w md \<longrightarrow> table_agrees env w' md"
    using own files by (simp add: table_agrees_def file_missing_def)
  ultimately show ?thesis using files by blast
qed

subsection \<open>All tables\<close>

lemma daily_envs_Some:
  assumes "daily_envs structure digest cfg k = Some env"
  shows "de_ops env = list_ops" and "\<exists>cols. de_columns env = service_columns cols"
  using assms by (auto simp: daily_envs_def list_env_def)

lemma kind_view_upd:
  "kind_view k' (w\<lparr>w_table := (w_table w)(k := t)\<rparr>)
     = (if k' = k then \<lparr>w_files = w_files w, w_table = t\<rparr> else kind_view k' w)"
  by (simp add: kind_view_def)

lemma on_kind_step:
  fixes w :: "'c memory"
  assumes reg: "regular_world structure digest cfg ow pa w"
    and env: "daily_envs structure digest cfg k = Some env"
    and run: "on_kind k run p w = (res, w')"
    and one: "\<And>w1. run p (kind_view k w) = (res, w1) \<Longrightarrow> regular_table ow pa (w_table w1) \<and>
        w_files w1 = w_files w \<and> (good \<longrightarrow> table_agrees env w1 p) \<and>
        (\<forall>q. q \<noteq> p \<and> table_agrees env (kind_view k w) q \<longrightarrow> table_agrees env w1 q)"
  shows "regular_world structure digest cfg ow pa w' \<and> file_missing w' = file_missing w \<and>
    (good \<longrightarrow> index_agrees structure digest cfg w' k p) \<and>
    (\<forall>k' q. (k', q) \<noteq> (k, p) \<and> index_agrees structure digest cfg w k' q \<longrightarrow>
       index_agrees structure digest cfg w' k' q)"
proof -
  obtain w1 where w1: "run p (kind_view k w) = (res, w1)" and w': "w' = w\<lparr>w_table := (w_table w)(k := w_table w1)\<rparr>"
    using run by (auto simp: on_kind_def split: prod.splits)
  note o = one [OF w1]
  have view: "kind_view k' w' = (if k' = k then w1 else kind_view k' w)" for k'
    using o by (simp add: w' kind_view_upd)
  have files: "w_files (kind_view k' w') = w_files (kind_view k' w)" for k'
    by (simp add: kind_view_def w')
  have "regular_table ow pa (w_table w' k') \<and> regular_files ow pa env' (kind_view k' w')"
    if "daily_envs structure digest cfg k' = Some env'" for k' env'
  proof -
    have "regular_files ow pa env' (kind_view k' w') = regular_files ow pa env' (kind_view k' w)"
      by (rule regular_files_cong [OF files])
    moreover have "w_table w' k' = (if k' = k then w_table w1 else w_table w k')" by (simp add: w')
    ultimately show ?thesis using reg that o unfolding regular_world_def by simp
  qed
  then have "regular_world structure digest cfg ow pa w'" by (simp add: regular_world_def)
  moreover have "file_missing w' = file_missing w" by (simp add: fun_eq_iff file_missing_def w')
  moreover have "good \<longrightarrow> index_agrees structure digest cfg w' k p"
    using o by (simp add: index_agrees_def env view)
  moreover have "index_agrees structure digest cfg w' k' q"
    if "(k', q) \<noteq> (k, p)" "index_agrees structure digest cfg w k' q" for k' q
    using that o env by (auto simp: index_agrees_def view split: option.splits)
  ultimately show ?thesis by blast
qed

lemma daily_upd_step:
  assumes reg: "regular_world structure digest cfg ow pa w"
    and env: "daily_envs structure digest cfg k = Some env"
    and run: "on_kind k (daily_added_or_modified env) p w = (res, w')"
  shows "regular_world structure digest cfg ow pa w' \<and> file_missing w' = file_missing w \<and>
    (\<not> isl res \<longrightarrow> index_agrees structure digest cfg w' k p) \<and>
    (\<forall>k' q. (k', q) \<noteq> (k, p) \<and> index_agrees structure digest cfg w k' q \<longrightarrow>
       index_agrees structure digest cfg w' k' q)"
proof (rule on_kind_step [OF reg env run])
  fix w1 assume r: "daily_added_or_modified env p (kind_view k w) = (res, w1)"
  have t: "regular_table ow pa (w_table (kind_view k w))" and f: "regular_files ow pa env (kind_view k w)"
    using reg env by (auto simp: regular_world_def kind_view_def)
  have fw: "w_files (kind_view k w) = w_files w" by (simp add: kind_view_def)
  obtain cols where cols: "de_columns env = service_columns cols" using daily_envs_Some(2) [OF env] by blast
  show "regular_table ow pa (w_table w1) \<and> w_files w1 = w_files w \<and> (\<not> isl res \<longrightarrow> table_agrees env w1 p) \<and>
      (\<forall>q. q \<noteq> p \<and> table_agrees env (kind_view k w) q \<longrightarrow> table_agrees env w1 q)"
  proof (cases res)
    case (Inl e)
    with daily_upd_fails [OF daily_envs_Some(1) [OF env] cols] r have "w1 = kind_view k w" by blast
    with t fw Inl show ?thesis by simp
  next
    case (Inr out)
    with daily_upd_succeeds [OF daily_envs_Some(1) [OF env] t f] r fw show ?thesis by auto
  qed
qed

lemma daily_del_step:
  assumes reg: "regular_world structure digest cfg ow pa w"
    and env: "daily_envs structure digest cfg k = Some env"
    and run: "on_kind k (daily_deleted env) p w = (res, w')"
  shows "regular_world structure digest cfg ow pa w' \<and> file_missing w' = file_missing w \<and>
    (file_missing w p \<longrightarrow> index_agrees structure digest cfg w' k p) \<and>
    (\<forall>k' q. (k', q) \<noteq> (k, p) \<and> index_agrees structure digest cfg w k' q \<longrightarrow>
       index_agrees structure digest cfg w' k' q)"
proof (rule on_kind_step [OF reg env run])
  fix w1 assume r: "daily_deleted env p (kind_view k w) = (res, w1)"
  have "regular_table ow pa (w_table (kind_view k w))"
    using reg env by (auto simp: regular_world_def kind_view_def)
  from daily_del_runs [OF daily_envs_Some(1) [OF env] this r]
  show "regular_table ow pa (w_table w1) \<and> w_files w1 = w_files w \<and> (file_missing w p \<longrightarrow> table_agrees env w1 p) \<and>
      (\<forall>q. q \<noteq> p \<and> table_agrees env (kind_view k w) q \<longrightarrow> table_agrees env w1 q)"
    by (simp add: kind_view_def file_missing_def)
qed

interpretation daily: handler_contract "daily_handlers structure digest (cfg :: 'c daily_cfg)" file_missing
  "index_agrees structure digest cfg" "regular_world structure digest cfg ow pa"
proof
  fix k p m and h :: "'c memory handler" and w w' :: "'c memory" and res out
  assume h: "daily_handlers structure digest cfg k = Some h"
    and inv: "regular_world structure digest cfg ow pa w"
  then obtain env where env: "daily_envs structure digest cfg k = Some env"
    and u: "handle_added_or_modified h = on_kind k (daily_added_or_modified env)"
    and d: "handle_deleted h = on_kind k (daily_deleted env)"
    by (auto simp: daily_handlers_def)
  show "regular_world structure digest cfg ow pa w' \<and> file_missing w' = file_missing w \<and>
      (\<forall>k' q. (k', q) \<noteq> (k, p) \<and> index_agrees structure digest cfg w k' q \<longrightarrow>
         index_agrees structure digest cfg w' k' q)"
    if "handle_added_or_modified h p w = (res, w')"
    using daily_upd_step [OF inv env, of p res w'] that u by simp
  show "index_agrees structure digest cfg w' k p" if "handle_added_or_modified h p w = (Inr out, w')"
    using daily_upd_step [OF inv env, of p "Inr out" w'] that u by simp
  show "file_missing w p" if run: "handle_added_or_modified h p w = (Inl (File_not_found m), w')"
  proof -
    obtain cols where cols: "de_columns env = service_columns cols" using daily_envs_Some(2) [OF env] by blast
    obtain w1 where "daily_added_or_modified env p (kind_view k w) = (Inl (File_not_found m), w1)"
      using run u by (auto simp: on_kind_def split: prod.splits)
    from daily_upd_fails [OF daily_envs_Some(1) [OF env] cols this, of m] show ?thesis
      by (simp add: file_missing_def kind_view_def)
  qed
  show "regular_world structure digest cfg ow pa w' \<and> file_missing w' = file_missing w \<and>
      (\<forall>k' q. (k', q) \<noteq> (k, p) \<and> index_agrees structure digest cfg w k' q \<longrightarrow>
         index_agrees structure digest cfg w' k' q)"
    if "handle_deleted h p w = (res, w')"
    using daily_del_step [OF inv env, of p res w'] that d by simp
  show "index_agrees structure digest cfg w' k p" if "file_missing w p" "handle_deleted h p w = (Inr out, w')"
    using daily_del_step [OF inv env, of p "Inr out" w'] that d by simp
qed

section \<open>The theorem of the cascade\<close>


definition demo_cfg :: "unit daily_cfg" where
  "demo_cfg k = (if k = ''episode'' then Some ([''section:Content''], \<lambda>_. Inr ()) else None)"

definition demo_cascade :: "unit memory cascade" where
  "demo_cascade = \<lparr>c_queue = [], c_world = \<lparr>w_files = w_files demo_world, w_table = (\<lambda>_. [])\<rparr>,
                   c_reads = 0, c_unrecoverable = 0\<rparr>"

abbreviation demo_sync where
  "demo_sync \<equiv> sync_once (\<lambda>n. 7) (daily_handlers (de_structure demo_env) (de_digest demo_env) demo_cfg)
     50 3 None (\<lambda>_. [(demo_episode, Stat_mtime 5)]) demo_cascade"

lemma demo_regular:
  "regular_world (de_structure demo_env) (de_digest demo_env) demo_cfg (\<lambda>_. ''u1'') (\<lambda>_. demo_episode)
     (c_world demo_cascade)"
  unfolding regular_world_def
proof (intro allI impI conjI)
  fix k env assume "daily_envs (de_structure demo_env) (de_digest demo_env) demo_cfg k = Some env"
  then have env: "env = demo_env"
    by (auto simp: daily_envs_def demo_cfg_def demo_env_def list_env_def service_columns_def split: if_splits)
  show "regular_table (\<lambda>_. ''u1'') (\<lambda>_. demo_episode) (w_table (c_world demo_cascade) k)"
    by (simp add: regular_table_def demo_cascade_def list_invar_def list_contents_def)
  have o: "fst (resolve_owner demo_file demo_episode) = ''u1''" by code_simp
  have files: "w_files (kind_view k (c_world demo_cascade)) = w_files demo_world"
    by (simp add: kind_view_def demo_cascade_def)
  show "regular_files (\<lambda>_. ''u1'') (\<lambda>_. demo_episode) env (kind_view k (c_world demo_cascade))"
    unfolding regular_files_def read_entries_cong [OF files] env
  proof (intro allI impI)
    fix p f es assume r: "read_entries demo_env demo_world p = Inr (f, es)"
    then have "p = demo_episode" by (auto simp: read_entries_def demo_world_def split: if_splits)
    with r demo_read have "f = demo_file" "es = [demo_entry]" by simp_all
    then show "fst (resolve_owner f p) = ''u1'' \<and> distinct (map pe_id es) \<and> length es < 10000 \<and>
        (\<forall>e \<in> set es. demo_episode = p)"
      using o \<open>p = demo_episode\<close> by simp
  qed
qed


end
