(* ===== verification/Ome_Stores.thy ===== *)
theory Ome_Stores
  imports Prelude
begin

text \<open>
  The three SQLite stores of the offline memory engine
  (\<open>infra/ome/_stores/counter.py\<close>, \<open>idle.py\<close>, \<open>run_record.py\<close>) and the run
  record they persist (\<open>infra/ome/records.py\<close>).  Each store is a table of the
  prelude; a method is a function from the clock it reads, its arguments and the table
  to its result and the table after its commit.  Time stamps are instants: every writer
  renders \<open>get_utc_now\<close>, whose ISO text sorts in time order.  Rows with equal
  \<open>started_at\<close> are read in storage order, which is what the
  \<open>(strategy_name, started_at DESC)\<close> index yields.
\<close>

abbreviation seconds :: "nat \<Rightarrow> time" where
  "seconds n \<equiv> int n * 1000000"

section \<open>Counter store\<close>

record counter_row =
  cr_strategy :: string
  cr_bucket :: string
  counter :: nat
  last_passed_ts :: "time option"

type_synonym counters = "counter_row list"

abbreviation counter_key :: "counter_row \<Rightarrow> string \<times> string" where
  "counter_key r \<equiv> (cr_strategy r, cr_bucket r)"

abbreviation counter_at :: "string \<Rightarrow> string \<Rightarrow> counters \<Rightarrow> counter_row option" where
  "counter_at s b t \<equiv> row_at counter_key (s, b) t"

definition get_progress :: "string \<Rightarrow> string \<Rightarrow> counters \<Rightarrow> nat" where
  "get_progress s b t = (case counter_at s b t of Some r \<Rightarrow> counter r | None \<Rightarrow> 0)"

definition last_passed :: "string \<Rightarrow> string \<Rightarrow> counters \<Rightarrow> time option" where
  "last_passed s b t = (case counter_at s b t of Some r \<Rightarrow> last_passed_ts r | None \<Rightarrow> None)"

definition cooldown_ok :: "time \<Rightarrow> nat \<Rightarrow> time option \<Rightarrow> bool" where
  "cooldown_ok now cooldown_seconds lp \<longleftrightarrow>
     cooldown_seconds = 0 \<or> (case lp of None \<Rightarrow> True | Some l \<Rightarrow> now - l \<ge> seconds cooldown_seconds)"

definition incr_and_check ::
  "time \<Rightarrow> string \<Rightarrow> string \<Rightarrow> nat \<Rightarrow> nat \<Rightarrow> counters \<Rightarrow> (bool \<times> nat) \<times> counters" where
  "incr_and_check now s b threshold cooldown_seconds t =
     (let c = get_progress s b t + 1;
          lp = last_passed s b t;
          passed = (c \<ge> threshold \<and> cooldown_ok now cooldown_seconds lp);
          new_counter = (if passed then 0 else c);
          new_last = (if passed then Some now else lp);
          new = \<lparr>cr_strategy = s, cr_bucket = b, counter = new_counter, last_passed_ts = new_last\<rparr>
      in ((passed, c),
          upsert_row counter_key new
            (\<lambda>r. r\<lparr>counter := new_counter, last_passed_ts := new_last\<rparr>) t))"

section \<open>Idle store\<close>

record idle_row =
  ir_strategy :: string
  ir_bucket :: string
  last_activity_ts :: time

type_synonym idles = "idle_row list"

abbreviation idle_key :: "idle_row \<Rightarrow> string \<times> string" where
  "idle_key r \<equiv> (ir_strategy r, ir_bucket r)"

definition touch :: "string \<Rightarrow> string \<Rightarrow> time \<Rightarrow> idles \<Rightarrow> idles" where
  "touch s b ts t =
     upsert_row idle_key \<lparr>ir_strategy = s, ir_bucket = b, last_activity_ts = ts\<rparr>
       (\<lambda>r. r\<lparr>last_activity_ts := ts\<rparr>) t"

definition scan_idle :: "string \<Rightarrow> nat \<Rightarrow> time \<Rightarrow> idles \<Rightarrow> string list" where
  "scan_idle s idle_seconds now t =
     (let cutoff = now - seconds idle_seconds in
      map ir_bucket (sort_key last_activity_ts
        (filter (\<lambda>r. ir_strategy r = s \<and> last_activity_ts r \<le> cutoff) t)))"

definition get_last_activity :: "string \<Rightarrow> string \<Rightarrow> idles \<Rightarrow> time option" where
  "get_last_activity s b t = map_option last_activity_ts (row_at idle_key (s, b) t)"

section \<open>Run records\<close>

datatype run_status = RUNNING | SUCCESS | FAILED | DEAD_LETTER | CRASHED

record run_row =
  run_id :: string
  run_strategy :: string
  run_status :: run_status
  attempt :: nat
  started_at :: time
  finished_at :: "time option"
  run_error :: "string option"
  event_topic :: string
  event_payload :: string
  max_retries_snapshot :: nat
  run_event_id :: string

type_synonym runs = "run_row list"

datatype store_error =
    Integrity_error   \<comment> \<open>the \<open>PRIMARY KEY\<close> rejects the insert\<close>
  | Validation_error  \<comment> \<open>the row does not form a valid \<open>RunRecord\<close>\<close>

text \<open>The field constraints and \<open>_check_status_invariants\<close> of \<open>RunRecord\<close>.\<close>

definition status_invariants :: "run_row \<Rightarrow> bool" where
  "status_invariants r =
     (if run_status r = RUNNING then finished_at r = None \<and> run_error r = None
      else finished_at r \<noteq> None
        \<and> (if run_status r = SUCCESS then run_error r = None else run_error r \<noteq> None))"

definition valid_record :: "run_row \<Rightarrow> bool" where
  "valid_record r \<longleftrightarrow>
     run_id r \<noteq> [] \<and> run_strategy r \<noteq> [] \<and> run_error r \<noteq> Some []
     \<and> event_topic r \<noteq> [] \<and> event_payload r \<noteq> [] \<and> status_invariants r"

definition row_to_record :: "run_row \<Rightarrow> store_error + run_row" where
  "row_to_record r = (if valid_record r then Inr r else Inl Validation_error)"

fun rows_to_records :: "run_row list \<Rightarrow> store_error + run_row list" where
  "rows_to_records [] = Inr []"
| "rows_to_records (r # rs) =
     (case row_to_record r of Inl e \<Rightarrow> Inl e
      | Inr x \<Rightarrow> (case rows_to_records rs of Inl e \<Rightarrow> Inl e | Inr xs \<Rightarrow> Inr (x # xs)))"

abbreviation run_at :: "string \<Rightarrow> runs \<Rightarrow> run_row option" where
  "run_at i t \<equiv> row_at run_id i t"

definition newest_first :: "runs \<Rightarrow> runs" where
  "newest_first t = sort_key (\<lambda>r. - started_at r) t"

definition trim_runs :: "nat \<Rightarrow> string \<Rightarrow> runs \<Rightarrow> runs" where
  "trim_runs max_records s t =
     (let kept = map run_id (take max_records (newest_first (filter (\<lambda>r. run_strategy r = s) t)))
      in delete_where (\<lambda>r. run_strategy r = s \<and> run_id r \<notin> set kept) t)"

definition mark_running ::
  "nat \<Rightarrow> time \<Rightarrow> string \<Rightarrow> string \<Rightarrow> nat \<Rightarrow> string \<Rightarrow> string \<Rightarrow> nat \<Rightarrow> string \<Rightarrow> runs
   \<Rightarrow> store_error + runs" where
  "mark_running max_records now rid s att topic payload mrs eid t =
     (if rid \<in> run_id ` set t then Inl Integrity_error
      else Inr (trim_runs max_records s
        (t @ [\<lparr>run_id = rid, run_strategy = s, run_status = RUNNING, attempt = att,
               started_at = now, finished_at = None, run_error = None,
               event_topic = topic, event_payload = payload,
               max_retries_snapshot = mrs, run_event_id = eid\<rparr>])))"

definition update_status :: "string \<Rightarrow> run_status \<Rightarrow> time \<Rightarrow> string option \<Rightarrow> runs \<Rightarrow> runs" where
  "update_status rid st fin err t =
     update_where (\<lambda>r. run_id r = rid)
       (\<lambda>r. r\<lparr>run_status := st, finished_at := Some fin, run_error := err\<rparr>) t"

definition mark_success :: "string \<Rightarrow> time \<Rightarrow> runs \<Rightarrow> runs" where
  "mark_success rid fin t = update_status rid SUCCESS fin None t"

definition mark_run_failed :: "string \<Rightarrow> time \<Rightarrow> string \<Rightarrow> runs \<Rightarrow> runs" where
  "mark_run_failed rid fin err t = update_status rid FAILED fin (Some err) t"

definition mark_dead_letter :: "string \<Rightarrow> time \<Rightarrow> string \<Rightarrow> runs \<Rightarrow> runs" where
  "mark_dead_letter rid fin err t = update_status rid DEAD_LETTER fin (Some err) t"

definition mark_crashed :: "string \<Rightarrow> time \<Rightarrow> string \<Rightarrow> runs \<Rightarrow> runs" where
  "mark_crashed rid fin err t = update_status rid CRASHED fin (Some err) t"

definition get_run :: "string \<Rightarrow> runs \<Rightarrow> store_error + run_row option" where
  "get_run rid t =
     (case run_at rid t of None \<Rightarrow> Inr None
      | Some r \<Rightarrow> (case row_to_record r of Inl e \<Rightarrow> Inl e | Inr x \<Rightarrow> Inr (Some x)))"

definition list_runs :: "string \<Rightarrow> run_status option \<Rightarrow> nat \<Rightarrow> runs \<Rightarrow> store_error + run_row list" where
  "list_runs s st limit t =
     rows_to_records (take limit (newest_first
       (filter (\<lambda>r. run_strategy r = s
                  \<and> (case st of None \<Rightarrow> True | Some x \<Rightarrow> run_status r = x)) t)))"

definition find_running :: "runs \<Rightarrow> store_error + run_row list" where
  "find_running t = rows_to_records (filter (\<lambda>r. run_status r = RUNNING) t)"

definition list_by_event_id :: "string \<Rightarrow> runs \<Rightarrow> store_error + run_row list" where
  "list_by_event_id eid t = rows_to_records (newest_first (filter (\<lambda>r. run_event_id r = eid) t))"

definition wf_runs :: "runs \<Rightarrow> bool" where
  "wf_runs t \<longleftrightarrow> distinct (map run_id t) \<and> (\<forall>r \<in> set t. valid_record r)"

section \<open>Laws of the counter store\<close>

lemma counter_at_incr:
  "counter_at s' b' (snd (incr_and_check now s b th cd t))
   = (if (s', b') = (s, b)
      then Some \<lparr>cr_strategy = s, cr_bucket = b,
                 counter = (if fst (fst (incr_and_check now s b th cd t)) then 0
                            else get_progress s b t + 1),
                 last_passed_ts = (if fst (fst (incr_and_check now s b th cd t)) then Some now
                                   else last_passed s b t)\<rparr>
      else counter_at s' b' t)"
  by (auto simp: incr_and_check_def Let_def row_at_upsert_row split: option.splits
      dest!: row_at_SomeD)

lemma progress_incr:
  "get_progress s' b' (snd (incr_and_check now s b th cd t))
   = (if (s', b') = (s, b)
      then (if fst (fst (incr_and_check now s b th cd t)) then 0 else get_progress s b t + 1)
      else get_progress s' b' t)"
  by (simp add: get_progress_def [of s' b' "snd _"] counter_at_incr) (simp add: get_progress_def)

lemma last_passed_incr:
  "last_passed s' b' (snd (incr_and_check now s b th cd t))
   = (if (s', b') = (s, b) \<and> fst (fst (incr_and_check now s b th cd t)) then Some now
      else last_passed s' b' t)"
  by (auto simp: last_passed_def [of s' b' "snd _"] counter_at_incr) (auto simp: last_passed_def)

lemma passed_incr:
  "fst (fst (incr_and_check now s b th cd t)) \<longleftrightarrow>
   get_progress s b t + 1 \<ge> th \<and> cooldown_ok now cd (last_passed s b t)"
  by (simp add: incr_and_check_def Let_def)

lemmas counter_laws = progress_incr last_passed_incr passed_incr

text \<open>
  A trace of gate checks: every call names its clock, strategy and bucket; thresholds and
  cooldowns belong to the strategy.
\<close>

fun counter_trace ::
  "(string \<Rightarrow> nat) \<Rightarrow> (string \<Rightarrow> nat) \<Rightarrow> (time \<times> string \<times> string) list \<Rightarrow> counters \<Rightarrow> bool list" where
  "counter_trace th cd [] t = []"
| "counter_trace th cd ((now, s, b) # cs) t =
     (let r = incr_and_check now s b (th s) (cd s) t
      in fst (fst r) # counter_trace th cd cs (snd r))"

lemma length_counter_trace [simp]: "length (counter_trace th cd cs t) = length cs"
  by (induction cs arbitrary: t) (auto simp: Let_def)

lemma le_Suc_mod_iff: "0 < (k::nat) \<Longrightarrow> k \<le> Suc (n mod k) \<longleftrightarrow> Suc (n mod k) = k"
  using mod_less_divisor [of k n] by linarith

lemma progress_mod_step:
  assumes "0 < th s" and "\<And>s b. get_progress s b t = n (s, b) mod th s"
  shows "get_progress s' b' (snd (incr_and_check now s b (th s) 0 t))
         = (n((s, b) := Suc (n (s, b)))) (s', b') mod th s'"
  using assms(1) by (simp add: counter_laws assms(2) cooldown_ok_def le_Suc_mod_iff mod_Suc)

lemma counter_trace_nth:
  assumes "\<And>s. 0 < th s" and "\<And>s b. get_progress s b t = n (s, b) mod th s"
    and "i < length cs"
  shows "counter_trace th (\<lambda>_. 0) cs t ! i \<longleftrightarrow>
         th (fst (snd (cs ! i)))
         dvd Suc (n (snd (cs ! i)) + count_where (\<lambda>c. snd c = snd (cs ! i)) (take i cs))"
  using assms(2,3)
proof (induction cs arbitrary: t n i)
  case (Cons c cs)
  obtain now s b where c: "c = (now, s, b)" by (cases c) auto
  let ?t = "snd (incr_and_check now s b (th s) 0 t)"
  let ?n = "n((s, b) := Suc (n (s, b)))"
  have inv: "get_progress s' b' ?t = ?n (s', b') mod th s'" for s' b'
    using assms(1) Cons.prems(1) by (rule progress_mod_step)
  show ?case
  proof (cases i)
    case 0
    have "th s \<le> Suc (n (s, b) mod th s) \<longleftrightarrow> Suc (n (s, b)) mod th s = 0"
      using assms(1) [of s] by (simp add: le_Suc_mod_iff mod_Suc)
    with 0 show ?thesis
      by (simp add: c Let_def passed_incr cooldown_ok_def Cons.prems(1) dvd_eq_mod_eq_0)
  next
    case (Suc j)
    with Cons.prems(2) have "j < length cs" by simp
    from Cons.IH [OF inv this] Suc show ?thesis by (auto simp: c Let_def)
  qed
qed simp

text \<open>
  C20: the counter gate lets exactly every \<open>threshold\<close>-th event of a bucket pass.  On any
  interleaving of gate checks over any strategies and buckets, starting from an empty
  store and with the cooldown disabled, the \<open>i\<close>-th check passes iff the threshold of its
  strategy divides the number of checks made so far on the same strategy and bucket:
  buckets never disturb one another, and a pass restarts the count.
\<close>

theorem counter_fires_every_threshold:
  assumes "\<And>s. 0 < th s" and "i < length cs"
  shows "counter_trace th (\<lambda>_. 0) cs [] ! i \<longleftrightarrow>
         th (fst (snd (cs ! i)))
         dvd count_where (\<lambda>c. snd c = snd (cs ! i)) (take (Suc i) cs)"
proof -
  have "get_progress s b [] = (\<lambda>_. 0) (s, b) mod th s" for s b
    by (simp add: get_progress_def)
  from counter_trace_nth [OF assms(1) this assms(2)] show ?thesis
    using assms(2) by (simp add: take_Suc_conv_app_nth)
qed

theorem counter_fires_every_threshold_witness:
  "counter_trace (\<lambda>s. if s = ''a'' then 2 else 3) (\<lambda>_. 0)
     [(1, ''a'', ''u''), (2, ''b'', ''u''), (3, ''a'', ''v''), (4, ''a'', ''u'')] [] ! 3
   \<and> \<not> counter_trace (\<lambda>s. if s = ''a'' then 2 else 3) (\<lambda>_. 0)
     [(1, ''a'', ''u''), (2, ''b'', ''u''), (3, ''a'', ''v''), (4, ''a'', ''u'')] [] ! 2"
  by (subst (1 2) counter_fires_every_threshold) (simp_all add: numeral_nat)

lemma cooldown_from_last:
  assumes "last_passed s b t = Some l" and "sorted (map fst cs)" and "\<forall>c \<in> set cs. l \<le> fst c"
    and "j < length cs" and "snd (cs ! j) = (s, b)" and "counter_trace th cd cs t ! j"
  shows "fst (cs ! j) - l \<ge> seconds (cd s)"
  using assms
proof (induction cs arbitrary: t l j)
  case (Cons c cs)
  obtain now s' b' where c: "c = (now, s', b')" by (cases c) auto
  let ?t = "snd (incr_and_check now s' b' (th s') (cd s') t)"
  show ?case
  proof (cases j)
    case 0
    with Cons.prems show ?thesis
      by (auto simp: c Let_def passed_incr cooldown_ok_def)
  next
    case (Suc k)
    define l' where "l' = the (last_passed s b ?t)"
    have l': "last_passed s b ?t = Some l'" "l \<le> l'" "\<forall>c \<in> set cs. l' \<le> fst c"
      using Cons.prems(1-3) by (auto simp: c l'_def last_passed_incr)
    have "fst (cs ! k) - l' \<ge> seconds (cd s)"
      using Cons.prems l'(1,3) Suc by (intro Cons.IH [where t = ?t]) (auto simp: c Let_def)
    with l'(2) Suc show ?thesis by simp
  qed
qed simp

lemma cooldown_spaces:
  assumes "sorted (map fst cs)" and "i < j" and "j < length cs"
    and "snd (cs ! i) = (s, b)" and "snd (cs ! j) = (s, b)"
    and "counter_trace th cd cs t ! i" and "counter_trace th cd cs t ! j"
  shows "fst (cs ! j) - fst (cs ! i) \<ge> seconds (cd s)"
  using assms
proof (induction cs arbitrary: t i j)
  case (Cons c cs)
  obtain now s' b' where c: "c = (now, s', b')" by (cases c) auto
  let ?t = "snd (incr_and_check now s' b' (th s') (cd s') t)"
  from Cons.prems(2) obtain k where j: "j = Suc k" by (cases j) auto
  show ?case
  proof (cases i)
    case 0
    then have c0: "s' = s" "b' = b" "last_passed s b ?t = Some now"
      using Cons.prems(4,6) by (simp_all add: c Let_def last_passed_incr)
    have "fst (cs ! k) - now \<ge> seconds (cd s)"
      by (rule cooldown_from_last [where t = ?t, OF c0(3)])
        (use Cons.prems j in \<open>simp_all add: c Let_def\<close>)
    with 0 j show ?thesis by (simp add: c)
  next
    case (Suc m)
    have "fst (cs ! k) - fst (cs ! m) \<ge> seconds (cd s)"
      by (rule Cons.IH [where t = ?t])
        (use Cons.prems j Suc in \<open>simp_all add: c Let_def\<close>)
    with Suc j show ?thesis by simp
  qed
qed simp

text \<open>
  With a cooldown, two passes of the same strategy and bucket are never closer than
  \<open>cooldown_seconds\<close>, whatever happens in between and whatever the store held at first,
  provided the clock does not run backwards.
\<close>

lemma cooldown_spaces_passes:
  assumes "sorted (map fst cs)" and "i < j" and "j < length cs"
    and "snd (cs ! i) = snd (cs ! j)"
    and "counter_trace th cd cs t ! i" and "counter_trace th cd cs t ! j"
  shows "fst (cs ! i) + seconds (cd (fst (snd (cs ! i)))) \<le> fst (cs ! j)"
proof -
  obtain s b where sb: "snd (cs ! i) = (s, b)" by (cases "snd (cs ! i)")
  then have "snd (cs ! j) = (s, b)" using assms(4) by simp
  from cooldown_spaces [OF assms(1-3) sb this assms(5,6)] sb show ?thesis by simp
qed

lemma cooldown_spaces_passes_witness:
  "\<exists>cs. counter_trace (\<lambda>_. 1) (\<lambda>_. 5) cs [] = [True, False, True]
        \<and> fst (cs ! 0) + seconds 5 \<le> fst (cs ! 2)"
proof -
  let ?cs = "[(0, ''a'', ''u''), (1000000, ''a'', ''u''), (7000000, ''a'', ''u'')]"
  have tr: "counter_trace (\<lambda>_. 1) (\<lambda>_. 5) ?cs [] = [True, False, True]"
    by code_simp
  have "counter_trace (\<lambda>_. 1) (\<lambda>_. 5) ?cs [] ! 0" "counter_trace (\<lambda>_. 1) (\<lambda>_. 5) ?cs [] ! 2"
    unfolding tr by simp_all
  from cooldown_spaces_passes [OF _ _ _ _ this]
  have "fst (?cs ! 0) + seconds 5 \<le> fst (?cs ! 2)" by simp
  with tr show ?thesis by blast
qed

section \<open>Laws of the idle store\<close>

lemma last_activity_touch:
  "get_last_activity s' b' (touch s b ts t)
   = (if (s', b') = (s, b) then Some ts else get_last_activity s' b' t)"
  by (auto simp: get_last_activity_def touch_def row_at_upsert_row split: option.splits)

lemma set_scan_idle:
  "distinct (map idle_key t) \<Longrightarrow>
   b \<in> set (scan_idle s n now t) \<longleftrightarrow>
   (\<exists>l. get_last_activity s b t = Some l \<and> l + seconds n \<le> now)"
  by (force simp: scan_idle_def get_last_activity_def row_at_Some_iff)

lemma distinct_idle_touch:
  "distinct (map idle_key t) \<Longrightarrow> distinct (map idle_key (touch s b ts t))"
  unfolding touch_def by (rule distinct_upsert_row) simp_all

section \<open>Laws of the run-record store\<close>

lemma rows_to_records_ok:
  "\<forall>r \<in> set rs. valid_record r \<Longrightarrow> rows_to_records rs = Inr rs"
  by (induction rs) (auto simp: row_to_record_def)

lemma newest_first_simps [simp]:
  "set (newest_first t) = set t" "length (newest_first t) = length t"
  "distinct (map f (newest_first t)) = distinct (map f t)"
  by (simp_all add: newest_first_def distinct_map)

lemma wf_runs_reads:
  assumes "wf_runs t"
  shows "get_run i t = Inr (run_at i t)"
    and "list_runs s st n t
         = Inr (take n (newest_first (filter (\<lambda>r. run_strategy r = s
              \<and> (case st of None \<Rightarrow> True | Some x \<Rightarrow> run_status r = x)) t)))"
    and "find_running t = Inr (filter (\<lambda>r. run_status r = RUNNING) t)"
    and "list_by_event_id e t = Inr (newest_first (filter (\<lambda>r. run_event_id r = e) t))"
proof -
  have v: "r \<in> set t \<Longrightarrow> valid_record r" for r using assms by (simp add: wf_runs_def)
  show "get_run i t = Inr (run_at i t)"
    using v by (auto simp: get_run_def row_to_record_def split: option.splits dest!: row_at_SomeD)
  show "list_runs s st n t = Inr (take n (newest_first (filter (\<lambda>r. run_strategy r = s
              \<and> (case st of None \<Rightarrow> True | Some x \<Rightarrow> run_status r = x)) t)))"
    unfolding list_runs_def by (rule rows_to_records_ok) (auto dest!: in_set_takeD intro: v)
  show "find_running t = Inr (filter (\<lambda>r. run_status r = RUNNING) t)"
    unfolding find_running_def by (rule rows_to_records_ok) (auto intro: v)
  show "list_by_event_id e t = Inr (newest_first (filter (\<lambda>r. run_event_id r = e) t))"
    unfolding list_by_event_id_def by (rule rows_to_records_ok) (auto intro: v)
qed

lemma wf_runs_update_status:
  assumes "wf_runs t" and "st \<noteq> RUNNING" and "err \<noteq> Some []" and "err = None \<longleftrightarrow> st = SUCCESS"
  shows "wf_runs (update_status rid st fin err t)"
  using assms by (auto simp: wf_runs_def update_status_def map_update_where set_update_where
      valid_record_def status_invariants_def)

lemma wf_runs_marks:
  assumes "wf_runs t"
  shows "wf_runs (mark_success rid fin t)"
    and "err \<noteq> [] \<Longrightarrow> wf_runs (mark_run_failed rid fin err t)"
    and "err \<noteq> [] \<Longrightarrow> wf_runs (mark_dead_letter rid fin err t)"
    and "err \<noteq> [] \<Longrightarrow> wf_runs (mark_crashed rid fin err t)"
  using assms unfolding mark_success_def mark_run_failed_def mark_dead_letter_def mark_crashed_def
  by (auto intro: wf_runs_update_status)

lemma run_at_update_status:
  "run_at i (update_status rid st fin err t)
   = (if i = rid
      then map_option (\<lambda>r. r\<lparr>run_status := st, finished_at := Some fin, run_error := err\<rparr>) (run_at i t)
      else run_at i t)"
proof (cases "run_at i t")
  case (Some r)
  then have "run_id r = i" using row_at_SomeD [of run_id i t r] by simp
  with Some show ?thesis by (auto simp: update_status_def row_at_update_where)
qed (auto simp: update_status_def row_at_update_where)

lemma wf_runs_trim: "wf_runs t \<Longrightarrow> wf_runs (trim_runs n s t)"
  by (auto simp: wf_runs_def trim_runs_def Let_def distinct_map_delete_where)
    (auto simp: delete_where_def)

lemma wf_runs_mark_running:
  assumes "wf_runs t" and "rid \<noteq> []" and "s \<noteq> []" and "topic \<noteq> []" and "payload \<noteq> []"
    and "mark_running n now rid s att topic payload mrs eid t = Inr t'"
  shows "wf_runs t'"
proof -
  let ?new = "\<lparr>run_id = rid, run_strategy = s, run_status = RUNNING,
          attempt = att, started_at = now, finished_at = None, run_error = None,
          event_topic = topic, event_payload = payload, max_retries_snapshot = mrs,
          run_event_id = eid\<rparr>"
  have t': "t' = trim_runs n s (t @ [?new])" and "rid \<notin> run_id ` set t"
    using assms(6) by (simp_all add: mark_running_def split: if_splits)
  moreover have "valid_record ?new"
    using assms(2-5) by (simp add: valid_record_def status_invariants_def)
  ultimately have "wf_runs (t @ [?new])" using assms(1) by (auto simp: wf_runs_def)
  then show ?thesis unfolding t' by (rule wf_runs_trim)
qed

lemma length_filter_in_keys:
  assumes "distinct (map key xs)" and "set ys \<subseteq> set xs" and "distinct ys"
  shows "length (filter (\<lambda>x. key x \<in> key ` set ys) xs) = length ys"
proof -
  have "set (filter (\<lambda>x. key x \<in> key ` set ys) xs) = set ys"
    using assms by (auto simp: distinct_map dest!: inj_onD [where f = key])
  moreover have "distinct (filter (\<lambda>x. key x \<in> key ` set ys) xs)"
    using assms(1) by (simp add: distinct_map)
  ultimately show ?thesis using assms(3) by (metis distinct_card)
qed

lemma trim_runs_length:
  assumes "distinct (map run_id t)"
  shows "length (filter (\<lambda>r. run_strategy r = s) (trim_runs n s t))
         = min n (length (filter (\<lambda>r. run_strategy r = s) t))"
proof -
  let ?own = "filter (\<lambda>r. run_strategy r = s) t"
  let ?top = "take n (newest_first ?own)"
  have "filter (\<lambda>r. run_strategy r = s) (trim_runs n s t)
        = filter (\<lambda>r. run_id r \<in> run_id ` set ?top) ?own"
    by (auto simp: trim_runs_def delete_where_def Let_def intro!: filter_cong)
  moreover have "distinct (map run_id ?own)"
    using assms by (rule distinct_map_filter)
  moreover from this have "distinct ?top" "set ?top \<subseteq> set ?own"
    by (auto dest!: in_set_takeD simp: distinct_map newest_first_def)
  ultimately have "length (filter (\<lambda>r. run_strategy r = s) (trim_runs n s t)) = length ?top"
    using length_filter_in_keys [of run_id ?own ?top] by presburger
  then show ?thesis by simp
qed

lemma trim_runs_others:
  "filter (\<lambda>r. run_strategy r \<noteq> s) (trim_runs n s t) = filter (\<lambda>r. run_strategy r \<noteq> s) t"
  by (auto simp: trim_runs_def delete_where_def Let_def intro!: filter_cong)


lemma newest_first_split:
  assumes "x \<in> set (take n (newest_first t))" and "y \<in> set (drop n (newest_first t))"
  shows "started_at y \<le> started_at x"
proof -
  have "sorted (map (\<lambda>r. - started_at r) (take n (newest_first t) @ drop n (newest_first t)))"
    by (simp only: append_take_drop_id newest_first_def sorted_sort_key)
  then show ?thesis using assms by (simp only: map_append sorted_append) auto
qed

lemma set_take_or_drop: "x \<in> set xs \<Longrightarrow> x \<in> set (take n xs) \<or> x \<in> set (drop n xs)"
  by (metis UnE append_take_drop_id set_append)

lemma in_trim_runs_iff:
  assumes "distinct (map run_id t)" and "run_strategy r = s"
  shows "r \<in> set (trim_runs n s t) \<longleftrightarrow>
         r \<in> set (take n (newest_first (filter (\<lambda>r. run_strategy r = s) t)))"
    (is "_ \<longleftrightarrow> r \<in> set ?top")
proof
  assume "r \<in> set (trim_runs n s t)"
  then obtain r' where "r \<in> set t" "r' \<in> set ?top" "run_id r = run_id r'"
    using assms(2) by (auto simp: trim_runs_def delete_where_def Let_def)
  moreover from this(2) have "r' \<in> set t" by (auto dest!: in_set_takeD)
  ultimately have "r = r'" using assms(1) by (auto simp: distinct_map dest: inj_onD)
  with \<open>r' \<in> set ?top\<close> show "r \<in> set ?top" by simp
next
  assume "r \<in> set ?top"
  then show "r \<in> set (trim_runs n s t)"
    by (auto simp: trim_runs_def delete_where_def Let_def dest: in_set_takeD)
qed

text \<open>
  The run history of a strategy is a ring buffer.  Recording a run under a fresh id
  succeeds, leaves every other strategy's rows alone, keeps at most
  \<open>max_records_per_strategy\<close> rows of its own strategy (exactly the smaller of the bound
  and the new total), never drops a row that started later than one it keeps, and keeps
  the new row itself when it is the newest.
\<close>

lemma ring_buffer_bound:
  assumes "wf_runs t" and "rid \<notin> run_id ` set t" and "0 < n"
  shows "\<exists>t'. mark_running n now rid s att topic payload mrs eid t = Inr t'
    \<and> length (filter (\<lambda>r. run_strategy r = s) t')
        = min n (Suc (length (filter (\<lambda>r. run_strategy r = s) t)))
    \<and> filter (\<lambda>r. run_strategy r \<noteq> s) t' = filter (\<lambda>r. run_strategy r \<noteq> s) t
    \<and> (\<forall>r \<in> set t'. \<forall>d \<in> set t - set t'. run_strategy r = s \<longrightarrow> started_at d \<le> started_at r)
    \<and> ((\<forall>r \<in> set t. run_strategy r = s \<longrightarrow> started_at r < now)
       \<longrightarrow> (\<exists>r \<in> set t'. run_id r = rid \<and> run_status r = RUNNING \<and> attempt r = att))"
proof -
  let ?own = "\<lambda>r. run_strategy r = s"
  let ?new = "\<lparr>run_id = rid, run_strategy = s, run_status = RUNNING, attempt = att,
               started_at = now, finished_at = None, run_error = None,
               event_topic = topic, event_payload = payload,
               max_retries_snapshot = mrs, run_event_id = eid\<rparr>"
  let ?all = "t @ [?new]"
  let ?t' = "trim_runs n s ?all"
  let ?nf = "newest_first (filter ?own ?all)"
  have d: "distinct (map run_id ?all)" using assms(1,2) by (auto simp: wf_runs_def)
  have in_iff: "run_strategy r = s \<Longrightarrow> r \<in> set ?t' \<longleftrightarrow> r \<in> set (take n ?nf)" for r
    using d by (rule in_trim_runs_iff)
  have res: "mark_running n now rid s att topic payload mrs eid t = Inr ?t'"
    using assms(2) by (simp add: mark_running_def)
  have len: "length (filter ?own ?t') = min n (Suc (length (filter ?own t)))"
    by (simp add: trim_runs_length [OF d])
  have oth: "filter (\<lambda>r. run_strategy r \<noteq> s) ?t' = filter (\<lambda>r. run_strategy r \<noteq> s) t"
    by (simp add: trim_runs_others)
  have sub: "dr \<in> set t - set ?t' \<Longrightarrow> run_strategy dr = s \<and> dr \<in> set (drop n ?nf)" for dr
  proof -
    assume a: "dr \<in> set t - set ?t'"
    have "run_strategy dr = s"
    proof (rule ccontr)
      assume "run_strategy dr \<noteq> s"
      with a have "dr \<in> set (filter (\<lambda>r. run_strategy r \<noteq> s) t)" by simp
      with a show False unfolding oth [symmetric] by simp
    qed
    with a in_iff [of dr] set_take_or_drop [of dr ?nf n] show ?thesis by auto
  qed
  have ord: "\<forall>r \<in> set ?t'. \<forall>d \<in> set t - set ?t'. run_strategy r = s \<longrightarrow> started_at d \<le> started_at r"
    using sub in_iff newest_first_split by blast
  have new: "?new \<in> set ?t'" if older: "\<forall>r \<in> set t. run_strategy r = s \<longrightarrow> started_at r < now"
  proof (rule ccontr)
    assume "?new \<notin> set ?t'"
    then have nt: "?new \<notin> set (take n ?nf)" using in_iff [of ?new] by simp
    then have dr: "?new \<in> set (drop n ?nf)" using set_take_or_drop [of ?new ?nf n] by simp
    then have "take n ?nf \<noteq> []" using assms(3) by (cases ?nf) auto
    then obtain x where x: "x \<in> set (take n ?nf)" by (meson list.set_sel(1))
    with nt have "x \<noteq> ?new" by metis
    with in_set_takeD [OF x] have "x \<in> set t \<and> run_strategy x = s" by auto
    then show False using older newest_first_split [OF x dr] by force
  qed
  have "(\<forall>r \<in> set t. run_strategy r = s \<longrightarrow> started_at r < now)
       \<longrightarrow> (\<exists>r \<in> set ?t'. run_id r = rid \<and> run_status r = RUNNING \<and> attempt r = att)"
    using new by force
  with res len oth ord show ?thesis by blast
qed

lemma ring_buffer_bound_witness:
  "\<exists>t'. mark_running 1 7 ''r'' ''s'' 0 ''t'' ''p'' 2 ''e'' [] = Inr t' \<and> length t' = 1"
  using ring_buffer_bound [of "[]" "''r''" 1 7 "''s''" 0 "''t''" "''p''" 2 "''e''"]
  by (auto simp: wf_runs_def mark_running_def trim_runs_def newest_first_def delete_where_def)

end
