(* ===== verification/Ome_Registry.thy ===== *)
theory Ome_Registry
  imports Prelude
begin

text \<open>
  Events, strategies and the strategy registry of the offline memory engine:
  \<open>infra/ome/events.py\<close>, \<open>triggers.py\<close>, \<open>gates.py\<close>, \<open>decorator.py\<close> and
  \<open>_dispatch/registry.py\<close>.  The registry is the list of registered strategies in
  insertion order (a Python \<open>dict\<close> keyed by name).  Start-up validation runs Kahn's
  algorithm over the graph "strategy emits an event another one listens on"; it is
  translated loop by loop and proved to accept exactly the acyclic graphs.

  Event classes are named by their topic.  An event carries the attributes its class
  defines; \<open>getattr(event, f, None)\<close> is the lookup with \<open>PNone\<close> for a missing one.
\<close>

section \<open>Events and strategies\<close>

datatype pyval =
    PNone
  | PBool bool
  | PInt int
  | PStr string
  | PObj bool string  \<comment> \<open>any other object: its truth value and its \<open>str\<close>\<close>

fun truthy :: "pyval \<Rightarrow> bool" where
  "truthy PNone = False"
| "truthy (PBool b) = b"
| "truthy (PInt n) = (n \<noteq> 0)"
| "truthy (PStr s) = (s \<noteq> [])"
| "truthy (PObj b s) = b"

fun py_str :: "pyval \<Rightarrow> string" where
  "py_str PNone = ''None''"
| "py_str (PBool b) = (if b then ''True'' else ''False'')"
| "py_str (PInt n) = (if n < 0 then ''-'' @ dec (nat (- n)) else dec (nat n))"
| "py_str (PStr s) = s"
| "py_str (PObj b s) = s"

record event =
  ev_class :: string
  ev_id :: string
  ev_attrs :: "(string \<times> pyval) list"

definition getattr :: "event \<Rightarrow> string \<Rightarrow> pyval" where
  "getattr e f = (case map_of (ev_attrs e) f of None \<Rightarrow> PNone | Some v \<Rightarrow> v)"

definition CronTick :: string where "CronTick = ''everos.infra.ome.events:CronTick''"
definition IdleTick :: string where "IdleTick = ''everos.infra.ome.events:IdleTick''"
definition ManualTick :: string where "ManualTick = ''everos.infra.ome.events:ManualTick''"

definition cron_tick :: "string \<Rightarrow> string \<Rightarrow> event" where
  "cron_tick eid s = \<lparr>ev_class = CronTick, ev_id = eid, ev_attrs = [(''strategy_name'', PStr s)]\<rparr>"

definition idle_tick :: "string \<Rightarrow> string \<Rightarrow> string \<Rightarrow> nat \<Rightarrow> event" where
  "idle_tick eid s b n = \<lparr>ev_class = IdleTick, ev_id = eid,
     ev_attrs = [(''strategy_name'', PStr s), (''bucket_key'', PStr b),
                 (''idle_seconds'', PInt (int n))]\<rparr>"

definition manual_tick :: "string \<Rightarrow> string \<Rightarrow> event" where
  "manual_tick eid s = \<lparr>ev_class = ManualTick, ev_id = eid, ev_attrs = [(''strategy_name'', PStr s)]\<rparr>"

datatype trigger =
    Immediate (on_classes: "string list")
  | Cron (cron_expr: string)
  | Idle (on_classes: "string list") (idle_field: string) (idle_secs: nat) (scan_interval: nat)

text \<open>The model validators of \<open>Immediate\<close> and \<open>Idle\<close>; \<open>mfields c\<close> is \<open>c.model_fields\<close>.\<close>

fun trigger_ok :: "(string \<Rightarrow> string list) \<Rightarrow> trigger \<Rightarrow> bool" where
  "trigger_ok mfields (Immediate on) = (on \<noteq> [])"
| "trigger_ok mfields (Cron e) = (e \<noteq> [])"
| "trigger_ok mfields (Idle on f n si) =
     (on \<noteq> [] \<and> 0 < n \<and> 0 < si \<and> (\<forall>c \<in> set on. f \<in> set (mfields c)) \<and> si \<le> n div 2)"

record gate =
  threshold :: nat
  cooldown_seconds :: nat
  event_field :: "string option"

datatype applies_to =
    Always
  | Attr string
  | Callable "event \<Rightarrow> bool option"  \<comment> \<open>\<open>None\<close>: the user's predicate raises\<close>

record strategy_meta =
  sm_name :: string
  sm_trigger :: trigger
  sm_emits :: "string list"
  sm_applies :: applies_to
  sm_gate :: "gate option"
  sm_max_retries :: "nat option"
  sm_enabled :: bool

section \<open>Registry\<close>

type_synonym registry = "strategy_meta list"

datatype ome_error = Startup_validation_error | Key_error | Ome_error

definition register :: "strategy_meta \<Rightarrow> registry \<Rightarrow> ome_error + registry" where
  "register m reg =
     (if sm_name m \<in> sm_name ` set reg then Inl Startup_validation_error else Inr (reg @ [m]))"

definition replace_meta :: "string \<Rightarrow> strategy_meta \<Rightarrow> registry \<Rightarrow> ome_error + registry" where
  "replace_meta name m reg =
     (if name \<notin> sm_name ` set reg then Inl Key_error
      else Inr (update_where (\<lambda>x. sm_name x = name) (\<lambda>_. m) reg))"

definition get_meta :: "string \<Rightarrow> registry \<Rightarrow> ome_error + strategy_meta" where
  "get_meta name reg =
     (case row_at sm_name name reg of None \<Rightarrow> Inl Key_error | Some m \<Rightarrow> Inr m)"

fun receives :: "string \<Rightarrow> trigger \<Rightarrow> bool" where
  "receives c (Immediate on) = (c \<in> set on)"
| "receives c (Cron e) = (c = CronTick)"
| "receives c (Idle on f n si) = (c = IdleTick)"

definition lookup_by_event :: "string \<Rightarrow> registry \<Rightarrow> registry" where
  "lookup_by_event c reg = filter (\<lambda>m. receives c (sm_trigger m)) reg"

subsection \<open>Cycle check\<close>

text \<open>\<open>isinstance(dst.trigger, Immediate) and ev in dst.trigger.on\<close>\<close>

fun listens :: "strategy_meta \<Rightarrow> string \<Rightarrow> bool" where
  "listens m ev = (case sm_trigger m of Immediate on \<Rightarrow> ev \<in> set on | _ \<Rightarrow> False)"

declare listens.simps [simp del]

type_synonym dag = "(string \<Rightarrow> string list) \<times> (string \<Rightarrow> int)"

definition add_edge :: "string \<Rightarrow> string \<Rightarrow> strategy_meta \<Rightarrow> dag \<Rightarrow> dag" where
  "add_edge src ev dst g =
     (case g of (adj, indeg) \<Rightarrow>
        if listens dst ev \<and> sm_name dst \<notin> set (adj src)
        then (adj(src := adj src @ [sm_name dst]), indeg(sm_name dst := indeg (sm_name dst) + 1))
        else (adj, indeg))"

definition build_dag :: "registry \<Rightarrow> dag" where
  "build_dag reg =
     fold (\<lambda>src. fold (\<lambda>ev. fold (add_edge (sm_name src) ev) reg) (sm_emits src)) reg
       (\<lambda>_. [], \<lambda>_. 0)"

text \<open>One pass of the inner loop, \<open>for nbr in adj[n]\<close>: the decremented degrees and the
  names that reach zero, in iteration order.\<close>

fun relax :: "string list \<Rightarrow> (string \<Rightarrow> int) \<Rightarrow> (string \<Rightarrow> int) \<times> string list" where
  "relax [] indeg = (indeg, [])"
| "relax (nbr # ns) indeg =
     (let d = indeg nbr - 1;
          r = relax ns (indeg(nbr := d))
      in (fst r, if d = 0 then nbr # snd r else snd r))"

text \<open>The worklist loop; \<open>None\<close> is a loop that does not end.\<close>

partial_function (option) kahn ::
  "(string \<Rightarrow> string list) \<Rightarrow> string list \<Rightarrow> (string \<Rightarrow> int) \<Rightarrow> nat \<Rightarrow> nat option" where
  "kahn adj queue indeg visited =
     (case queue of
        [] \<Rightarrow> Some visited
      | n # q \<Rightarrow>
          kahn adj (q @ snd (relax (adj n) indeg)) (fst (relax (adj n) indeg)) (visited + 1))"

lemmas [code] = kahn.simps

text \<open>\<open>it\<close> is the iteration order of the adjacency sets.\<close>

definition validate_no_cycles :: "(string list \<Rightarrow> string list) \<Rightarrow> registry \<Rightarrow> (ome_error + unit) option" where
  "validate_no_cycles it reg =
     (case build_dag reg of (adj, indeg) \<Rightarrow>
        (case kahn (\<lambda>n. it (adj n)) (filter (\<lambda>n. indeg n = 0) (map sm_name reg)) indeg 0 of
           None \<Rightarrow> None
         | Some visited \<Rightarrow>
             Some (if visited < length reg then Inl Startup_validation_error else Inr ())))"

fun event_classes_for_trigger :: "trigger \<Rightarrow> string list" where
  "event_classes_for_trigger (Immediate on) = on"
| "event_classes_for_trigger (Cron e) = [CronTick]"
| "event_classes_for_trigger (Idle on f n si) = [IdleTick]"

definition gate_fields_ok :: "(string \<Rightarrow> string list) \<Rightarrow> strategy_meta \<Rightarrow> bool" where
  "gate_fields_ok mfields m =
     (case sm_gate m of None \<Rightarrow> True
      | Some g \<Rightarrow> (case event_field g of None \<Rightarrow> True
          | Some f \<Rightarrow> list_all (\<lambda>c. f \<in> set (mfields c)) (event_classes_for_trigger (sm_trigger m))))"

definition validate ::
  "(string list \<Rightarrow> string list) \<Rightarrow> (string \<Rightarrow> string list) \<Rightarrow> registry \<Rightarrow> (ome_error + unit) option" where
  "validate it mfields reg =
     (case validate_no_cycles it reg of
        None \<Rightarrow> None
      | Some (Inl e) \<Rightarrow> Some (Inl e)
      | Some (Inr u) \<Rightarrow>
          Some (if list_all (gate_fields_ok mfields) reg then Inr () else Inl Startup_validation_error))"

section \<open>Construction of the graph\<close>

definition emits_to :: "registry \<Rightarrow> (string \<times> string) set" where
  "emits_to reg = {(sm_name s, sm_name d) | s d.
     s \<in> set reg \<and> d \<in> set reg \<and> (\<exists>ev \<in> set (sm_emits s). listens d ev)}"

definition dag_edges :: "dag \<Rightarrow> (string \<times> string) set" where
  "dag_edges g = {(u, v). v \<in> set (fst g u)}"

definition dag_ok :: "dag \<Rightarrow> bool" where
  "dag_ok g \<longleftrightarrow> (\<forall>u. distinct (fst g u)) \<and> finite {u. fst g u \<noteq> []}
     \<and> (\<forall>v. snd g v = int (card {u. v \<in> set (fst g u)}))"

lemma fold_collect:
  assumes "\<And>x g. P g \<Longrightarrow> P (f x g) \<and> e (f x g) = e g \<union> h x"
  shows "P g \<Longrightarrow> P (fold f xs g) \<and> e (fold f xs g) = e g \<union> (\<Union>x \<in> set xs. h x)"
proof (induction xs arbitrary: g)
  case (Cons x xs)
  with assms [OF Cons.prems, of x] show ?case by auto
qed simp

lemma add_edge_collect:
  assumes "dag_ok g"
  shows "dag_ok (add_edge s ev d g)
    \<and> dag_edges (add_edge s ev d g) = dag_edges g \<union> (if listens d ev then {(s, sm_name d)} else {})"
proof (cases "listens d ev \<and> sm_name d \<notin> set (fst g s)")
  case True
  let ?d = "sm_name d"
  let ?g = "add_edge s ev d g"
  have g: "?g = ((fst g)(s := fst g s @ [?d]), (snd g)(?d := snd g ?d + 1))"
    using True by (cases g) (simp add: add_edge_def)
  have pre: "{u. v \<in> set (fst ?g u)}
             = (if v = ?d then insert s {u. v \<in> set (fst g u)} else {u. v \<in> set (fst g u)})" for v
    unfolding g by auto
  have fin: "finite {u. v \<in> set (fst g u)}" for v
    using assms by (rule_tac finite_subset [of _ "{u. fst g u \<noteq> []}"]) (auto simp: dag_ok_def)
  have "{u. fst ?g u \<noteq> []} = insert s {u. fst g u \<noteq> []}" unfolding g by auto
  moreover have "snd ?g v = int (card {u. v \<in> set (fst ?g u)})" for v
    unfolding pre using assms True fin by (simp add: g dag_ok_def)
  moreover have "distinct (fst ?g u)" for u using assms True by (simp add: dag_ok_def g)
  ultimately have "dag_ok ?g"
    using assms unfolding dag_ok_def by simp
  moreover have "dag_edges ?g = dag_edges g \<union> {(s, ?d)}" unfolding g by (auto simp: dag_edges_def split: if_splits)
  ultimately show ?thesis using True by simp
next
  case False
  then have "add_edge s ev d g = g" by (cases g) (auto simp: add_edge_def)
  with False assms show ?thesis by (auto simp: dag_edges_def)
qed

lemma build_dag_ok: "dag_ok (build_dag reg) \<and> dag_edges (build_dag reg) = emits_to reg"
proof -
  let ?e0 = "(\<lambda>_. [], \<lambda>_. 0) :: dag"
  let ?h = "\<lambda>s ev d. if listens d ev then {(s, sm_name d)} else {}"
  have inner: "dag_ok (fold (add_edge s ev) reg g)
      \<and> dag_edges (fold (add_edge s ev) reg g) = dag_edges g \<union> (\<Union>d \<in> set reg. ?h s ev d)"
    if "dag_ok g" for s ev g
    using that by (rule fold_collect [rotated]) (rule add_edge_collect)
  have middle: "dag_ok (fold (\<lambda>ev. fold (add_edge s ev) reg) evs g)
      \<and> dag_edges (fold (\<lambda>ev. fold (add_edge s ev) reg) evs g)
        = dag_edges g \<union> (\<Union>ev \<in> set evs. \<Union>d \<in> set reg. ?h s ev d)"
    if "dag_ok g" for s evs g
    using that by (rule fold_collect [rotated]) (rule inner)
  have "dag_ok ?e0" by (simp add: dag_ok_def)
  then have "dag_ok (build_dag reg) \<and> dag_edges (build_dag reg)
        = dag_edges ?e0 \<union> (\<Union>s \<in> set reg. \<Union>ev \<in> set (sm_emits s). \<Union>d \<in> set reg. ?h (sm_name s) ev d)"
    unfolding build_dag_def by (rule fold_collect [rotated]) (rule middle)
  moreover have "dag_edges ?e0 = {}" by (simp add: dag_edges_def)
  ultimately show ?thesis by (auto simp: emits_to_def split: if_splits)
qed

section \<open>Kahn's loop\<close>

lemma relax_eq:
  "distinct ns \<Longrightarrow>
   fst (relax ns indeg) = (\<lambda>v. if v \<in> set ns then indeg v - 1 else indeg v)
   \<and> snd (relax ns indeg) = filter (\<lambda>v. indeg v = 1) ns"
proof (induction ns arbitrary: indeg)
  case (Cons n ns)
  let ?i = "indeg(n := indeg n - 1)"
  have "filter (\<lambda>v. ?i v = 1) ns = filter (\<lambda>v. indeg v = 1) ns"
    using Cons.prems by (intro filter_cong) auto
  with Cons.IH [of ?i] Cons.prems show ?case
    by (simp only: relax.simps Let_def fst_conv snd_conv list.set distinct.simps filter.simps)
      (auto simp: fun_eq_iff)
qed (simp add: fun_eq_iff)

definition waiting :: "string set \<Rightarrow> (string \<Rightarrow> string list) \<Rightarrow> string list \<Rightarrow> string \<Rightarrow> string set" where
  "waiting V adj P v = {u \<in> V - set P. v \<in> set (adj u)}"

definition kahn_inv ::
  "string set \<Rightarrow> (string \<Rightarrow> string list) \<Rightarrow> string list \<Rightarrow> string list \<Rightarrow> (string \<Rightarrow> int) \<Rightarrow> bool" where
  "kahn_inv V adj P Q indeg \<longleftrightarrow>
     distinct (P @ Q) \<and> set (P @ Q) \<subseteq> V
     \<and> (\<forall>v \<in> V. indeg v = int (card (waiting V adj P v)))
     \<and> (\<forall>v \<in> V. v \<in> set (P @ Q) \<longleftrightarrow> indeg v = 0)
     \<and> (\<forall>i < length P. \<forall>u \<in> V. P ! i \<in> set (adj u) \<longrightarrow> u \<in> set (take i P))"

lemma waiting_snoc:
  "waiting V adj (P @ [n]) v
   = (if v \<in> set (adj n) then waiting V adj P v - {n} else waiting V adj P v)"
  by (auto simp: waiting_def)

lemma kahn_inv_step:
  assumes "finite V" and "\<forall>u \<in> V. distinct (adj u) \<and> set (adj u) \<subseteq> V"
    and inv: "kahn_inv V adj P (n # q) indeg"
  shows "kahn_inv V adj (P @ [n]) (q @ snd (relax (adj n) indeg)) (fst (relax (adj n) indeg))"
proof -
  have n: "n \<in> V" "n \<notin> set P" "indeg n = 0" using inv by (auto simp: kahn_inv_def)
  then have adj: "distinct (adj n)" "set (adj n) \<subseteq> V" using assms(2) by auto
  note r = relax_eq [OF adj(1), of indeg]
  have fin: "finite (waiting V adj P v)" for v using assms(1) by (simp add: waiting_def)
  have deg: "indeg v = int (card (waiting V adj P v))" if "v \<in> V" for v
    using inv that by (simp add: kahn_inv_def)
  have mem: "n \<in> waiting V adj P v" if "v \<in> set (adj n)" for v
    using n that by (simp add: waiting_def)
  have pos: "0 < indeg v" if "v \<in> set (adj n)" for v
  proof -
    have "0 < card (waiting V adj P v)" using mem [OF that] fin [of v] by (auto simp: card_gt_0_iff)
    with deg [of v] adj(2) that show ?thesis by auto
  qed
  have deg': "(if v \<in> set (adj n) then indeg v - 1 else indeg v)
              = int (card (waiting V adj (P @ [n]) v))" if "v \<in> V" for v
  proof (cases "v \<in> set (adj n)")
    case True
    have "Suc (card (waiting V adj P v - {n})) = card (waiting V adj P v)"
      using fin mem [OF True] by (rule card_Suc_Diff1)
    with True deg [OF that] show ?thesis by (simp add: waiting_snoc)
  qed (simp add: waiting_snoc deg [OF that])
  have zero: "v \<in> set (P @ n # q) \<longleftrightarrow> indeg v = 0" if "v \<in> V" for v
    using inv that by (simp add: kahn_inv_def)
  have new: "v \<notin> set (P @ n # q)" if "v \<in> set (adj n)" "indeg v = 1" for v
    using zero [of v] adj(2) that by auto
  have dist: "distinct (P @ n # q)" using inv by (simp add: kahn_inv_def)
  have none: "waiting V adj P n = {}" using deg [OF n(1)] n(3) fin [of n] by simp
  have order: "u \<in> set (take i (P @ [n]))"
    if "i < length (P @ [n])" "u \<in> V" "(P @ [n]) ! i \<in> set (adj u)" for i u
  proof (cases "i < length P")
    case True
    with that inv show ?thesis by (auto simp: kahn_inv_def nth_append)
  next
    case False
    with that none show ?thesis by (auto simp: waiting_def nth_append)
  qed
  show ?thesis
    unfolding kahn_inv_def r [THEN conjunct1] r [THEN conjunct2]
  proof (intro conjI ballI allI impI)
    show "distinct ((P @ [n]) @ q @ filter (\<lambda>v. indeg v = 1) (adj n))"
      using dist new distinct_filter [OF adj(1)] by auto
    show "set ((P @ [n]) @ q @ filter (\<lambda>v. indeg v = 1) (adj n)) \<subseteq> V"
      using inv adj by (auto simp: kahn_inv_def)
    show "v \<in> set ((P @ [n]) @ q @ filter (\<lambda>v. indeg v = 1) (adj n))
          \<longleftrightarrow> (if v \<in> set (adj n) then indeg v - 1 else indeg v) = 0" if "v \<in> V" for v
      using zero [OF that] pos [of v] by auto
  qed (use deg' order in auto)
qed

lemma kahn_terminates:
  assumes "finite V" and "\<forall>u \<in> V. distinct (adj u) \<and> set (adj u) \<subseteq> V"
    and "kahn_inv V adj P Q indeg"
  shows "\<exists>P' indeg'. kahn adj Q indeg (length P) = Some (length P') \<and> kahn_inv V adj P' [] indeg'"
  using assms(3)
proof (induction "card V - length P" arbitrary: P Q indeg rule: less_induct)
  case less
  show ?case
  proof (cases Q)
    case Nil
    with less.prems show ?thesis by (auto simp: kahn.simps [of adj "[]"])
  next
    case (Cons n q)
    have inv: "kahn_inv V adj (P @ [n]) (q @ snd (relax (adj n) indeg)) (fst (relax (adj n) indeg))"
      using less.prems assms(1,2) unfolding Cons by (intro kahn_inv_step)
    then have "distinct (P @ [n])" "set (P @ [n]) \<subseteq> V" by (auto simp: kahn_inv_def)
    then have "length (P @ [n]) \<le> card V"
      using card_mono [OF assms(1)] distinct_card [of "P @ [n]"] by metis
    then have "card V - length (P @ [n]) < card V - length P" by simp
    from less.hyps [OF this inv] show ?thesis
      by (simp add: Cons kahn.simps [of adj "n # q"])
  qed
qed

lemma acyclic_of_kahn:
  assumes inv: "kahn_inv V adj P [] indeg" and "set P = V"
  shows "acyclic {(u, v). u \<in> V \<and> v \<in> set (adj u) \<and> v \<in> V}" (is "acyclic ?E")
proof -
  define idx where "idx = the_inv_into {..<length P} ((!) P)"
  have "distinct P" using inv by (simp add: kahn_inv_def)
  then have "inj_on ((!) P) {..<length P}" by (auto intro: inj_on_nth)
  then have idx: "idx (P ! i) = i" if "i < length P" for i
    unfolding idx_def using that by (auto intro: the_inv_into_f_f)
  have "(u, v) \<in> measure idx" if "(u, v) \<in> ?E" for u v
  proof -
    from that assms(2) obtain i where i: "i < length P" "v = P ! i" by (auto simp: in_set_conv_nth)
    then have "u \<in> set (take i P)" using that inv by (auto simp: kahn_inv_def)
    then obtain j where "j < i" "u = P ! j" by (auto simp: in_set_conv_nth)
    with i show ?thesis by (simp add: idx)
  qed
  then have "wf ?E" by (intro wf_subset [OF wf_measure [of idx]]) auto
  then show ?thesis by (rule wf_acyclic)
qed

lemma kahn_of_acyclic:
  assumes "finite V" and inv: "kahn_inv V adj P [] indeg"
    and acyc: "acyclic {(u, v). u \<in> V \<and> v \<in> set (adj u) \<and> v \<in> V}" (is "acyclic ?E")
  shows "set P = V"
proof (rule ccontr)
  assume "set P \<noteq> V"
  moreover have "set P \<subseteq> V" using inv by (simp add: kahn_inv_def)
  ultimately obtain x where x: "x \<in> V - set P" by auto
  have "finite ?E" by (rule finite_subset [of _ "V \<times> V"]) (use assms(1) in auto)
  then have "wf ?E" using acyc by (rule finite_acyclic_wf)
  from wfE_min [OF this x] obtain z where z: "z \<in> V - set P" "\<And>y. (y, z) \<in> ?E \<Longrightarrow> y \<notin> V - set P"
    by blast
  then have "indeg z \<noteq> 0" and "indeg z = int (card (waiting V adj P z))"
    using inv by (auto simp: kahn_inv_def)
  then have "waiting V adj P z \<noteq> {}" by auto
  with z show False by (auto simp: waiting_def)
qed

lemma emits_to_closed: "(u, v) \<in> emits_to reg \<Longrightarrow> u \<in> sm_name ` set reg \<and> v \<in> sm_name ` set reg"
  by (auto simp: emits_to_def)

lemma validate_no_cycles_eq:
  assumes "distinct (map sm_name reg)" and it: "\<And>xs. distinct xs \<Longrightarrow> distinct (it xs) \<and> set (it xs) = set xs"
  shows "validate_no_cycles it reg
         = Some (if acyclic (emits_to reg) then Inr () else Inl Startup_validation_error)"
proof -
  let ?V = "sm_name ` set reg"
  obtain adj indeg where g: "build_dag reg = (adj, indeg)" by (cases "build_dag reg")
  let ?adj = "\<lambda>n. it (adj n)"
  have ok: "dag_ok (adj, indeg)" and edges: "\<And>u v. v \<in> set (adj u) \<longleftrightarrow> (u, v) \<in> emits_to reg"
    using build_dag_ok [of reg] by (auto simp: g dag_edges_def)
  have d: "\<And>u. distinct (adj u)" and deg: "\<And>v. indeg v = int (card {u. v \<in> set (adj u)})"
    using ok by (simp_all add: dag_ok_def)
  have adj: "\<forall>u \<in> ?V. distinct (?adj u) \<and> set (?adj u) \<subseteq> ?V"
    using it [OF d] edges by (auto dest: emits_to_closed)
  have w0: "waiting ?V ?adj [] v = {u. v \<in> set (adj u)}" for v
    using it [OF d] edges by (auto simp: waiting_def dest: emits_to_closed)
  have "kahn_inv ?V ?adj [] (filter (\<lambda>n. indeg n = 0) (map sm_name reg)) indeg"
    using assms(1) by (auto simp: kahn_inv_def w0 deg)
  from kahn_terminates [OF _ adj this] obtain P indeg' where
    run: "kahn ?adj (filter (\<lambda>n. indeg n = 0) (map sm_name reg)) indeg 0 = Some (length P)"
    and inv: "kahn_inv ?V ?adj P [] indeg'" by auto
  have E: "{(u, v). u \<in> ?V \<and> v \<in> set (?adj u) \<and> v \<in> ?V} = emits_to reg"
    using it [OF d] edges by (auto dest: emits_to_closed)
  have "set P = ?V \<longleftrightarrow> acyclic (emits_to reg)"
    using acyclic_of_kahn [OF inv] kahn_of_acyclic [OF _ inv] unfolding E by auto
  moreover have "length P = card (set P)" "set P \<subseteq> ?V" "length reg = card ?V"
    using inv assms(1) distinct_card [of P] distinct_card [OF assms(1)]
    by (simp_all add: kahn_inv_def)
  ultimately have "length P < length reg \<longleftrightarrow> \<not> acyclic (emits_to reg)"
    using psubset_card_mono [of ?V "set P"] by (metis List.finite_set finite_imageI less_irrefl psubsetI)
  with run g show ?thesis by (simp add: validate_no_cycles_def)
qed

lemma chain_distinct:
  assumes "acyclic r" and "successively (\<lambda>a b. (a, b) \<in> r) xs"
  shows "distinct xs"
proof -
  have "successively (\<lambda>a b. (a, b) \<in> r\<^sup>+) xs"
    using assms(2) by (rule successively_mono) auto
  then have "sorted_wrt (\<lambda>a b. (a, b) \<in> r\<^sup>+) xs"
    by (subst (asm) successively_conv_sorted_wrt) (auto intro!: transpI elim: trancl_trans)
  then show ?thesis using assms(1) by (induction xs) (auto simp: acyclic_def)
qed

text \<open>
  C18: start-up validation accepts exactly the strategy sets without an emission cycle,
  whatever the iteration order of its sets, and it always terminates.  In an accepted
  set every chain of strategies, each emitting an event the next one listens on, is at
  most as long as the number of strategies: no event can cascade for ever.
\<close>

theorem validate_stops_emission_loops:
  assumes "distinct (map sm_name reg)"
    and "\<And>xs. distinct xs \<Longrightarrow> distinct (it xs) \<and> set (it xs) = set xs"
  shows "validate_no_cycles it reg
      = Some (if acyclic (emits_to reg) then Inr () else Inl Startup_validation_error)
    \<and> (validate_no_cycles it reg = Some (Inr ()) \<longrightarrow>
       (\<forall>ss. set ss \<subseteq> sm_name ` set reg \<and> successively (\<lambda>a b. (a, b) \<in> emits_to reg) ss
          \<longrightarrow> length ss \<le> length reg))"
proof (intro conjI impI allI)
  show eq: "validate_no_cycles it reg
      = Some (if acyclic (emits_to reg) then Inr () else Inl Startup_validation_error)"
    using assms by (rule validate_no_cycles_eq)
  fix ss
  assume "validate_no_cycles it reg = Some (Inr ())"
    and ss: "set ss \<subseteq> sm_name ` set reg \<and> successively (\<lambda>a b. (a, b) \<in> emits_to reg) ss"
  then have "distinct ss" using eq by (intro chain_distinct [of "emits_to reg"]) (auto split: if_splits)
  then have "length ss = card (set ss)" by (simp add: distinct_card)
  also have "\<dots> \<le> card (sm_name ` set reg)" using ss by (intro card_mono) auto
  also have "\<dots> \<le> length reg" by (metis card_length list.set_map length_map)
  finally show "length ss \<le> length reg" .
qed

definition demo_meta :: "string \<Rightarrow> trigger \<Rightarrow> string list \<Rightarrow> strategy_meta" where
  "demo_meta n t es = \<lparr>sm_name = n, sm_trigger = t, sm_emits = es, sm_applies = Always,
     sm_gate = None, sm_max_retries = None, sm_enabled = True\<rparr>"

theorem validate_stops_emission_loops_witness:
  "validate_no_cycles rev
     [demo_meta ''a'' (Immediate [''x'']) [''y''], demo_meta ''b'' (Immediate [''y'']) [''x'']]
   = Some (Inl Startup_validation_error)
   \<and> \<not> acyclic (emits_to
     [demo_meta ''a'' (Immediate [''x'']) [''y''], demo_meta ''b'' (Immediate [''y'']) [''x'']])"
    (is "validate_no_cycles rev ?reg = _ \<and> _")
proof -
  have "validate_no_cycles rev ?reg = Some (Inl Startup_validation_error)" by code_simp
  with validate_stops_emission_loops [of ?reg rev] show ?thesis
    by (auto simp: demo_meta_def split: if_splits)
qed

end
