(* ===== verification/Ome_Dispatch.thy ===== *)
theory Ome_Dispatch
  imports Ome_Registry Ome_Stores
begin

text \<open>
  Event routing, \<open>infra/ome/_dispatch/dispatcher.py\<close>: the gates \<open>enabled\<close>,
  \<open>applies_to\<close> and \<open>Counter\<close> applied to every candidate strategy of an event, the
  read-write entry point \<open>dispatch\<close> and its read-only twin \<open>inspect\<close>
  (\<open>StrategyRouteInfo\<close> of \<open>infra/ome/records.py\<close>).  \<open>clk i\<close> is the clock reading and
  \<open>uuid i\<close> the \<open>uuid4\<close> drawn while the \<open>i\<close>-th candidate is examined.
\<close>

section \<open>Gates\<close>

definition routes_to :: "event \<Rightarrow> strategy_meta \<Rightarrow> bool" where
  "routes_to ev m =
     (let target = getattr ev ''strategy_name'' in target = PNone \<or> target = PStr (sm_name m))"

text \<open>\<open>None\<close>: the user's predicate raises.\<close>

fun applies :: "applies_to \<Rightarrow> event \<Rightarrow> bool option" where
  "applies Always ev = Some True"
| "applies (Callable f) ev = f ev"
| "applies (Attr a) ev = Some (truthy (getattr ev a))"

definition safe_applies :: "strategy_meta \<Rightarrow> event \<Rightarrow> bool" where
  "safe_applies m ev = (case applies (sm_applies m) ev of None \<Rightarrow> False | Some b \<Rightarrow> b)"

definition bucket_key :: "event \<Rightarrow> string option \<Rightarrow> string" where
  "bucket_key ev f =
     (case f of None \<Rightarrow> ''__all__''
      | Some a \<Rightarrow> (let v = getattr ev a in if v = PNone then ''__none__'' else py_str v))"

section \<open>Dispatch\<close>

definition gate_one :: "time \<Rightarrow> bool \<Rightarrow> event \<Rightarrow> strategy_meta \<Rightarrow> counters \<Rightarrow> bool \<times> counters" where
  "gate_one now force ev m t =
     (if \<not> routes_to ev m then (False, t)
      else if \<not> force \<and> \<not> sm_enabled m then (False, t)
      else if \<not> safe_applies m ev then (False, t)
      else (case sm_gate m of
          None \<Rightarrow> (True, t)
        | Some g \<Rightarrow>
            (let r = incr_and_check now (sm_name m) (bucket_key ev (event_field g))
                       (threshold g) (cooldown_seconds g) t
             in (fst (fst r), snd r))))"

fun gate_metas ::
  "(nat \<Rightarrow> time) \<Rightarrow> (nat \<Rightarrow> string) \<Rightarrow> bool \<Rightarrow> event \<Rightarrow> nat \<Rightarrow> strategy_meta list \<Rightarrow> counters
   \<Rightarrow> (strategy_meta \<times> string) list \<times> counters" where
  "gate_metas clk uuid force ev i [] t = ([], t)"
| "gate_metas clk uuid force ev i (m # ms) t =
     (let g = gate_one (clk i) force ev m t;
          r = gate_metas clk uuid force ev (Suc i) ms (snd g)
      in (if fst g then (m, uuid i) # fst r else fst r, snd r))"

definition dispatch ::
  "(nat \<Rightarrow> time) \<Rightarrow> (nat \<Rightarrow> string) \<Rightarrow> bool \<Rightarrow> string option \<Rightarrow> event \<Rightarrow> registry \<Rightarrow> counters
   \<Rightarrow> ome_error + (strategy_meta \<times> string) list \<times> counters" where
  "dispatch clk uuid force_enabled strategy_filter ev reg t =
     (case strategy_filter of
        Some name \<Rightarrow> (case get_meta name reg of Inl e \<Rightarrow> Inl e
            | Inr m \<Rightarrow> Inr (gate_metas clk uuid force_enabled ev 0 [m] t))
      | None \<Rightarrow> Inr (gate_metas clk uuid force_enabled ev 0 (lookup_by_event (ev_class ev) reg) t))"

section \<open>Inspection\<close>

record route_info =
  ri_name :: string
  enabled_pass :: bool
  applies_to_pass :: bool
  counter_pass :: bool
  counter_progress :: "(nat \<times> nat) option"

definition will_run :: "route_info \<Rightarrow> bool" where
  "will_run r = (enabled_pass r \<and> applies_to_pass r \<and> counter_pass r)"

definition inspect_one :: "event \<Rightarrow> counters \<Rightarrow> strategy_meta \<Rightarrow> route_info" where
  "inspect_one ev t m =
     (let en = sm_enabled m;
          ap = en \<and> safe_applies m ev
      in case sm_gate m of
           None \<Rightarrow> \<lparr>ri_name = sm_name m, enabled_pass = en, applies_to_pass = ap,
                     counter_pass = ap, counter_progress = None\<rparr>
         | Some g \<Rightarrow>
             (if ap then
                (let next_cur = get_progress (sm_name m) (bucket_key ev (event_field g)) t + 1
                 in \<lparr>ri_name = sm_name m, enabled_pass = en, applies_to_pass = ap,
                     counter_pass = next_cur \<ge> threshold g,
                     counter_progress = Some (next_cur, threshold g)\<rparr>)
              else \<lparr>ri_name = sm_name m, enabled_pass = en, applies_to_pass = ap,
                     counter_pass = False, counter_progress = None\<rparr>))"

definition inspect :: "event \<Rightarrow> registry \<Rightarrow> counters \<Rightarrow> route_info list" where
  "inspect ev reg t =
     map (inspect_one ev t) (filter (routes_to ev) (lookup_by_event (ev_class ev) reg))"

section \<open>What passes\<close>

text \<open>The strategy reaches its counter gate.\<close>

definition eligible :: "bool \<Rightarrow> event \<Rightarrow> strategy_meta \<Rightarrow> bool" where
  "eligible force ev m \<longleftrightarrow> routes_to ev m \<and> (force \<or> sm_enabled m) \<and> safe_applies m ev"

text \<open>The count is due, and the cooldown is over, judged on a given counter table.\<close>

definition due :: "event \<Rightarrow> counters \<Rightarrow> strategy_meta \<Rightarrow> bool" where
  "due ev t m = (case sm_gate m of None \<Rightarrow> True
     | Some g \<Rightarrow> threshold g \<le> get_progress (sm_name m) (bucket_key ev (event_field g)) t + 1)"

definition cooled :: "time \<Rightarrow> event \<Rightarrow> counters \<Rightarrow> strategy_meta \<Rightarrow> bool" where
  "cooled now ev t m = (case sm_gate m of None \<Rightarrow> True
     | Some g \<Rightarrow> cooldown_ok now (cooldown_seconds g)
                  (last_passed (sm_name m) (bucket_key ev (event_field g)) t))"

definition gate_hits :: "bool \<Rightarrow> event \<Rightarrow> strategy_meta \<Rightarrow> string \<Rightarrow> string \<Rightarrow> bool" where
  "gate_hits force ev m s b \<longleftrightarrow> eligible force ev m \<and> sm_name m = s
     \<and> (case sm_gate m of None \<Rightarrow> False | Some g \<Rightarrow> bucket_key ev (event_field g) = b)"

lemma gate_one_passes:
  "fst (gate_one now force ev m t) \<longleftrightarrow> eligible force ev m \<and> due ev t m \<and> cooled now ev t m"
  by (auto simp: gate_one_def eligible_def due_def cooled_def Let_def passed_incr split: option.splits)

lemma gate_one_counters:
  "counter_at s b (snd (gate_one now force ev m t))
   = (if gate_hits force ev m s b
      then (case sm_gate m of None \<Rightarrow> None | Some g \<Rightarrow>
              counter_at s b (snd (incr_and_check now s b (threshold g) (cooldown_seconds g) t)))
      else counter_at s b t)"
  by (auto simp: gate_one_def gate_hits_def eligible_def Let_def counter_at_incr split: option.splits)

lemma gate_one_other:
  "sm_name m \<noteq> s \<Longrightarrow> counter_at s b (snd (gate_one now force ev m t)) = counter_at s b t"
  by (simp add: gate_one_counters gate_hits_def)

lemma judged_on_own_rows:
  assumes "\<And>b. counter_at (sm_name m) b t' = counter_at (sm_name m) b t"
  shows "due ev t' m = due ev t m" and "cooled now ev t' m = cooled now ev t m"
  by (simp_all add: due_def cooled_def get_progress_def last_passed_def assms cong: option.case_cong)

lemma fst_gate_metas:
  assumes "distinct (map sm_name ms)"
    and "\<And>m b. m \<in> set ms \<Longrightarrow> counter_at (sm_name m) b t = counter_at (sm_name m) b t0"
  shows "fst (gate_metas clk uuid force ev i ms t)
         = map (\<lambda>(i, m). (m, uuid i))
             (filter (\<lambda>(i, m). eligible force ev m \<and> due ev t0 m \<and> cooled (clk i) ev t0 m)
               (enumerate i ms))"
  using assms
proof (induction ms arbitrary: i t)
  case (Cons m ms)
  let ?t = "snd (gate_one (clk i) force ev m t)"
  have "counter_at (sm_name m') b ?t = counter_at (sm_name m') b t0" if "m' \<in> set ms" for m' b
    using that Cons.prems by (subst gate_one_other) auto
  with Cons have IH: "fst (gate_metas clk uuid force ev (Suc i) ms ?t)
      = map (\<lambda>(i, m). (m, uuid i))
          (filter (\<lambda>(i, m). eligible force ev m \<and> due ev t0 m \<and> cooled (clk i) ev t0 m)
            (enumerate (Suc i) ms))" by simp
  have "counter_at (sm_name m) b t = counter_at (sm_name m) b t0" for b
    using Cons.prems(2) by simp
  from judged_on_own_rows [OF this] IH show ?case
    by (simp add: Let_def gate_one_passes)
qed simp

lemma counters_gate_metas:
  assumes "distinct (map sm_name ms)" and "\<And>m. m \<in> set ms \<Longrightarrow> \<not> gate_hits force ev m s b"
  shows "counter_at s b (snd (gate_metas clk uuid force ev i ms t)) = counter_at s b t"
  using assms by (induction ms arbitrary: i t) (simp_all add: Let_def gate_one_counters)

lemma progress_gate_metas:
  assumes "distinct (map sm_name ms)" and "m \<in> set ms" and "gate_hits force ev m s b"
  shows "get_progress s b (snd (gate_metas clk uuid force ev i ms t))
         = (if m \<in> fst ` set (fst (gate_metas clk uuid force ev i ms t)) then 0
            else get_progress s b t + 1)"
  using assms
proof (induction ms arbitrary: i t)
  case (Cons x ms)
  let ?t = "snd (gate_one (clk i) force ev x t)"
  let ?r = "gate_metas clk uuid force ev (Suc i) ms ?t"
  have in_ms: "y \<in> set ms" if "y \<in> fst ` set (fst ?r)" for y
  proof -
    have "fst ` set (fst (gate_metas clk uuid force ev j ms u)) \<subseteq> set ms" for j u
      by (induction ms arbitrary: j u) (auto simp: Let_def)
    with that show ?thesis by auto
  qed
  show ?case
  proof (cases "m = x")
    case True
    then have "m \<notin> set ms" using Cons.prems(1) by auto
    have "\<not> gate_hits force ev y s b" if "y \<in> set ms" for y
      using that True Cons.prems(1,3) by (auto simp: gate_hits_def image_iff)
    then have "counter_at s b (snd ?r) = counter_at s b ?t"
      using Cons.prems(1) by (intro counters_gate_metas) auto
    then have "get_progress s b (snd ?r) = get_progress s b ?t" by (simp add: get_progress_def)
    also have "\<dots> = (if fst (gate_one (clk i) force ev x t) then 0 else get_progress s b t + 1)"
      using Cons.prems(3) True
      by (auto simp: gate_hits_def gate_one_def eligible_def Let_def progress_incr split: option.splits)
    finally show ?thesis using True in_ms \<open>m \<notin> set ms\<close> by (auto simp: Let_def)
  next
    case False
    then have m: "m \<in> set ms" and x: "sm_name x \<noteq> s"
      using Cons.prems by (auto simp: gate_hits_def)
    then have "get_progress s b ?t = get_progress s b t"
      by (simp add: get_progress_def gate_one_other)
    then show ?thesis using Cons m False by (simp add: Let_def)
  qed
qed simp

lemma dispatch_all_eq:
  "dispatch clk uuid force None ev reg t
   = Inr (gate_metas clk uuid force ev 0 (lookup_by_event (ev_class ev) reg) t)"
  by (simp add: dispatch_def)

lemma distinct_lookup: "distinct (map sm_name reg) \<Longrightarrow> distinct (map sm_name (lookup_by_event c reg))"
  by (simp add: lookup_by_event_def distinct_map_filter)

text \<open>
  C19: what dispatching an event does.  The routed strategies are, in registration order,
  exactly those that subscribe to the event class, are addressed by it, are enabled (or
  forced), whose \<open>applies_to\<close> holds without raising, and whose counter is due and cooled
  down, judged on the counters as they stood before the call.  A strategy whose
  predicate raises is left out and changes nothing for its siblings.  Only the buckets
  of strategies that reached their gate move: to zero when the strategy is routed, up by
  one otherwise.
\<close>

theorem dispatch_functional:
  fixes ev :: event
  assumes "distinct (map sm_name reg)"
  defines "cands \<equiv> lookup_by_event (ev_class ev) reg"
  shows "\<exists>rs t'. dispatch clk uuid force None ev reg t = Inr (rs, t')
    \<and> rs = map (\<lambda>(i, m). (m, uuid i))
        (filter (\<lambda>(i, m). routes_to ev m \<and> (force \<or> sm_enabled m)
                   \<and> applies (sm_applies m) ev = Some True \<and> due ev t m \<and> cooled (clk i) ev t m)
          (enumerate 0 cands))
    \<and> (\<forall>s b. (\<forall>m \<in> set cands. \<not> gate_hits force ev m s b) \<longrightarrow> counter_at s b t' = counter_at s b t)
    \<and> (\<forall>m \<in> set cands. \<forall>s b. gate_hits force ev m s b \<longrightarrow>
         get_progress s b t' = (if m \<in> fst ` set rs then 0 else get_progress s b t + 1))"
proof -
  let ?r = "gate_metas clk uuid force ev 0 cands t"
  have d: "distinct (map sm_name cands)" using assms(1) unfolding cands_def by (rule distinct_lookup)
  have "eligible force ev m \<longleftrightarrow> routes_to ev m \<and> (force \<or> sm_enabled m)
        \<and> applies (sm_applies m) ev = Some True" for m
    by (auto simp: eligible_def safe_applies_def split: option.splits)
  then have "fst ?r = map (\<lambda>(i, m). (m, uuid i))
        (filter (\<lambda>(i, m). routes_to ev m \<and> (force \<or> sm_enabled m)
                   \<and> applies (sm_applies m) ev = Some True \<and> due ev t m \<and> cooled (clk i) ev t m)
          (enumerate 0 cands))"
    by (subst fst_gate_metas [OF d, of t t]) (simp_all add: conj_assoc)
  moreover have "dispatch clk uuid force None ev reg t = Inr (fst ?r, snd ?r)"
    by (simp add: dispatch_all_eq cands_def)
  moreover have "\<forall>s b. (\<forall>m \<in> set cands. \<not> gate_hits force ev m s b)
      \<longrightarrow> counter_at s b (snd ?r) = counter_at s b t"
    using counters_gate_metas [OF d] by simp
  moreover have "\<forall>m \<in> set cands. \<forall>s b. gate_hits force ev m s b \<longrightarrow>
      get_progress s b (snd ?r) = (if m \<in> fst ` set (fst ?r) then 0 else get_progress s b t + 1)"
    using progress_gate_metas [OF d] by simp
  ultimately show ?thesis by (intro exI conjI)
qed


definition demo_gated :: strategy_meta where
  "demo_gated = (demo_meta ''s'' (Immediate [''E'']) [])\<lparr>sm_gate :=
     Some \<lparr>threshold = 1, cooldown_seconds = 60, event_field = None\<rparr>\<rparr>"

definition demo_event :: event where
  "demo_event = \<lparr>ev_class = ''E'', ev_id = ''e'', ev_attrs = []\<rparr>"

theorem dispatch_functional_witness:
  "\<exists>t'. dispatch (\<lambda>_. 7) (\<lambda>_. ''r'') False None demo_event [demo_gated] []
        = Inr ([(demo_gated, ''r'')], t') \<and> get_progress ''s'' ''__all__'' t' = 0"
  using dispatch_functional [of "[demo_gated]" "\<lambda>_. 7" "\<lambda>_. ''r''" False demo_event "[]"]
  by (auto simp: demo_gated_def demo_meta_def demo_event_def lookup_by_event_def routes_to_def
      getattr_def due_def cooled_def cooldown_ok_def gate_hits_def eligible_def safe_applies_def
      bucket_key_def last_passed_def)


end
