(* ===== verification/Ome_Engine.thy ===== *)
theory Ome_Engine
  imports Ome_Dispatch
begin

text \<open>
  The offline engine itself: the attempt loop of \<open>infra/ome/_dispatch/runner.py\<close>, the
  start-up recovery of \<open>infra/ome/_background/crash_recovery.py\<close>, the idle scanner of
  \<open>idle_scanner.py\<close> and the parts of \<open>OfflineEngine\<close> (\<open>infra/ome/engine.py\<close>) that
  enqueue, run, account for and wait on strategy runs.

  The state is the record \<open>engine\<close>: the registry, the three stores, the one-shot jobs the
  scheduler holds, the in-flight accounting and the records handed to the dead-letter
  callback.  Everything the engine takes from outside is the record \<open>env\<close>: the
  configuration, the strategy bodies, the JSON codec of events, and oracles for the
  clock, for \<open>uuid4\<close> and for writes and scheduler calls that fail, each indexed by
  the running count \<open>draws\<close>.  Scheduling (\<open>APScheduler\<close>) is the choice of which job
  runs next; it is made by the step relation at the end.
\<close>

section \<open>State and environment\<close>

datatype exn = Exn (is_contract: bool) (exn_type: string) (exn_msg: string) (exn_trace: string)

definition format_error :: "exn \<Rightarrow> string" where
  "format_error e = exn_type e @ '': '' @ exn_msg e @ [CHR 0x0A] @ exn_trace e"

text \<open>A strategy body: it returns, raises, or awaits \<open>ctx.emit\<close> and goes on with its result.\<close>

datatype body =
    Return
  | Raise exn
  | Emit event "exn option \<Rightarrow> body"

record job =
  jb_strategy :: string
  jb_run_id :: string
  jb_topic :: string
  jb_payload :: string
  jb_max_retries :: nat

record engine =
  eg_registry :: registry
  eg_started :: bool
  eg_counters :: counters
  eg_idles :: idles
  eg_runs :: runs
  eg_jobs :: "job list"
  active_runs :: int
  idle_event :: "bool option"
  dead_letters :: "run_row list"
  draws :: nat

record env =
  cfg_max_retries :: nat
  cfg_max_records :: nat
  cfg_recovery_timeout :: nat
  cfg_recovery_enabled :: bool
  has_dead_letter_callback :: bool
  func :: "string \<Rightarrow> event \<Rightarrow> string \<Rightarrow> body"
  dump_json :: "event \<Rightarrow> string"
  load_json :: "string \<Rightarrow> string \<Rightarrow> event option"
  clk :: "nat \<Rightarrow> time"
  uuid :: "nat \<Rightarrow> string"
  write_ok :: "nat \<Rightarrow> bool"
  add_job_ok :: "nat \<Rightarrow> bool"

abbreviation draw :: "nat \<Rightarrow> engine \<Rightarrow> engine" where
  "draw n g \<equiv> g\<lparr>draws := draws g + n\<rparr>"

abbreviation ome_exn :: "string \<Rightarrow> exn" where
  "ome_exn msg \<equiv> Exn False ''OMEError'' msg []"

abbreviation store_exn :: exn where
  "store_exn \<equiv> Exn False ''OperationalError'' ''run_record'' []"

section \<open>In-flight accounting\<close>

definition on_run_enqueued :: "engine \<Rightarrow> engine" where
  "on_run_enqueued g = g\<lparr>active_runs := active_runs g + 1,
     idle_event := map_option (\<lambda>_. False) (idle_event g)\<rparr>"

definition on_run_completed :: "engine \<Rightarrow> engine" where
  "on_run_completed g =
     (if active_runs g \<le> 0
      then g\<lparr>active_runs := 0, idle_event := map_option (\<lambda>_. True) (idle_event g)\<rparr>
      else (let n = active_runs g - 1 in
        g\<lparr>active_runs := n,
          idle_event := (if n = 0 then map_option (\<lambda>_. True) (idle_event g) else idle_event g)\<rparr>))"

text \<open>What \<open>wait_idle\<close> finds now: whether it returns \<open>True\<close> without waiting.\<close>

definition idle_now :: "engine \<Rightarrow> bool" where
  "idle_now g = (case idle_event g of None \<Rightarrow> active_runs g = 0 | Some b \<Rightarrow> b)"

text \<open>\<open>scheduler.add_job(.., id=run_id, replace_existing=False)\<close> between the +1 and its
  roll-back, shared by \<open>_enqueue_run\<close> and \<open>_enqueue_recovery_job\<close>.\<close>

definition add_job :: "env \<Rightarrow> job \<Rightarrow> engine \<Rightarrow> exn option \<times> engine" where
  "add_job e j g =
     (let g1 = on_run_enqueued g in
      if add_job_ok e (draws g1) \<and> jb_run_id j \<notin> jb_run_id ` set (eg_jobs g1)
      then (None, draw 1 (g1\<lparr>eg_jobs := eg_jobs g1 @ [j]\<rparr>))
      else (Some (Exn False ''ConflictingIdError'' (jb_run_id j) []), draw 1 (on_run_completed g1)))"

definition enqueue_run :: "env \<Rightarrow> strategy_meta \<Rightarrow> event \<Rightarrow> string \<Rightarrow> engine \<Rightarrow> exn option \<times> engine" where
  "enqueue_run e m ev rid g =
     add_job e \<lparr>jb_strategy = sm_name m, jb_run_id = rid, jb_topic = ev_class ev,
                jb_payload = dump_json e ev,
                jb_max_retries = (case sm_max_retries m of Some n \<Rightarrow> n | None \<Rightarrow> cfg_max_retries e)\<rparr> g"

fun enqueue_routes :: "env \<Rightarrow> event \<Rightarrow> (strategy_meta \<times> string) list \<Rightarrow> engine \<Rightarrow> exn option \<times> engine" where
  "enqueue_routes e ev [] g = (None, g)"
| "enqueue_routes e ev ((m, rid) # rs) g =
     (case enqueue_run e m ev rid g of
        (Some x, g') \<Rightarrow> (Some x, g')
      | (None, g') \<Rightarrow> enqueue_routes e ev rs g')"

section \<open>Emitting events\<close>

text \<open>The activity bookkeeping of \<open>_dispatch_event\<close>; a failing \<open>touch\<close> is swallowed.\<close>

definition touch_one :: "env \<Rightarrow> event \<Rightarrow> strategy_meta \<Rightarrow> engine \<Rightarrow> engine" where
  "touch_one e ev m g =
     (case sm_trigger m of
        Idle on f n si \<Rightarrow>
          (if ev_class ev \<in> set on \<and> getattr ev f \<noteq> PNone
           then (if write_ok e (draws g)
                 then draw 1 (g\<lparr>eg_idles := touch (sm_name m) (py_str (getattr ev f))
                                              (clk e (draws g)) (eg_idles g)\<rparr>)
                 else draw 1 g)
           else g)
      | _ \<Rightarrow> g)"

definition run_dispatch ::
  "env \<Rightarrow> bool \<Rightarrow> string option \<Rightarrow> event \<Rightarrow> engine \<Rightarrow> exn option \<times> engine" where
  "run_dispatch e force filt ev g =
     (case dispatch (\<lambda>i. clk e (draws g + i)) (\<lambda>i. uuid e (draws g + i)) force filt ev
             (eg_registry g) (eg_counters g) of
        Inl err \<Rightarrow> (Some (Exn False ''KeyError'' [] []), g)
      | Inr (routes, t) \<Rightarrow>
          enqueue_routes e ev routes (draw (length (eg_registry g)) (g\<lparr>eg_counters := t\<rparr>)))"

definition dispatch_event :: "env \<Rightarrow> event \<Rightarrow> engine \<Rightarrow> exn option \<times> engine" where
  "dispatch_event e ev g =
     (if \<not> eg_started g then (Some (ome_exn ''emit: engine not started''), g)
      else run_dispatch e False None ev (fold (touch_one e ev) (eg_registry g) g))"

definition trigger_manual :: "env \<Rightarrow> string \<Rightarrow> event option \<Rightarrow> bool \<Rightarrow> engine \<Rightarrow> exn option \<times> engine" where
  "trigger_manual e name given force g =
     (if \<not> eg_started g then (Some (ome_exn ''trigger_manual: engine not started''), g)
      else (case given of
          Some ev \<Rightarrow> run_dispatch e force (Some name) ev g
        | None \<Rightarrow> run_dispatch e force (Some name) (manual_tick (uuid e (draws g)) name) (draw 1 g)))"

text \<open>\<open>IdleScanner.scan_once\<close>: one tick per overdue bucket, failing emits swallowed.\<close>

fun emit_ticks :: "env \<Rightarrow> string \<Rightarrow> nat \<Rightarrow> string list \<Rightarrow> engine \<Rightarrow> engine" where
  "emit_ticks e s n [] g = g"
| "emit_ticks e s n (b # bs) g =
     emit_ticks e s n bs (snd (dispatch_event e (idle_tick (uuid e (draws g)) s b n) (draw 1 g)))"

definition run_idle_scan :: "env \<Rightarrow> string \<Rightarrow> engine \<Rightarrow> exn option \<times> engine" where
  "run_idle_scan e s g =
     (case get_meta s (eg_registry g) of
        Inl err \<Rightarrow> (Some (Exn False ''KeyError'' s []), g)
      | Inr m \<Rightarrow> (case sm_trigger m of
            Idle on f n si \<Rightarrow>
              (None, emit_ticks e s n (scan_idle s n (clk e (draws g)) (eg_idles g)) (draw 1 g))
          | _ \<Rightarrow> (None, g)))"

section \<open>Runner\<close>

text \<open>\<open>await meta.func(event, ctx)\<close>: \<open>ctx.emit\<close> refuses undeclared event classes.\<close>

primrec run_body :: "body \<Rightarrow> env \<Rightarrow> strategy_meta \<Rightarrow> engine \<Rightarrow> exn option \<times> engine" where
  "run_body Return e m g = (None, g)"
| "run_body (Raise x) e m g = (Some x, g)"
| "run_body (Emit ev k) e m g =
     (if ev_class ev \<notin> set (sm_emits m)
      then run_body (k (Some (Exn True ''EmitNotDeclaredError'' (sm_name m) []))) e m g
      else run_body (k (fst (dispatch_event e ev g))) e m (snd (dispatch_event e ev g)))"

text \<open>One write of the run store: \<open>None\<close> if it raises.\<close>

definition write_runs :: "env \<Rightarrow> (runs \<Rightarrow> runs) \<Rightarrow> engine \<Rightarrow> exn option \<times> engine" where
  "write_runs e f g =
     (if write_ok e (draws g) then (None, draw 1 (g\<lparr>eg_runs := f (eg_runs g)\<rparr>))
      else (Some store_exn, draw 1 g))"

definition record_start ::
  "env \<Rightarrow> string \<Rightarrow> string \<Rightarrow> nat \<Rightarrow> string \<Rightarrow> string \<Rightarrow> nat \<Rightarrow> string \<Rightarrow> engine \<Rightarrow> bool \<times> engine" where
  "record_start e rid s att topic payload mrs eid g =
     (if \<not> write_ok e (draws g) then (False, draw 1 g)
      else (case mark_running (cfg_max_records e) (clk e (draws g)) rid s att topic payload mrs eid
                   (eg_runs g) of
          Inl err \<Rightarrow> (False, draw 1 g)
        | Inr t \<Rightarrow> (True, draw 1 (g\<lparr>eg_runs := t\<rparr>))))"

text \<open>The callback's own exceptions are swallowed; a row that is gone is not reported.\<close>

definition fire_dead_letter_callback :: "env \<Rightarrow> string \<Rightarrow> engine \<Rightarrow> exn option \<times> engine" where
  "fire_dead_letter_callback e rid g =
     (if \<not> has_dead_letter_callback e then (None, g)
      else (case get_run rid (eg_runs g) of
          Inl err \<Rightarrow> (Some (Exn False ''ValidationError'' rid []), g)
        | Inr None \<Rightarrow> (None, g)
        | Inr (Some r) \<Rightarrow> (None, g\<lparr>dead_letters := dead_letters g @ [r]\<rparr>)))"

definition terminate_dead_letter :: "env \<Rightarrow> string \<Rightarrow> string \<Rightarrow> engine \<Rightarrow> exn option \<times> engine" where
  "terminate_dead_letter e rid err g =
     (case write_runs e (mark_dead_letter rid (clk e (draws g)) err) g of
        (Some x, g') \<Rightarrow> (Some x, g')
      | (None, g') \<Rightarrow> fire_dead_letter_callback e rid g')"

text \<open>How an attempt ends: an exception leaves the runner, or it reports whether a terminal
  state was reached.\<close>

definition finish_attempt ::
  "env \<Rightarrow> string \<Rightarrow> nat \<Rightarrow> nat \<Rightarrow> exn option \<Rightarrow> engine \<Rightarrow> (exn + bool) \<times> engine" where
  "finish_attempt e rid att mrs out g =
     (case out of
        None \<Rightarrow> (case write_runs e (mark_success rid (clk e (draws g))) g of
            (Some x, g') \<Rightarrow> (Inl x, g') | (None, g') \<Rightarrow> (Inr True, g'))
      | Some x \<Rightarrow>
          (if \<not> is_contract x \<and> att < mrs
           then (case write_runs e (mark_run_failed rid (clk e (draws g)) (format_error x)) g of
               (Some y, g') \<Rightarrow> (Inl y, g') | (None, g') \<Rightarrow> (Inr False, g'))
           else (case terminate_dead_letter e rid (format_error x) g of
               (Some y, g') \<Rightarrow> (Inl y, g') | (None, g') \<Rightarrow> (Inr True, g'))))"

definition run_one_attempt ::
  "env \<Rightarrow> strategy_meta \<Rightarrow> event \<Rightarrow> string \<Rightarrow> nat \<Rightarrow> nat \<Rightarrow> engine \<Rightarrow> (exn + bool) \<times> engine" where
  "run_one_attempt e m ev rid att mrs g =
     (case record_start e rid (sm_name m) att (ev_class ev) (dump_json e ev) mrs (ev_id ev) g of
        (False, g1) \<Rightarrow> (Inr True, g1)
      | (True, g1) \<Rightarrow>
          (case run_body (func e (sm_name m) ev rid) e m g1 of
             (out, g2) \<Rightarrow> finish_attempt e rid att mrs out g2))"

text \<open>\<open>for attempt in range(max_retries_snapshot + 1)\<close>, with \<open>left\<close> iterations to go.\<close>

fun run_attempts ::
  "env \<Rightarrow> strategy_meta \<Rightarrow> event \<Rightarrow> nat \<Rightarrow> nat \<Rightarrow> nat \<Rightarrow> string \<Rightarrow> engine \<Rightarrow> exn option \<times> engine" where
  "run_attempts e m ev mrs 0 att rid g = (None, g)"
| "run_attempts e m ev mrs (Suc left) att rid g =
     (let rid' = (if 0 < att then uuid e (draws g) else rid);
          g' = (if 0 < att then draw 1 g else g)
      in case run_one_attempt e m ev rid' att mrs g' of
           (Inl x, g2) \<Rightarrow> (Some x, g2)
         | (Inr True, g2) \<Rightarrow> (None, g2)
         | (Inr False, g2) \<Rightarrow> run_attempts e m ev mrs left (att + 1) rid' g2)"

definition run :: "env \<Rightarrow> strategy_meta \<Rightarrow> event \<Rightarrow> string \<Rightarrow> nat \<Rightarrow> engine \<Rightarrow> exn option \<times> engine" where
  "run e m ev rid mrs g = run_attempts e m ev mrs (mrs + 1) 0 rid g"

text \<open>\<open>_sleep_backoff\<close>: the delay before retry \<open>attempt\<close>, \<open>None\<close> when backoff is off;
  \<open>jitter\<close> is the uniform draw.\<close>

definition backoff_seconds :: "rat \<Rightarrow> rat \<Rightarrow> rat \<Rightarrow> rat \<Rightarrow> nat \<Rightarrow> rat option" where
  "backoff_seconds base cap jitter_max jitter attempt_no =
     (if base \<le> 0 then None
      else Some (min (base * 2 ^ (attempt_no - 1)) cap + (if jitter_max > 0 then jitter else 0)))"

definition dispatch_run :: "env \<Rightarrow> job \<Rightarrow> engine \<Rightarrow> exn option \<times> engine" where
  "dispatch_run e j g =
     (case (case load_json e (jb_topic j) (jb_payload j) of
              None \<Rightarrow> (Some (Exn False ''ValidationError'' (jb_topic j) []), g)
            | Some ev \<Rightarrow> (case get_meta (jb_strategy j) (eg_registry g) of
                Inl err \<Rightarrow> (Some (Exn False ''KeyError'' (jb_strategy j) []), g)
              | Inr m \<Rightarrow> run e m ev (jb_run_id j) (jb_max_retries j) g)) of
        (out, g') \<Rightarrow> (out, on_run_completed g'))"

section \<open>Crash recovery\<close>

fun resume_rows :: "env \<Rightarrow> time \<Rightarrow> time \<Rightarrow> run_row list \<Rightarrow> engine \<Rightarrow> exn option \<times> engine" where
  "resume_rows e now cutoff [] g = (None, g)"
| "resume_rows e now cutoff (r # rs) g =
     (if started_at r \<ge> cutoff then resume_rows e now cutoff rs g
      else (case write_runs e (mark_crashed (run_id r) now
                   ''crash recovery: marked CRASHED after start scan'') g of
          (Some x, g1) \<Rightarrow> (Some x, g1)
        | (None, g1) \<Rightarrow>
            resume_rows e now cutoff rs
              (snd (add_job e \<lparr>jb_strategy = run_strategy r, jb_run_id = uuid e (draws g1),
                               jb_topic = event_topic r, jb_payload = event_payload r,
                               jb_max_retries = max_retries_snapshot r\<rparr> (draw 1 g1)))))"

definition scan_and_resume :: "env \<Rightarrow> engine \<Rightarrow> exn option \<times> engine" where
  "scan_and_resume e g =
     (if cfg_recovery_timeout e = 0
      then (Some (Exn False ''ValueError'' ''timeout_seconds must be > 0'' []), g)
      else (let now = clk e (draws g);
                cutoff = now - seconds (cfg_recovery_timeout e);
                g' = draw 1 g
            in case find_running (eg_runs g') of
                 Inl err \<Rightarrow> (Some (Exn False ''ValidationError'' [] []), g')
               | Inr rows \<Rightarrow> resume_rows e now cutoff rows g'))"

section \<open>Waiting for an event's runs\<close>

definition terminal :: "run_status \<Rightarrow> bool" where
  "terminal st \<longleftrightarrow> st \<in> {SUCCESS, FAILED, DEAD_LETTER, CRASHED}"

text \<open>One poll of \<open>wait_for_event\<close>: \<open>Some\<close> rows to return, or go on waiting.\<close>

definition poll_event :: "string \<Rightarrow> engine \<Rightarrow> store_error + run_row list option" where
  "poll_event eid g =
     (case list_by_event_id eid (eg_runs g) of
        Inl err \<Rightarrow> Inl err
      | Inr rows \<Rightarrow> Inr (if rows \<noteq> [] \<and> list_all (\<lambda>r. terminal (run_status r)) rows
                       then Some rows else None))"

text \<open>The loop over the engine states its polls observe; running out of polls is the timeout.\<close>

datatype wait_result = Wait_runs "run_row list" | Wait_timeout | Wait_error

fun wait_for_event :: "string \<Rightarrow> engine list \<Rightarrow> wait_result" where
  "wait_for_event eid [] = Wait_timeout"
| "wait_for_event eid (g # gs) =
     (if \<not> eg_started g then Wait_error
      else (case poll_event eid g of
          Inl err \<Rightarrow> Wait_error
        | Inr (Some rows) \<Rightarrow> Wait_runs rows
        | Inr None \<Rightarrow> wait_for_event eid gs))"

section \<open>Lifecycle\<close>

definition rollback_partial_start :: "engine \<Rightarrow> engine" where
  "rollback_partial_start g = g\<lparr>idle_event := None, active_runs := 0, eg_jobs := []\<rparr>"

definition start ::
  "env \<Rightarrow> (string list \<Rightarrow> string list) \<Rightarrow> (string \<Rightarrow> string list) \<Rightarrow> engine \<Rightarrow> exn option \<times> engine" where
  "start e it mfields g =
     (if eg_started g then (None, g)
      else (case validate it mfields (eg_registry g) of
          Some (Inr u) \<Rightarrow>
            (case (if cfg_recovery_enabled e then scan_and_resume e (g\<lparr>idle_event := Some True\<rparr>)
                   else (None, g\<lparr>idle_event := Some True\<rparr>)) of
               (Some x, g') \<Rightarrow> (Some x, rollback_partial_start g')
             | (None, g') \<Rightarrow> (None, g'\<lparr>eg_started := True\<rparr>))
        | _ \<Rightarrow> (Some (Exn False ''StartupValidationError'' [] []), rollback_partial_start g)))"

definition stop :: "engine \<Rightarrow> engine" where
  "stop g = (if \<not> eg_started g then g
             else g\<lparr>eg_started := False, idle_event := None, active_runs := 0, eg_jobs := []\<rparr>)"

text \<open>The public calls: refused inside a strategy, refused before \<open>start\<close>.\<close>

definition refuse_inside_strategy ::
  "string option \<Rightarrow> string \<Rightarrow> (engine \<Rightarrow> exn option \<times> engine) \<Rightarrow> engine \<Rightarrow> exn option \<times> engine" where
  "refuse_inside_strategy current meth f g =
     (case current of
        Some s \<Rightarrow> (Some (Exn True ''EngineCallFromStrategyError'' (s @ ''.'' @ meth) []), g)
      | None \<Rightarrow> f g)"

definition api_emit :: "env \<Rightarrow> string option \<Rightarrow> event \<Rightarrow> engine \<Rightarrow> exn option \<times> engine" where
  "api_emit e current ev = refuse_inside_strategy current ''emit'' (dispatch_event e ev)"

definition cron_entry :: "env \<Rightarrow> string \<Rightarrow> engine \<Rightarrow> exn option \<times> engine" where
  "cron_entry e s g = dispatch_event e (cron_tick (uuid e (draws g)) s) (draw 1 g)"

definition engine_register :: "strategy_meta \<Rightarrow> engine \<Rightarrow> ome_error + engine" where
  "engine_register m g =
     (if eg_started g then Inl Ome_error
      else (case register m (eg_registry g) of
          Inl err \<Rightarrow> Inl err | Inr reg \<Rightarrow> Inr (g\<lparr>eg_registry := reg\<rparr>)))"

definition inspect_dispatch :: "event \<Rightarrow> engine \<Rightarrow> ome_error + route_info list" where
  "inspect_dispatch ev g =
     (if \<not> eg_started g then Inl Ome_error else Inr (inspect ev (eg_registry g) (eg_counters g)))"

section \<open>Accounting of runs in flight\<close>

text \<open>\<open>n\<close> jobs are executing, the rest of the in-flight runs are jobs the scheduler holds.\<close>

definition accounted :: "nat \<Rightarrow> engine \<Rightarrow> bool" where
  "accounted n g \<longleftrightarrow> active_runs g = int (length (eg_jobs g) + n)
     \<and> idle_event g = Some (active_runs g = 0)"

lemma accounted_other [simp]:
  "accounted n (g\<lparr>draws := d\<rparr>) = accounted n g"
  "accounted n (g\<lparr>eg_runs := r\<rparr>) = accounted n g"
  "accounted n (g\<lparr>eg_idles := i\<rparr>) = accounted n g"
  "accounted n (g\<lparr>eg_counters := c\<rparr>) = accounted n g"
  "accounted n (g\<lparr>dead_letters := l\<rparr>) = accounted n g"
  "accounted n (g\<lparr>eg_started := b\<rparr>) = accounted n g"
  by (simp_all add: accounted_def)

lemma accounted_completed: "accounted (Suc n) g \<Longrightarrow> accounted n (on_run_completed g)"
  by (auto simp: accounted_def on_run_completed_def Let_def)

lemma accounted_add_job: "accounted n g \<Longrightarrow> accounted n (snd (add_job e j g))"
  by (auto simp: accounted_def add_job_def on_run_enqueued_def on_run_completed_def Let_def)

lemma accounted_enqueue_routes: "accounted n g \<Longrightarrow> accounted n (snd (enqueue_routes e ev rs g))"
proof (induction rs arbitrary: g)
  case (Cons r rs)
  obtain m rid where r: "r = (m, rid)" by (cases r)
  have "accounted n (snd (enqueue_run e m ev rid g))"
    using Cons.prems unfolding enqueue_run_def by (rule accounted_add_job)
  then show ?case
    by (cases "enqueue_run e m ev rid g") (auto simp: r Cons.IH split: option.split)
qed simp

lemma accounted_touch: "accounted n g \<Longrightarrow> accounted n (touch_one e ev m g)"
  by (simp add: touch_one_def split: trigger.split)

lemma accounted_fold_touch: "accounted n g \<Longrightarrow> accounted n (fold (touch_one e ev) ms g)"
  by (induction ms arbitrary: g) (simp_all add: accounted_touch)

lemma accounted_run_dispatch: "accounted n g \<Longrightarrow> accounted n (snd (run_dispatch e force filt ev g))"
  by (auto simp: run_dispatch_def intro!: accounted_enqueue_routes split: sum.split)

lemma accounted_dispatch_event: "accounted n g \<Longrightarrow> accounted n (snd (dispatch_event e ev g))"
  by (simp add: dispatch_event_def accounted_run_dispatch accounted_fold_touch)

lemma accounted_trigger_manual: "accounted n g \<Longrightarrow> accounted n (snd (trigger_manual e name given force g))"
  by (auto simp: trigger_manual_def intro!: accounted_run_dispatch split: option.split)

lemma accounted_emit_ticks: "accounted n g \<Longrightarrow> accounted n (emit_ticks e s k bs g)"
  by (induction bs arbitrary: g) (simp_all add: accounted_dispatch_event)

lemma accounted_idle_scan: "accounted n g \<Longrightarrow> accounted n (snd (run_idle_scan e s g))"
  by (auto simp: run_idle_scan_def intro!: accounted_emit_ticks split: sum.split trigger.split)

lemma accounted_write: "accounted n g \<Longrightarrow> accounted n (snd (write_runs e f g))"
  by (simp add: write_runs_def)

lemma accounted_run_body: "accounted n g \<Longrightarrow> accounted n (snd (run_body b e m g))"
  by (induction b arbitrary: g) (simp_all add: accounted_dispatch_event)

lemma accounted_fire: "accounted n g \<Longrightarrow> accounted n (snd (fire_dead_letter_callback e rid g))"
  by (simp add: fire_dead_letter_callback_def split: sum.split option.split)

lemma accounted_terminate: "accounted n g \<Longrightarrow> accounted n (snd (terminate_dead_letter e rid err g))"
proof -
  assume a: "accounted n g"
  obtain r g1 where w: "write_runs e (mark_dead_letter rid (clk e (draws g)) err) g = (r, g1)" by fastforce
  then have "accounted n g1" using accounted_write [OF a] by (metis snd_conv)
  then show ?thesis by (auto simp: terminate_dead_letter_def w accounted_fire split: option.split)
qed

lemma accounted_finish: "accounted n g \<Longrightarrow> accounted n (snd (finish_attempt e rid att mrs out g))"
proof -
  assume a: "accounted n g"
  have split_keep: "accounted n (snd (case r of (Some x, g') \<Rightarrow> (Inl x, g') | (None, g') \<Rightarrow> (Inr b, g')))"
    if "accounted n (snd r)" for r :: "exn option \<times> engine" and b :: bool
    using that by (cases r) (auto split: option.split)
  show ?thesis
    unfolding finish_attempt_def
    by (auto intro!: split_keep accounted_write accounted_terminate a split: option.split)
qed

lemma accounted_record_start: "accounted n g \<Longrightarrow> accounted n (snd (record_start e rid s att tp pl mrs eid g))"
  by (simp add: record_start_def split: sum.split)

lemma accounted_attempt: "accounted n g \<Longrightarrow> accounted n (snd (run_one_attempt e m ev rid att mrs g))"
proof -
  assume a: "accounted n g"
  obtain ok g1 where w: "record_start e rid (sm_name m) att (ev_class ev) (dump_json e ev) mrs (ev_id ev) g
      = (ok, g1)" by fastforce
  obtain out g2 where b: "run_body (func e (sm_name m) ev rid) e m g1 = (out, g2)" by fastforce
  have g1: "accounted n g1" using accounted_record_start [OF a] w by (metis snd_conv)
  then have "accounted n g2" using accounted_run_body b by (metis snd_conv)
  with g1 show ?thesis by (simp add: run_one_attempt_def w b accounted_finish split: bool.split)
qed

lemma accounted_resume_rows: "accounted n g \<Longrightarrow> accounted n (snd (resume_rows e now cutoff rs g))"
proof (induction rs arbitrary: g)
  case (Cons r rs)
  show ?case
  proof (cases "started_at r \<ge> cutoff")
    case False
    obtain out g1 where w: "write_runs e (mark_crashed (run_id r) now
        ''crash recovery: marked CRASHED after start scan'') g = (out, g1)" by fastforce
    then have "accounted n g1" using accounted_write [OF Cons.prems] by (metis snd_conv)
    then show ?thesis
      using False w by (auto intro!: Cons.IH accounted_add_job split: option.split)
  qed (simp add: Cons)
qed simp

lemma accounted_recovery: "accounted n g \<Longrightarrow> accounted n (snd (scan_and_resume e g))"
  by (auto simp: scan_and_resume_def Let_def intro!: accounted_resume_rows split: sum.split)

lemmas accounting = accounted_completed accounted_dispatch_event accounted_trigger_manual
  accounted_idle_scan accounted_attempt accounted_recovery

text \<open>
  The engine with the jobs that are executing.  Every call the engine serves, every start
  of a job by the scheduler, every attempt of an executing job (with its emits) and every
  end of a job is a step; they interleave freely.
\<close>

type_synonym system = "engine \<times> job list"

inductive engine_step :: "env \<Rightarrow> system \<Rightarrow> system \<Rightarrow> bool" for e where
  emit: "engine_step e (g, xs) (snd (dispatch_event e ev g), xs)"
| manual: "engine_step e (g, xs) (snd (trigger_manual e name given force g), xs)"
| idle: "engine_step e (g, xs) (snd (run_idle_scan e s g), xs)"
| begin_job: "eg_jobs g = as @ j # bs \<Longrightarrow> engine_step e (g, xs) (g\<lparr>eg_jobs := as @ bs\<rparr>, j # xs)"
| attempt_job: "j \<in> set xs \<Longrightarrow> engine_step e (g, xs) (snd (run_one_attempt e m ev rid att mrs g), xs)"
| end_job: "j \<in> set xs \<Longrightarrow> engine_step e (g, xs) (on_run_completed g, remove1 j xs)"

inductive engine_reachable :: "env \<Rightarrow> system \<Rightarrow> bool" for e where
  booted: "start e it mfields g0 = (None, g) \<Longrightarrow> \<not> eg_started g0 \<Longrightarrow> active_runs g0 = 0
           \<Longrightarrow> eg_jobs g0 = [] \<Longrightarrow> engine_reachable e (g, [])"
| step: "engine_reachable e s \<Longrightarrow> engine_step e s s' \<Longrightarrow> engine_reachable e s'"

inductive_cases engine_step_cases: "engine_step e s s'"

lemma start_accounted:
  assumes "start e it mfields g0 = (None, g)" and "\<not> eg_started g0" and "active_runs g0 = 0"
    and "eg_jobs g0 = []"
  shows "accounted 0 g"
proof -
  let ?g = "g0\<lparr>idle_event := Some True\<rparr>"
  have "accounted 0 ?g" using assms by (simp add: accounted_def)
  with accounted_recovery [OF this, of e] assms(1,2) show ?thesis
    by (auto simp: start_def case_prod_unfold split: option.splits sum.splits if_splits)
qed

lemma engine_step_accounted:
  "engine_step e s s' \<Longrightarrow> accounted (length (snd s)) (fst s) \<Longrightarrow> accounted (length (snd s')) (fst s')"
proof (induction rule: engine_step.induct)
  case (end_job j xs g)
  then have "length xs = Suc (length (remove1 j xs))"
    using length_pos_if_in_set [of j xs] by (simp add: length_remove1)
  with end_job show ?case by (simp add: accounting)
next
  case (begin_job g as j bs xs)
  then show ?case by (simp add: accounted_def)
qed (simp_all add: accounting)


definition demo_env :: "(nat \<Rightarrow> bool) \<Rightarrow> body \<Rightarrow> env" where
  "demo_env fails b = \<lparr>cfg_max_retries = 2, cfg_max_records = 10, cfg_recovery_timeout = 60,
     cfg_recovery_enabled = True, has_dead_letter_callback = True, func = (\<lambda>s ev rid. b),
     dump_json = (\<lambda>ev. ''payload''), load_json = (\<lambda>tp p. Some demo_event),
     clk = (\<lambda>k. int k * 1000000), uuid = (\<lambda>k. ''u'' @ dec k), write_ok = (\<lambda>k. \<not> fails k),
     add_job_ok = (\<lambda>k. True)\<rparr>"

definition demo_engine :: engine where
  "demo_engine = \<lparr>eg_registry = [demo_meta ''s'' (Immediate [''E'']) []], eg_started = False,
     eg_counters = [], eg_idles = [], eg_runs = [], eg_jobs = [], active_runs = 0,
     idle_event = None, dead_letters = [], draws = 0\<rparr>"

lemma demo_start:
  "start (demo_env (\<lambda>_. False) Return) (\<lambda>xs. xs) (\<lambda>_. []) demo_engine
   = (None, demo_engine\<lparr>eg_started := True, idle_event := Some True, draws := Suc 0\<rparr>)"
proof -
  have "validate_no_cycles (\<lambda>xs. xs) (eg_registry demo_engine) = Some (Inr ())" by code_simp
  then have "validate (\<lambda>xs. xs) (\<lambda>_. []) (eg_registry demo_engine) = Some (Inr ())"
    by (simp add: validate_def) (simp add: demo_engine_def demo_meta_def gate_fields_ok_def)
  then show ?thesis
    by (simp add: start_def) (simp add: demo_engine_def scan_and_resume_def demo_env_def find_running_def)
qed

lemma dec_1: "dec (Suc 0) = ''1''"
  by code_simp

lemma demo_dispatch:
  "dispatch_event (demo_env f b) demo_event (demo_engine\<lparr>eg_started := True, idle_event := Some True, draws := Suc 0\<rparr>)
   = (None, demo_engine\<lparr>eg_started := True, idle_event := Some False, active_runs := 1, draws := 3,
       eg_jobs := [\<lparr>jb_strategy = ''s'', jb_run_id = ''u1'', jb_topic = ''E'', jb_payload = ''payload'',
                    jb_max_retries = 2\<rparr>]\<rparr>)"
  by (simp add: dispatch_event_def run_dispatch_def touch_one_def demo_engine_def demo_env_def demo_meta_def
      demo_event_def dispatch_def lookup_by_event_def gate_one_def routes_to_def getattr_def safe_applies_def
      enqueue_run_def add_job_def on_run_enqueued_def dec_1)


section \<open>Recovery\<close>

definition faultless :: "env \<Rightarrow> bool" where
  "faultless e \<longleftrightarrow> (\<forall>k. write_ok e k) \<and> (\<forall>k. add_job_ok e k) \<and> inj (uuid e)"

definition fresh_jobs :: "env \<Rightarrow> engine \<Rightarrow> bool" where
  "fresh_jobs e g \<longleftrightarrow> (\<forall>k \<ge> draws g. uuid e k \<notin> jb_run_id ` set (eg_jobs g))"

abbreviation crash_text :: string where
  "crash_text \<equiv> ''crash recovery: marked CRASHED after start scan''"

definition crash :: "time \<Rightarrow> run_row \<Rightarrow> run_row" where
  "crash now r = r\<lparr>run_status := CRASHED, finished_at := Some now, run_error := Some crash_text\<rparr>"

definition job_data :: "job \<Rightarrow> string \<times> string \<times> string \<times> nat" where
  "job_data j = (jb_strategy j, jb_topic j, jb_payload j, jb_max_retries j)"

definition row_data :: "run_row \<Rightarrow> string \<times> string \<times> string \<times> nat" where
  "row_data r = (run_strategy r, event_topic r, event_payload r, max_retries_snapshot r)"

lemma add_job_fresh:
  assumes "faultless e" and "jb_run_id j \<notin> jb_run_id ` set (eg_jobs g)"
  shows "snd (add_job e j g)
    = draw 1 ((on_run_enqueued g)\<lparr>eg_jobs := eg_jobs g @ [j]\<rparr>)"
  using assms by (auto simp: add_job_def on_run_enqueued_def faultless_def)

lemma resume_rows_eq:
  assumes "faultless e" and "fresh_jobs e g"
  shows "fst (resume_rows e now cutoff rs g) = None
    \<and> eg_runs (snd (resume_rows e now cutoff rs g))
        = fold (\<lambda>r. update_where (\<lambda>x. run_id x = run_id r) (crash now))
            (filter (\<lambda>r. started_at r < cutoff) rs) (eg_runs g)
    \<and> map job_data (eg_jobs (snd (resume_rows e now cutoff rs g)))
        = map job_data (eg_jobs g) @ map row_data (filter (\<lambda>r. started_at r < cutoff) rs)
    \<and> active_runs (snd (resume_rows e now cutoff rs g))
        = active_runs g + int (length (filter (\<lambda>r. started_at r < cutoff) rs))"
  using assms(2)
proof (induction rs arbitrary: g)
  case (Cons r rs)
  show ?case
  proof (cases "started_at r \<ge> cutoff")
    case False
    let ?g1 = "draw 1 (g\<lparr>eg_runs := mark_crashed (run_id r) now crash_text (eg_runs g)\<rparr>)"
    let ?j = "\<lparr>jb_strategy = run_strategy r, jb_run_id = uuid e (draws ?g1), jb_topic = event_topic r,
               jb_payload = event_payload r, jb_max_retries = max_retries_snapshot r\<rparr>"
    let ?g2 = "draw 1 ((on_run_enqueued (draw 1 ?g1))\<lparr>eg_jobs := eg_jobs g @ [?j]\<rparr>)"
    have w: "write_runs e (mark_crashed (run_id r) now crash_text) g = (None, ?g1)"
      using assms(1) by (simp add: write_runs_def faultless_def)
    have "snd (add_job e ?j (draw 1 ?g1)) = ?g2"
      using assms(1) Cons.prems by (subst add_job_fresh) (auto simp: fresh_jobs_def on_run_enqueued_def)
    then have eq: "resume_rows e now cutoff (r # rs) g = resume_rows e now cutoff rs ?g2"
      using False by (simp add: w)
    have "fresh_jobs e ?g2"
      using Cons.prems assms(1)
      by (auto simp: fresh_jobs_def on_run_enqueued_def faultless_def dest: injD)
    from Cons.IH [OF this] False show ?thesis
      unfolding eq
      by (simp add: on_run_enqueued_def mark_crashed_def update_status_def crash_def [abs_def]
          job_data_def row_data_def)
  qed (simp add: Cons)
qed simp

lemma fold_update_ids:
  assumes "\<And>x. run_id (f x) = run_id x" and "\<And>x. f (f x) = f x"
  shows "fold (\<lambda>r. update_where (\<lambda>x. run_id x = run_id r) f) rs t
         = update_where (\<lambda>x. run_id x \<in> run_id ` set rs) f t"
proof (induction rs arbitrary: t)
  case Nil
  show ?case by (simp add: update_where_def)
next
  case (Cons r rs)
  show ?case
    by (simp only: fold.simps comp_apply Cons.IH) (auto simp: update_where_def assms)
qed

lemma update_where_ids_eq:
  assumes "distinct (map run_id t)"
  shows "update_where (\<lambda>x. run_id x \<in> run_id ` set (filter p t)) f t = update_where p f t"
  using assms by (auto simp: update_where_def distinct_map dest!: inj_onD)

text \<open>
  C21: start-up recovery.  On a well-formed store and without failing writes, the scan
  marks exactly the rows that are \<open>RUNNING\<close> and older than the timeout as \<open>CRASHED\<close>,
  leaves every other row as it was, hands the scheduler exactly one job per such row with
  the row's own strategy, event and retry budget, counts each of them as in flight, and
  leaves no stale \<open>RUNNING\<close> row behind.
\<close>

theorem recovery_resumes_stale_runs:
  assumes "wf_runs (eg_runs g)" and "faultless e" and "fresh_jobs e g" and "0 < cfg_recovery_timeout e"
  defines "now \<equiv> clk e (draws g)"
  defines "stale \<equiv> \<lambda>r. run_status r = RUNNING \<and> started_at r < now - seconds (cfg_recovery_timeout e)"
  shows "\<exists>g'. scan_and_resume e g = (None, g')
    \<and> eg_runs g' = update_where stale (crash now) (eg_runs g)
    \<and> map job_data (eg_jobs g') = map job_data (eg_jobs g) @ map row_data (filter stale (eg_runs g))
    \<and> active_runs g' = active_runs g + int (length (filter stale (eg_runs g)))
    \<and> filter stale (eg_runs g') = []"
proof -
  let ?cutoff = "now - seconds (cfg_recovery_timeout e)"
  let ?rows = "filter (\<lambda>r. run_status r = RUNNING) (eg_runs g)"
  let ?res = "resume_rows e now ?cutoff ?rows (draw 1 g)"
  have rows: "filter (\<lambda>r. started_at r < ?cutoff) ?rows = filter stale (eg_runs g)"
    by (simp add: stale_def conj_commute)
  have "fresh_jobs e (draw 1 g)" using assms(3) by (simp add: fresh_jobs_def)
  note res = resume_rows_eq [OF assms(2) this, of now ?cutoff ?rows, unfolded rows]
  have ids: "run_id (crash now x) = run_id x" and idem: "crash now (crash now x) = crash now x" for x
    by (simp_all add: crash_def)
  have runs: "eg_runs (snd ?res) = update_where stale (crash now) (eg_runs g)"
    using res assms(1)
    by (simp add: fold_update_ids [of "crash now", OF ids idem] update_where_ids_eq wf_runs_def
        del: set_filter)
  have scan: "scan_and_resume e g = (None, snd ?res)"
    using res assms(4) wf_runs_reads(3) [OF assms(1)]
    by (simp add: scan_and_resume_def now_def prod_eq_iff Let_def)
  have none: "filter stale (eg_runs (snd ?res)) = []"
    unfolding runs by (auto simp: filter_empty_conv set_update_where stale_def crash_def)
  from res have jobs: "map job_data (eg_jobs (snd ?res))
      = map job_data (eg_jobs g) @ map row_data (filter stale (eg_runs g))"
    and act: "active_runs (snd ?res) = active_runs g + int (length (filter stale (eg_runs g)))"
    by simp_all
  show ?thesis by (rule exI [of _ "snd ?res"]) (intro conjI scan runs jobs act none)
qed

definition demo_run :: "string \<Rightarrow> run_status \<Rightarrow> time \<Rightarrow> run_row" where
  "demo_run i st ts = \<lparr>run_id = i, run_strategy = ''s'', run_status = st, attempt = 0, started_at = ts,
     finished_at = None, run_error = None, event_topic = ''E'', event_payload = ''p'',
     max_retries_snapshot = 2, run_event_id = ''e''\<rparr>"

theorem recovery_resumes_stale_runs_witness:
  "\<exists>e g g'. scan_and_resume e g = (None, g') \<and> length (eg_runs g) = 2
     \<and> map job_data (eg_jobs g') = [(''s'', ''E'', ''p'', 2)]
     \<and> map run_status (eg_runs g') = [CRASHED, RUNNING]"
proof -
  let ?e = "(demo_env (\<lambda>_. False) Return)\<lparr>clk := \<lambda>_. 100000000, uuid := \<lambda>k. replicate k CHR ''u''\<rparr>"
  let ?g = "demo_engine\<lparr>eg_runs := [demo_run ''a'' RUNNING 0, demo_run ''b'' RUNNING 90000000]\<rparr>"
  have "inj (\<lambda>k. replicate k CHR ''u'')" by (rule injI) (metis length_replicate)
  then have f: "faultless ?e" by (simp add: faultless_def demo_env_def)
  have w: "wf_runs (eg_runs ?g)"
    by (simp add: wf_runs_def demo_run_def valid_record_def status_invariants_def)
  have j: "fresh_jobs ?e ?g" by (simp add: fresh_jobs_def demo_engine_def)
  have t: "0 < cfg_recovery_timeout ?e" by (simp add: demo_env_def)
  from recovery_resumes_stale_runs [OF w f j t] obtain g' where
    "scan_and_resume ?e ?g = (None, g')"
    "eg_runs g' = update_where (\<lambda>r. run_status r = RUNNING
        \<and> started_at r < clk ?e (draws ?g) - seconds (cfg_recovery_timeout ?e))
        (crash (clk ?e (draws ?g))) (eg_runs ?g)"
    "map job_data (eg_jobs g') = map job_data (eg_jobs ?g) @ map row_data
        (filter (\<lambda>r. run_status r = RUNNING
          \<and> started_at r < clk ?e (draws ?g) - seconds (cfg_recovery_timeout ?e)) (eg_runs ?g))"
    by blast
  then show ?thesis
    by (intro exI [of _ ?e] exI [of _ ?g] exI [of _ g'])
      (simp add: demo_env_def demo_run_def demo_engine_def crash_def row_data_def)
qed

section \<open>Run history\<close>

lemma quiet_add_job: "eg_runs (snd (add_job e j g)) = eg_runs g \<and> draws g \<le> draws (snd (add_job e j g))"
  by (simp add: add_job_def on_run_enqueued_def on_run_completed_def Let_def)

lemma quiet_enqueue_routes:
  "eg_runs (snd (enqueue_routes e ev rs g)) = eg_runs g \<and> draws g \<le> draws (snd (enqueue_routes e ev rs g))"
proof (induction rs arbitrary: g)
  case (Cons r rs)
  obtain m rid where r: "r = (m, rid)" by (cases r)
  obtain out g1 where w: "enqueue_run e m ev rid g = (out, g1)" by fastforce
  then have "eg_runs g1 = eg_runs g \<and> draws g \<le> draws g1"
    unfolding enqueue_run_def using quiet_add_job by (metis snd_conv)
  with Cons [of g1] show ?case by (auto simp: r w split: option.split)
qed simp

lemma quiet_touch:
  "eg_runs (fold (touch_one e ev) ms g) = eg_runs g \<and> draws g \<le> draws (fold (touch_one e ev) ms g)"
proof (induction ms arbitrary: g)
  case (Cons m ms)
  have "eg_runs (touch_one e ev m g) = eg_runs g \<and> draws g \<le> draws (touch_one e ev m g)"
    by (simp add: touch_one_def split: trigger.split)
  with Cons [of "touch_one e ev m g"] show ?case by auto
qed simp

lemma quiet_dispatch_event:
  "eg_runs (snd (dispatch_event e ev g)) = eg_runs g \<and> draws g \<le> draws (snd (dispatch_event e ev g))"
proof -
  have "eg_runs (snd (run_dispatch e b f ev h)) = eg_runs h \<and> draws h \<le> draws (snd (run_dispatch e b f ev h))"
    for b f h
  proof (cases "dispatch (\<lambda>i. clk e (draws h + i)) (\<lambda>i. uuid e (draws h + i)) b f ev (eg_registry h) (eg_counters h)")
    case (Inr r)
    then show ?thesis
      using quiet_enqueue_routes [of e ev "fst r" "draw (length (eg_registry h)) (h\<lparr>eg_counters := snd r\<rparr>)"]
      by (auto simp: run_dispatch_def split: prod.split)
  qed (simp add: run_dispatch_def)
  with quiet_touch show ?thesis by (simp add: dispatch_event_def) (metis le_trans)
qed

lemma quiet_run_body:
  "eg_runs (snd (run_body b e m g)) = eg_runs g \<and> draws g \<le> draws (snd (run_body b e m g))"
proof (induction b arbitrary: g)
  case (Emit ev k)
  then show ?case using quiet_dispatch_event [of e ev g] by (simp del: split_paired_All) (metis le_trans rangeI)
qed simp_all

definition outcomes :: "env \<Rightarrow> strategy_meta \<Rightarrow> event \<Rightarrow> string \<Rightarrow> exn option set" where
  "outcomes e m ev rid = range (\<lambda>g. fst (run_body (func e (sm_name m) ev rid) e m g))"

definition attempt_status :: "nat \<Rightarrow> nat \<Rightarrow> exn option \<Rightarrow> run_status" where
  "attempt_status att mrs out =
     (case out of None \<Rightarrow> SUCCESS
      | Some x \<Rightarrow> if \<not> is_contract x \<and> att < mrs then FAILED else DEAD_LETTER)"

definition row_of :: "strategy_meta \<Rightarrow> nat \<Rightarrow> nat \<Rightarrow> exn option \<Rightarrow> run_row \<Rightarrow> bool" where
  "row_of m att mrs out r \<longleftrightarrow> run_strategy r = sm_name m \<and> attempt r = att
     \<and> run_status r = attempt_status att mrs out \<and> run_error r = map_option format_error out"

lemma run_at_trim:
  assumes "distinct (map run_id t)"
  shows "run_at i (trim_runs n s t) \<in> {run_at i t, None}"
  unfolding trim_runs_def Let_def
  by (subst row_at_delete_where [OF assms]) (simp split: option.split)

lemma ids_trim: "run_id ` set (trim_runs n s t) \<subseteq> run_id ` set t"
  by (auto simp: trim_runs_def Let_def delete_where_def)

lemma record_start_ok:
  assumes "faultless e" and "wf_runs (eg_runs g)" and "rid \<notin> run_id ` set (eg_runs g)"
    and "rid \<noteq> []" "s \<noteq> []" "tp \<noteq> []" "pl \<noteq> []"
  shows "\<exists>g'. record_start e rid s att tp pl mrs eid g = (True, g') \<and> wf_runs (eg_runs g')
    \<and> draws g \<le> draws g'
    \<and> run_id ` set (eg_runs g') \<subseteq> insert rid (run_id ` set (eg_runs g))
    \<and> (\<forall>i. i \<noteq> rid \<longrightarrow> run_at i (eg_runs g') \<in> {run_at i (eg_runs g), None})
    \<and> (\<forall>r. run_at rid (eg_runs g') = Some r \<longrightarrow> run_strategy r = s \<and> attempt r = att)"
proof -
  let ?new = "\<lparr>run_id = rid, run_strategy = s, run_status = RUNNING, attempt = att,
               started_at = clk e (draws g), finished_at = None, run_error = None,
               event_topic = tp, event_payload = pl, max_retries_snapshot = mrs, run_event_id = eid\<rparr>"
  let ?all = "eg_runs g @ [?new]"
  let ?t = "trim_runs (cfg_max_records e) s ?all"
  have mr: "mark_running (cfg_max_records e) (clk e (draws g)) rid s att tp pl mrs eid (eg_runs g) = Inr ?t"
    using assms(3) by (simp add: mark_running_def)
  then have rs: "record_start e rid s att tp pl mrs eid g = (True, draw 1 (g\<lparr>eg_runs := ?t\<rparr>))"
    using assms(1) by (simp add: record_start_def faultless_def)
  have wf: "wf_runs ?t" using assms(2,4-7) mr by (rule wf_runs_mark_running)
  have d: "distinct (map run_id ?all)" using assms(2,3) by (auto simp: wf_runs_def)
  have at: "run_at i ?all = (if i = rid then Some ?new else run_at i (eg_runs g))" for i
    using assms(3) row_at_None_iff [of run_id rid "eg_runs g"]
    by (auto simp: row_at_append row_at_Cons split: option.split)
  have own: "run_strategy r = s \<and> attempt r = att" if "run_at rid ?t = Some r" for r
    using run_at_trim [OF d, of rid "cfg_max_records e" s] that at [of rid] by auto
  have frame: "run_at i ?t \<in> {run_at i (eg_runs g), None}" if "i \<noteq> rid" for i
    using run_at_trim [OF d, of i "cfg_max_records e" s] that at [of i] by simp
  show ?thesis
    using rs wf own frame ids_trim [of "cfg_max_records e" s ?all]
    by (intro exI [of _ "draw 1 (g\<lparr>eg_runs := ?t\<rparr>)"]) auto
qed

lemma format_error_nonempty [simp]: "format_error x \<noteq> []"
  by (simp add: format_error_def)

lemma finish_attempt_ok:
  assumes "faultless e" and "wf_runs (eg_runs g)"
  shows "\<exists>g' fin. finish_attempt e rid att mrs out g = (Inr (attempt_status att mrs out \<noteq> FAILED), g')
    \<and> eg_runs g' = update_status rid (attempt_status att mrs out) fin (map_option format_error out) (eg_runs g)
    \<and> draws g \<le> draws g'"
proof (cases "attempt_status att mrs out")
  case DEAD_LETTER
  then obtain x where x: "out = Some x" "is_contract x \<or> mrs \<le> att"
    by (auto simp: attempt_status_def split: option.splits if_splits)
  let ?t = "mark_dead_letter rid (clk e (draws g)) (format_error x) (eg_runs g)"
  have "wf_runs ?t" using assms(2) by (rule wf_runs_marks) simp
  then show ?thesis
    using assms(1) x DEAD_LETTER
    by (auto simp: finish_attempt_def terminate_dead_letter_def write_runs_def faultless_def
        fire_dead_letter_callback_def wf_runs_reads mark_dead_letter_def split: option.split)
qed (use assms(1) in \<open>auto simp: attempt_status_def finish_attempt_def write_runs_def faultless_def
      mark_success_def mark_run_failed_def split: option.splits if_splits\<close>)

definition attempt_done ::
  "env \<Rightarrow> strategy_meta \<Rightarrow> event \<Rightarrow> string \<Rightarrow> nat \<Rightarrow> nat \<Rightarrow> exn option \<Rightarrow> engine \<Rightarrow> engine \<Rightarrow> bool" where
  "attempt_done e m ev rid att mrs out g g' \<longleftrightarrow>
     wf_runs (eg_runs g') \<and> draws g \<le> draws g' \<and> out \<in> outcomes e m ev rid
     \<and> run_id ` set (eg_runs g') \<subseteq> insert rid (run_id ` set (eg_runs g))
     \<and> (\<forall>i. i \<noteq> rid \<longrightarrow> run_at i (eg_runs g') \<in> {run_at i (eg_runs g), None})
     \<and> (\<forall>r. run_at rid (eg_runs g') = Some r \<longrightarrow> row_of m att mrs out r)"

definition names_ok :: "env \<Rightarrow> strategy_meta \<Rightarrow> event \<Rightarrow> bool" where
  "names_ok e m ev \<longleftrightarrow> sm_name m \<noteq> [] \<and> ev_class ev \<noteq> [] \<and> dump_json e ev \<noteq> [] \<and> (\<forall>k. uuid e k \<noteq> [])"

lemma run_one_attempt_ok:
  assumes "faultless e" and "wf_runs (eg_runs g)" and "names_ok e m ev" and "rid \<noteq> []"
    and "rid \<notin> run_id ` set (eg_runs g)"
  shows "\<exists>g' out. run_one_attempt e m ev rid att mrs g = (Inr (attempt_status att mrs out \<noteq> FAILED), g')
    \<and> attempt_done e m ev rid att mrs out g g'"
proof -
  obtain g1 where start: "record_start e rid (sm_name m) att (ev_class ev) (dump_json e ev) mrs (ev_id ev) g
      = (True, g1)" and g1: "wf_runs (eg_runs g1)" "draws g \<le> draws g1"
      "run_id ` set (eg_runs g1) \<subseteq> insert rid (run_id ` set (eg_runs g))"
    and frame: "\<forall>i. i \<noteq> rid \<longrightarrow> run_at i (eg_runs g1) \<in> {run_at i (eg_runs g), None}"
    and own: "\<forall>r. run_at rid (eg_runs g1) = Some r \<longrightarrow> run_strategy r = sm_name m \<and> attempt r = att"
    using record_start_ok [OF assms(1,2,5,4), of "sm_name m" "ev_class ev" "dump_json e ev" att mrs "ev_id ev"]
      assms(3) by (auto simp: names_ok_def)
  obtain out g2 where b: "run_body (func e (sm_name m) ev rid) e m g1 = (out, g2)" by fastforce
  then have g2: "eg_runs g2 = eg_runs g1" "draws g1 \<le> draws g2" and out: "out \<in> outcomes e m ev rid"
    using quiet_run_body [of "func e (sm_name m) ev rid" e m g1]
    by (auto simp: outcomes_def intro!: rev_image_eqI [of g1])
  obtain g3 fin where fin: "finish_attempt e rid att mrs out g2
      = (Inr (attempt_status att mrs out \<noteq> FAILED), g3)"
    and g3: "eg_runs g3 = update_status rid (attempt_status att mrs out) fin (map_option format_error out) (eg_runs g1)"
      "draws g2 \<le> draws g3"
    using finish_attempt_ok [OF assms(1), of g2 rid att mrs out] g1(1) g2(1) by auto
  have "wf_runs (eg_runs g3)"
    unfolding g3(1) using g1(1)
    by (rule wf_runs_update_status) (auto simp: attempt_status_def split: option.split)
  moreover have "run_id ` set (eg_runs g3) = run_id ` set (eg_runs g1)"
    unfolding g3(1) update_status_def set_update_where image_image by (rule image_cong) simp_all
  moreover have "run_at i (eg_runs g3) \<in> {run_at i (eg_runs g), None}" if "i \<noteq> rid" for i
    using that frame by (simp add: g3(1) run_at_update_status)
  moreover have "row_of m att mrs out r" if "run_at rid (eg_runs g3) = Some r" for r
    using that own by (auto simp: g3(1) run_at_update_status row_of_def)
  ultimately have "attempt_done e m ev rid att mrs out g g3"
    using g1 g2 g3(2) out by (auto simp: attempt_done_def)
  then show ?thesis using start b fin by (auto simp: run_one_attempt_def)
qed

text \<open>
  The history a run leaves: its attempts carry the ids \<open>rids\<close> and ended with \<open>outs\<close>, from
  attempt number \<open>att\<close> on.
\<close>

definition history ::
  "env \<Rightarrow> strategy_meta \<Rightarrow> event \<Rightarrow> nat \<Rightarrow> nat \<Rightarrow> string list \<Rightarrow> exn option list \<Rightarrow> engine \<Rightarrow> engine \<Rightarrow> bool" where
  "history e m ev mrs att rids outs g g' \<longleftrightarrow>
     length outs = length rids \<and> rids \<noteq> [] \<and> att + length rids \<le> mrs + 1 \<and> distinct rids
     \<and> (\<forall>i < length rids. outs ! i \<in> outcomes e m ev (rids ! i)
          \<and> (attempt_status (att + i) mrs (outs ! i) = FAILED \<longleftrightarrow> i < length rids - 1)
          \<and> (\<forall>r. run_at (rids ! i) (eg_runs g') = Some r \<longrightarrow> row_of m (att + i) mrs (outs ! i) r))
     \<and> (\<forall>i. i \<notin> set rids \<longrightarrow> run_at i (eg_runs g') \<in> {run_at i (eg_runs g), None})"

lemma history_single:
  assumes "attempt_done e m ev rid att mrs out g g'" and "attempt_status att mrs out \<noteq> FAILED"
    and "att \<le> mrs"
  shows "history e m ev mrs att [rid] [out] g g'"
  using assms by (auto simp: history_def attempt_done_def)

lemma history_Cons:
  assumes a: "attempt_done e m ev rid att mrs out g g1" and "attempt_status att mrs out = FAILED"
    and h: "history e m ev mrs (Suc att) rids outs g1 g'" and "rid \<notin> set rids"
  shows "history e m ev mrs att (rid # rids) (out # outs) g g'"
  unfolding history_def
proof (intro conjI allI impI)
  fix i assume i: "i < length (rid # rids)"
  have frame: "run_at j (eg_runs g') \<in> {run_at j (eg_runs g1), None}" if "j \<notin> set rids" for j
    using h that by (simp add: history_def)
  show "(out # outs) ! i \<in> outcomes e m ev ((rid # rids) ! i)"
    using a h i by (cases i) (auto simp: attempt_done_def history_def)
  show "attempt_status (att + i) mrs ((out # outs) ! i) = FAILED \<longleftrightarrow> i < length (rid # rids) - 1"
    using assms(2) h i by (cases i) (auto simp: history_def)
  show "row_of m (att + i) mrs ((out # outs) ! i) r"
    if r: "run_at ((rid # rids) ! i) (eg_runs g') = Some r" for r
  proof (cases i)
    case 0
    with r frame [OF assms(4)] a show ?thesis by (auto simp: attempt_done_def)
  next
    case (Suc k)
    with r h i show ?thesis by (auto simp: history_def)
  qed
next
  fix j assume "j \<notin> set (rid # rids)"
  then have "run_at j (eg_runs g') \<in> {run_at j (eg_runs g1), None}"
    and "run_at j (eg_runs g1) \<in> {run_at j (eg_runs g), None}"
    using a h by (simp_all add: history_def attempt_done_def)
  then show "run_at j (eg_runs g') \<in> {run_at j (eg_runs g), None}" by auto
qed (use h assms(4) in \<open>auto simp: history_def\<close>)

definition fresh_runs :: "env \<Rightarrow> engine \<Rightarrow> bool" where
  "fresh_runs e g \<longleftrightarrow> (\<forall>k \<ge> draws g. uuid e k \<notin> run_id ` set (eg_runs g))"

definition attempts_from ::
  "env \<Rightarrow> strategy_meta \<Rightarrow> event \<Rightarrow> nat \<Rightarrow> nat \<Rightarrow> nat \<Rightarrow> string \<Rightarrow> engine \<Rightarrow> exn option \<times> engine" where
  "attempts_from e m ev mrs left att cur g =
     (case run_one_attempt e m ev cur att mrs g of
        (Inl x, g2) \<Rightarrow> (Some x, g2)
      | (Inr True, g2) \<Rightarrow> (None, g2)
      | (Inr False, g2) \<Rightarrow> run_attempts e m ev mrs left (att + 1) cur g2)"

lemma run_attempts_next:
  "0 < att \<Longrightarrow> run_attempts e m ev mrs (Suc left) att rid g
   = attempts_from e m ev mrs left att (uuid e (draws g)) (draw 1 g)"
  by (simp add: attempts_from_def Let_def)

lemma run_first: "run e m ev rid mrs g = attempts_from e m ev mrs mrs 0 rid g"
  by (simp add: run_def attempts_from_def)

lemma attempt_failed_iff:
  "attempt_status att mrs out = FAILED \<longleftrightarrow> (\<exists>x. out = Some x \<and> \<not> is_contract x \<and> att < mrs)"
  by (simp add: attempt_status_def split: option.split)

lemma attempts_from_history:
  assumes "faultless e" and "names_ok e m ev"
  shows "wf_runs (eg_runs g) \<Longrightarrow> fresh_runs e g \<Longrightarrow> att + left = mrs \<Longrightarrow> cur \<noteq> []
    \<Longrightarrow> cur \<notin> run_id ` set (eg_runs g) \<Longrightarrow> (\<forall>k \<ge> draws g. uuid e k \<noteq> cur)
    \<Longrightarrow> \<exists>g' rids outs. attempts_from e m ev mrs left att cur g = (None, g')
      \<and> history e m ev mrs att rids outs g g' \<and> hd rids = cur
      \<and> set rids \<subseteq> insert cur (uuid e ` {draws g..})"
proof (induction left arbitrary: g att cur)
  case 0
  obtain g2 out where run: "run_one_attempt e m ev cur att mrs g
      = (Inr (attempt_status att mrs out \<noteq> FAILED), g2)"
    and fin: "attempt_done e m ev cur att mrs out g g2"
    using run_one_attempt_ok [OF assms(1) 0(1) assms(2) 0(4,5)] by blast
  have "attempt_status att mrs out \<noteq> FAILED"
    using 0(3) by (simp add: attempt_status_def split: option.split)
  then have "attempts_from e m ev mrs 0 att cur g = (None, g2)"
    and "history e m ev mrs att [cur] [out] g g2"
    using run history_single [OF fin] 0(3) by (simp_all add: attempts_from_def)
  then show ?case by (intro exI [of _ g2] exI [of _ "[cur]"] exI [of _ "[out]"]) simp
next
  case (Suc left)
  obtain g2 out where run: "run_one_attempt e m ev cur att mrs g
      = (Inr (attempt_status att mrs out \<noteq> FAILED), g2)"
    and fin: "attempt_done e m ev cur att mrs out g g2"
    using run_one_attempt_ok [OF assms(1) Suc.prems(1) assms(2) Suc.prems(4,5)] by blast
  show ?case
  proof (cases "attempt_status att mrs out = FAILED")
    case False
    then have "attempts_from e m ev mrs (Suc left) att cur g = (None, g2)"
      and "history e m ev mrs att [cur] [out] g g2"
      using run history_single [OF fin] Suc.prems(3) by (simp_all add: attempts_from_def)
    then show ?thesis by (intro exI [of _ g2] exI [of _ "[cur]"] exI [of _ "[out]"]) simp
  next
    case True
    let ?cur = "uuid e (draws g2)" and ?g = "draw 1 g2"
    have eq: "attempts_from e m ev mrs (Suc left) att cur g
        = attempts_from e m ev mrs left (Suc att) ?cur ?g"
      using run True
      by (simp add: attempts_from_def [of _ _ _ _ "Suc left"] run_attempts_next del: run_attempts.simps)
    have ids: "run_id ` set (eg_runs g2) \<subseteq> insert cur (run_id ` set (eg_runs g))"
      and le: "draws g \<le> draws g2" and wf: "wf_runs (eg_runs ?g)"
      using fin by (simp_all add: attempt_done_def)
    have new: "uuid e k \<notin> run_id ` set (eg_runs g2)" if "draws g2 \<le> k" for k
    proof -
      have "draws g \<le> k" using that le by simp
      then have "uuid e k \<noteq> cur" "uuid e k \<notin> run_id ` set (eg_runs g)"
        using Suc.prems(2,6) by (simp_all add: fresh_runs_def)
      with ids show ?thesis by blast
    qed
    have "fresh_runs e ?g" using new by (simp add: fresh_runs_def)
    moreover have "\<forall>k \<ge> draws ?g. uuid e k \<noteq> ?cur"
      using assms(1) by (auto simp: faultless_def dest: injD)
    moreover have "?cur \<noteq> []" using assms(2) by (simp add: names_ok_def)
    ultimately obtain g' rids outs where
      res: "attempts_from e m ev mrs left (Suc att) ?cur ?g = (None, g')"
      and h: "history e m ev mrs (Suc att) rids outs ?g g'"
      and ids': "set rids \<subseteq> insert ?cur (uuid e ` {draws ?g..})"
      using Suc.IH [OF wf, of "Suc att" ?cur] new [of "draws g2"] Suc.prems(3) by auto
    have "insert ?cur (uuid e ` {draws ?g..}) \<subseteq> uuid e ` {draws g..}" using le by auto
    with ids' have sub: "set rids \<subseteq> uuid e ` {draws g..}" by blast
    then have "cur \<notin> set rids" using Suc.prems(6) by auto
    moreover have "history e m ev mrs (Suc att) rids outs g2 g'" using h by (simp add: history_def)
    ultimately have "history e m ev mrs att (cur # rids) (out # outs) g g'"
      using history_Cons [OF fin True] by blast
    with eq res sub show ?thesis
      by (intro exI [of _ g'] exI [of _ "cur # rids"] exI [of _ "out # outs"]) auto
  qed
qed


definition demo_flaky :: env where
  "demo_flaky = (demo_env (\<lambda>_. False) (Raise (Exn False ''LLMError'' ''timeout'' [])))
     \<lparr>uuid := \<lambda>k. replicate (Suc k) CHR ''u''\<rparr>"

lemma demo_flaky_ok:
  "faultless demo_flaky"
  "names_ok demo_flaky (demo_meta ''s'' (Immediate [''E'']) []) demo_event"
proof -
  have "inj (\<lambda>k. replicate (Suc k) CHR ''u'')" by (rule injI) (metis length_replicate nat.inject)
  then show "faultless demo_flaky" by (simp add: faultless_def demo_flaky_def demo_env_def)
  show "names_ok demo_flaky (demo_meta ''s'' (Immediate [''E'']) []) demo_event"
    by (simp add: names_ok_def demo_meta_def demo_event_def demo_flaky_def demo_env_def)
qed


lemma trim_single: "0 < n \<Longrightarrow> trim_runs n s [r] = [r]"
  by (cases n) (auto simp: trim_runs_def newest_first_def delete_where_def)

text \<open>
  C35: \<open>wait_for_event\<close> counts \<open>FAILED\<close> as the end of a run although the runner writes it
  with a retry pending.  When the only run of an event has failed its first attempt and
  the attempt loop goes on, the next poll of a waiter returns with that \<open>FAILED\<close> row, before
  the retry: a strategy that waits for the work it triggered proceeds while the work is
  still going to be redone.
\<close>

theorem wait_returns_before_retry:
  assumes "faultless e" and "names_ok e m ev" and "eg_runs g = []" and "rid \<noteq> []"
    and "0 < cfg_max_records e" and "run_one_attempt e m ev rid 0 (Suc n) g = (Inr False, g')"
    and "eg_started g'"
  shows "(\<exists>r. wait_for_event (ev_id ev) (g' # gs) = Wait_runs [r] \<and> run_id r = rid \<and> run_status r = FAILED)
    \<and> run e m ev rid (Suc n) g = attempts_from e m ev (Suc n) n 1 (uuid e (draws g')) (draw 1 g')"
proof
  let ?row = "\<lparr>run_id = rid, run_strategy = sm_name m, run_status = RUNNING, attempt = 0,
               started_at = clk e (draws g), finished_at = None, run_error = None,
               event_topic = ev_class ev, event_payload = dump_json e ev,
               max_retries_snapshot = Suc n, run_event_id = ev_id ev\<rparr>"
  let ?g1 = "draw 1 (g\<lparr>eg_runs := [?row]\<rparr>)"
  have start: "record_start e rid (sm_name m) 0 (ev_class ev) (dump_json e ev) (Suc n) (ev_id ev) g = (True, ?g1)"
    using assms(1,3,5) by (simp add: record_start_def mark_running_def faultless_def trim_single)
  obtain out g2 where b: "run_body (func e (sm_name m) ev rid) e m ?g1 = (out, g2)" by fastforce
  then have g2: "eg_runs g2 = [?row]"
    using quiet_run_body [of "func e (sm_name m) ev rid" e m ?g1] by simp
  have wf: "wf_runs [?row]"
    using assms(2,4) by (simp add: wf_runs_def valid_record_def status_invariants_def names_ok_def)
  obtain fin where fin: "attempt_status 0 (Suc n) out = FAILED"
    "eg_runs g' = update_status rid FAILED fin (map_option format_error out) [?row]"
    using finish_attempt_ok [OF assms(1), of g2 rid 0 "Suc n" out] wf assms(6) start b
    by (auto simp: run_one_attempt_def g2)
  then have "wf_runs (eg_runs g')"
    using wf by (auto simp: attempt_failed_iff intro!: wf_runs_update_status)
  then have "list_by_event_id (ev_id ev) (eg_runs g')
      = Inr (newest_first (filter (\<lambda>r. run_event_id r = ev_id ev) (eg_runs g')))"
    by (rule wf_runs_reads)
  then show "\<exists>r. wait_for_event (ev_id ev) (g' # gs) = Wait_runs [r] \<and> run_id r = rid \<and> run_status r = FAILED"
    using assms(7) by (simp add: poll_event_def fin(2) update_status_def newest_first_def terminal_def)
  show "run e m ev rid (Suc n) g = attempts_from e m ev (Suc n) n 1 (uuid e (draws g')) (draw 1 g')"
    using assms(6)
    by (simp add: run_first attempts_from_def [of _ _ _ _ "Suc n"] run_attempts_next del: run_attempts.simps)
qed

theorem wait_returns_before_retry_witness:
  "\<exists>g' r. run_one_attempt demo_flaky (demo_meta ''s'' (Immediate [''E'']) []) demo_event ''r'' 0 2
        (demo_engine\<lparr>eg_started := True\<rparr>) = (Inr False, g')
     \<and> wait_for_event ''e'' [g'] = Wait_runs [r] \<and> run_status r = FAILED"
proof -
  let ?m = "demo_meta ''s'' (Immediate [''E'']) []" and ?g = "demo_engine\<lparr>eg_started := True\<rparr>"
  obtain g' where g': "run_one_attempt demo_flaky ?m demo_event ''r'' 0 (Suc 1) ?g = (Inr False, g')"
    and st: "eg_started g'"
    by (simp add: run_one_attempt_def record_start_def demo_flaky_def demo_env_def demo_engine_def
        mark_running_def finish_attempt_def write_runs_def)
  have "eg_runs ?g = []" "''r'' \<noteq> ([]::string)" "0 < cfg_max_records demo_flaky"
    by (simp_all add: demo_engine_def demo_flaky_def demo_env_def)
  from wait_returns_before_retry [OF demo_flaky_ok this g' st, of "[]"] obtain r where
    "wait_for_event (ev_id demo_event) [g'] = Wait_runs [r]" "run_status r = FAILED" by blast
  moreover have "ev_id demo_event = ''e''" by (simp add: demo_event_def)
  ultimately show ?thesis using g' by (metis One_nat_def numeral_2_eq_2)
qed



end
