(* ===== verification/Ome_Reload.thy ===== *)
theory Ome_Reload
  imports Ome_Registry
begin

text \<open>
  Hot reload of the strategy configuration: the override schema of
  \<open>infra/ome/config.py\<close> and \<open>apply_overrides\<close> of
  \<open>infra/ome/_background/config_reloader.py\<close>, a two-phase commit per strategy
  (\<open>enabled\<close> first, then the rest as one group).  The state is the registry and the
  scheduler's view of each strategy.  \<open>cron_ok\<close> is whether \<open>CronTrigger.from_crontab\<close>
  accepts an expression, \<open>resched_ok\<close> whether the scheduler accepts a rescheduling;
  a refused one leaves the scheduler as it was.
\<close>

section \<open>Overrides\<close>

record counter_override =
  co_threshold :: "nat option"
  co_cooldown :: "nat option"
  co_event_field :: "string option"

record strategy_override =
  ov_enabled :: "bool option"
  ov_max_retries :: "nat option"
  ov_gate :: "counter_override option"
  ov_cron :: "string option"
  ov_idle_seconds :: "nat option"
  ov_scan_interval :: "nat option"

text \<open>The field constraints and validators of \<open>StrategyOverride\<close>.\<close>

definition override_ok :: "(string \<Rightarrow> bool) \<Rightarrow> strategy_override \<Rightarrow> bool" where
  "override_ok cron_ok ov \<longleftrightarrow>
     (case ov_gate ov of None \<Rightarrow> True
      | Some c \<Rightarrow> co_threshold c \<noteq> Some 0 \<and> co_event_field c \<noteq> Some [])
     \<and> (case ov_cron ov of None \<Rightarrow> True | Some x \<Rightarrow> cron_ok x)
     \<and> ov_idle_seconds ov \<noteq> Some 0 \<and> ov_scan_interval ov \<noteq> Some 0
     \<and> (case (ov_idle_seconds ov, ov_scan_interval ov) of
          (Some n, Some si) \<Rightarrow> si \<le> n div 2 | _ \<Rightarrow> True)"

section \<open>Applying one override\<close>

record control =
  ct_registry :: registry
  ct_schedule :: "string \<Rightarrow> trigger option"  \<comment> \<open>the trigger each scheduler job was given\<close>

definition set_meta :: "string \<Rightarrow> strategy_meta \<Rightarrow> control \<Rightarrow> control" where
  "set_meta name m c =
     c\<lparr>ct_registry := update_where (\<lambda>x. sm_name x = name) (\<lambda>_. m) (ct_registry c)\<rparr>"

definition apply_enabled :: "strategy_meta \<Rightarrow> strategy_override \<Rightarrow> control \<Rightarrow> strategy_meta \<times> control" where
  "apply_enabled m ov c =
     (case ov_enabled ov of
        None \<Rightarrow> (m, c)
      | Some b \<Rightarrow> if b = sm_enabled m then (m, c)
                  else (let m' = m\<lparr>sm_enabled := b\<rparr> in (m', set_meta (sm_name m) m' c)))"

definition or_else :: "'a option \<Rightarrow> 'a \<Rightarrow> 'a" where
  "or_else x d = (case x of None \<Rightarrow> d | Some y \<Rightarrow> y)"

text \<open>\<open>None\<close>: the group is skipped (\<open>_SkipAtomicGroupError\<close> or a validation error).\<close>

definition merge_gate :: "gate option \<Rightarrow> counter_override \<Rightarrow> gate option" where
  "merge_gate old co =
     (case old of
        None \<Rightarrow> (case co_threshold co of
            None \<Rightarrow> None
          | Some th \<Rightarrow> if th = 0 then None
              else Some \<lparr>threshold = th, cooldown_seconds = or_else (co_cooldown co) 0,
                         event_field = co_event_field co\<rparr>)
      | Some g \<Rightarrow>
          (let th = or_else (co_threshold co) (threshold g) in
           if th = 0 then None
           else Some \<lparr>threshold = th, cooldown_seconds = or_else (co_cooldown co) (cooldown_seconds g),
                      event_field = (case co_event_field co of None \<Rightarrow> event_field g | Some f \<Rightarrow> Some f)\<rparr>))"

definition merge_cron :: "(string \<Rightarrow> bool) \<Rightarrow> trigger \<Rightarrow> strategy_override \<Rightarrow> trigger option" where
  "merge_cron cron_ok t ov =
     (case ov_cron ov of None \<Rightarrow> Some t
      | Some x \<Rightarrow> (case t of Cron y \<Rightarrow> if x \<noteq> [] \<and> cron_ok x then Some (Cron x) else None | _ \<Rightarrow> None))"

text \<open>Both \<open>isinstance\<close> tests look at the trigger the strategy has, \<open>old\<close>.\<close>

definition merge_idle :: "(string \<Rightarrow> string list) \<Rightarrow> trigger \<Rightarrow> trigger \<Rightarrow> strategy_override \<Rightarrow> trigger option" where
  "merge_idle mfields old t ov =
     (if ov_idle_seconds ov = None \<and> ov_scan_interval ov = None then Some t
      else (case old of
          Idle on f n si \<Rightarrow>
            (let t' = Idle on f (or_else (ov_idle_seconds ov) n) (or_else (ov_scan_interval ov) si)
             in if trigger_ok mfields t' then Some t' else None)
        | _ \<Rightarrow> None))"

definition build_atomic_meta ::
  "(string \<Rightarrow> bool) \<Rightarrow> (string \<Rightarrow> string list) \<Rightarrow> strategy_meta \<Rightarrow> strategy_override \<Rightarrow> strategy_meta option" where
  "build_atomic_meta cron_ok mfields m ov =
     (let m1 = (case ov_max_retries ov of None \<Rightarrow> m | Some n \<Rightarrow> m\<lparr>sm_max_retries := Some n\<rparr>) in
      case (case ov_gate ov of None \<Rightarrow> Some m1
            | Some co \<Rightarrow> (case merge_gate (sm_gate m) co of None \<Rightarrow> None
                | Some g \<Rightarrow> Some (m1\<lparr>sm_gate := Some g\<rparr>))) of
        None \<Rightarrow> None
      | Some m2 \<Rightarrow> (case merge_cron cron_ok (sm_trigger m) ov of
            None \<Rightarrow> None
          | Some t1 \<Rightarrow> (case merge_idle mfields (sm_trigger m) t1 ov of
                None \<Rightarrow> None
              | Some t2 \<Rightarrow> Some (m2\<lparr>sm_trigger := t2\<rparr>))))"

fun needs_aps_reschedule :: "trigger \<Rightarrow> trigger \<Rightarrow> bool" where
  "needs_aps_reschedule (Cron x) (Cron y) = (y \<noteq> x)"
| "needs_aps_reschedule (Idle on f n si) (Idle on' f' n' si') = (si' \<noteq> si)"
| "needs_aps_reschedule _ _ = False"

definition apply_one_strategy ::
  "(string \<Rightarrow> bool) \<Rightarrow> (string \<Rightarrow> string list) \<Rightarrow> (string \<Rightarrow> trigger \<Rightarrow> bool) \<Rightarrow> string
   \<Rightarrow> strategy_override \<Rightarrow> control \<Rightarrow> control" where
  "apply_one_strategy cron_ok mfields resched_ok name ov c =
     (case get_meta name (ct_registry c) of
        Inl err \<Rightarrow> c
      | Inr m0 \<Rightarrow>
          (let (m, c1) = apply_enabled m0 ov c in
           case build_atomic_meta cron_ok mfields m ov of
             None \<Rightarrow> c1
           | Some m' \<Rightarrow>
               (if needs_aps_reschedule (sm_trigger m) (sm_trigger m')
                then (if resched_ok name (sm_trigger m')
                      then set_meta name m' (c1\<lparr>ct_schedule := (ct_schedule c1)(name \<mapsto> sm_trigger m')\<rparr>)
                      else c1)
                else set_meta name m' c1)))"

text \<open>Unknown names are logged and skipped.\<close>

definition apply_overrides ::
  "(string \<Rightarrow> bool) \<Rightarrow> (string \<Rightarrow> string list) \<Rightarrow> (string \<Rightarrow> trigger \<Rightarrow> bool)
   \<Rightarrow> (string \<times> strategy_override) list \<Rightarrow> control \<Rightarrow> control" where
  "apply_overrides cron_ok mfields resched_ok ovs c =
     fold (\<lambda>(name, ov) c. if name \<in> sm_name ` set (ct_registry c)
                          then apply_one_strategy cron_ok mfields resched_ok name ov c else c) ovs c"

text \<open>\<open>_load_once\<close>: \<open>None\<close> is a file that cannot be read or parsed, or has unknown keys.
  \<open>TomlRoot.model_validate\<close> rejects the whole file when one override is invalid.\<close>

definition load_once ::
  "(string \<Rightarrow> bool) \<Rightarrow> (string \<Rightarrow> string list) \<Rightarrow> (string \<Rightarrow> trigger \<Rightarrow> bool)
   \<Rightarrow> (string \<times> strategy_override) list option \<Rightarrow> control \<Rightarrow> control" where
  "load_once cron_ok mfields resched_ok parsed c =
     (case parsed of
        None \<Rightarrow> c
      | Some ovs \<Rightarrow> if list_all (\<lambda>x. override_ok cron_ok (snd x)) ovs
                    then apply_overrides cron_ok mfields resched_ok ovs c else c)"

section \<open>What a reload keeps\<close>

text \<open>What the emission graph depends on.\<close>

definition dag_shape :: "strategy_meta \<Rightarrow> string \<times> string list \<times> string list option" where
  "dag_shape m = (sm_name m, sm_emits m, case sm_trigger m of Immediate on \<Rightarrow> Some on | _ \<Rightarrow> None)"

lemma listens_shape:
  "listens m ev \<longleftrightarrow> (case snd (snd (dag_shape m)) of Some on \<Rightarrow> ev \<in> set on | None \<Rightarrow> False)"
  by (simp add: listens.simps dag_shape_def split: trigger.split)

lemma dag_shape_simps [simp]: "fst (dag_shape m) = sm_name m" "fst (snd (dag_shape m)) = sm_emits m"
  by (simp_all add: dag_shape_def)

lemma emits_to_shape: "map dag_shape reg = map dag_shape reg' \<Longrightarrow> emits_to reg = emits_to reg'"
proof -
  assume eq: "map dag_shape reg = map dag_shape reg'"
  let ?hears = "\<lambda>d ev. case snd (snd d) of Some on \<Rightarrow> ev \<in> set on | None \<Rightarrow> False"
  have key: "(u, v) \<in> emits_to r \<longleftrightarrow> (\<exists>s \<in> dag_shape ` set r. \<exists>d \<in> dag_shape ` set r.
      u = fst s \<and> v = fst d \<and> (\<exists>ev \<in> set (fst (snd s)). ?hears d ev))" for u v r
    unfolding emits_to_def listens_shape by (simp only: bex_simps dag_shape_simps) blast
  have sets: "dag_shape ` set reg = dag_shape ` set reg'" using eq by (metis list.set_map)
  have "(u, v) \<in> emits_to reg \<longleftrightarrow> (u, v) \<in> emits_to reg'" for u v
    unfolding key sets by (rule refl)
  then show ?thesis by (intro set_eqI) (simp only: split_paired_all)
qed

fun scheduled :: "trigger \<Rightarrow> trigger option \<Rightarrow> bool" where
  "scheduled (Immediate on) s = True"
| "scheduled (Cron x) s = (s = Some (Cron x))"
| "scheduled (Idle on f n si) s = (case s of Some (Idle on' f' n' si') \<Rightarrow> si' = si | _ \<Rightarrow> False)"

definition schedule_in_sync :: "control \<Rightarrow> bool" where
  "schedule_in_sync c \<longleftrightarrow>
     (\<forall>m \<in> set (ct_registry c). scheduled (sm_trigger m) (ct_schedule c (sm_name m)))"

lemma merge_trigger_cases:
  assumes "merge_cron cron_ok t ov = Some t1" and "merge_idle mfields t t1 ov = Some t2"
  shows "(case t2 of Immediate on \<Rightarrow> Some on | _ \<Rightarrow> None) = (case t of Immediate on \<Rightarrow> Some on | _ \<Rightarrow> None)
    \<and> (needs_aps_reschedule t t2 \<longrightarrow> scheduled t2 (Some t2))
    \<and> (\<not> needs_aps_reschedule t t2 \<longrightarrow> scheduled t s \<longrightarrow> scheduled t2 s)"
  using assms
  by (cases t) (auto simp: merge_cron_def merge_idle_def Let_def split: option.splits if_splits trigger.splits)

lemma build_atomic_keeps:
  assumes "build_atomic_meta cron_ok mfields m ov = Some m'"
  shows "sm_name m' = sm_name m \<and> sm_enabled m' = sm_enabled m \<and> dag_shape m' = dag_shape m
    \<and> (needs_aps_reschedule (sm_trigger m) (sm_trigger m') \<longrightarrow> scheduled (sm_trigger m') (Some (sm_trigger m')))
    \<and> (\<not> needs_aps_reschedule (sm_trigger m) (sm_trigger m') \<longrightarrow> scheduled (sm_trigger m) s
        \<longrightarrow> scheduled (sm_trigger m') s)"
proof -
  obtain t1 t2 where t: "merge_cron cron_ok (sm_trigger m) ov = Some t1"
    "merge_idle mfields (sm_trigger m) t1 ov = Some t2" "sm_trigger m' = t2"
    and rest: "sm_name m' = sm_name m" "sm_enabled m' = sm_enabled m" "sm_emits m' = sm_emits m"
    using assms by (auto simp: build_atomic_meta_def Let_def split: option.splits)
  from merge_trigger_cases [OF t(1,2), of s] rest t(3) show ?thesis
    by (simp add: dag_shape_def)
qed

lemma set_meta_twice:
  "sm_name m = name \<Longrightarrow> set_meta name m' (set_meta name m c) = set_meta name m' c"
  by (simp add: set_meta_def update_where_def)

lemma set_meta_same:
  assumes "distinct (map sm_name (ct_registry c))" and "m \<in> set (ct_registry c)"
  shows "set_meta (sm_name m) m c = c"
proof -
  have "update_where (\<lambda>x. sm_name x = sm_name m) (\<lambda>_. m) (ct_registry c) = ct_registry c"
    using assms by (auto simp: update_where_def distinct_map intro!: map_idI dest: inj_onD)
  then show ?thesis by (simp add: set_meta_def)
qed

text \<open>One override replaces one strategy; its \<open>enabled\<close> always lands.\<close>

lemma apply_one_effect:
  assumes "distinct (map sm_name (ct_registry c))" and "m0 \<in> set (ct_registry c)"
  shows "\<exists>mf s. apply_one_strategy cron_ok mfields resched_ok (sm_name m0) ov c
      = (set_meta (sm_name m0) mf c)\<lparr>ct_schedule := s\<rparr>
    \<and> sm_name mf = sm_name m0 \<and> sm_enabled mf = or_else (ov_enabled ov) (sm_enabled m0)
    \<and> dag_shape mf = dag_shape m0
    \<and> (scheduled (sm_trigger m0) (ct_schedule c (sm_name m0)) \<longrightarrow> scheduled (sm_trigger mf) (s (sm_name m0)))
    \<and> (\<forall>n. n \<noteq> sm_name m0 \<longrightarrow> s n = ct_schedule c n)"
proof -
  let ?m = "m0\<lparr>sm_enabled := or_else (ov_enabled ov) (sm_enabled m0)\<rparr>"
  let ?c1 = "set_meta (sm_name m0) ?m c"
  have get: "get_meta (sm_name m0) (ct_registry c) = Inr m0"
    using row_at_in_set [OF assms] by (simp add: get_meta_def)
  have same: "m0\<lparr>sm_enabled := sm_enabled m0\<rparr> = m0" by simp
  have en: "apply_enabled m0 ov c = (?m, ?c1)"
    using set_meta_same [OF assms] same
    by (auto simp: apply_enabled_def or_else_def Let_def split: option.split)
  have shape: "dag_shape ?m = dag_shape m0" by (simp add: dag_shape_def)
  show ?thesis
  proof (cases "build_atomic_meta cron_ok mfields ?m ov")
    case None
    then have "apply_one_strategy cron_ok mfields resched_ok (sm_name m0) ov c = ?c1\<lparr>ct_schedule := ct_schedule c\<rparr>"
      by (simp add: apply_one_strategy_def get en set_meta_def)
    then show ?thesis using shape by (intro exI [of _ ?m] exI [of _ "ct_schedule c"]) simp
  next
    case (Some m')
    note k = build_atomic_keeps [OF Some, of "ct_schedule c (sm_name m0)"]
    show ?thesis
    proof (cases "needs_aps_reschedule (sm_trigger ?m) (sm_trigger m') \<and> \<not> resched_ok (sm_name m0) (sm_trigger m')")
      case True
      then have "apply_one_strategy cron_ok mfields resched_ok (sm_name m0) ov c
          = ?c1\<lparr>ct_schedule := ct_schedule c\<rparr>"
        by (simp add: apply_one_strategy_def get en Some set_meta_def)
      then show ?thesis using shape by (intro exI [of _ ?m] exI [of _ "ct_schedule c"]) simp
    next
      case False
      let ?s = "if needs_aps_reschedule (sm_trigger ?m) (sm_trigger m')
                then (ct_schedule c)(sm_name m0 \<mapsto> sm_trigger m') else ct_schedule c"
      have "apply_one_strategy cron_ok mfields resched_ok (sm_name m0) ov c
          = (set_meta (sm_name m0) m' c)\<lparr>ct_schedule := ?s\<rparr>"
        using False
        by (auto simp: apply_one_strategy_def get en Some) (auto simp: set_meta_def update_where_def)
      then show ?thesis
        using k shape by (intro exI [of _ m'] exI [of _ ?s]) auto
    qed
  qed
qed

definition reload_ok :: "control \<Rightarrow> control \<Rightarrow> bool" where
  "reload_ok c c' \<longleftrightarrow> map dag_shape (ct_registry c') = map dag_shape (ct_registry c)
     \<and> (schedule_in_sync c \<longrightarrow> schedule_in_sync c')"

lemma reload_ok_names: "reload_ok c c' \<Longrightarrow> map sm_name (ct_registry c') = map sm_name (ct_registry c)"
proof -
  assume "reload_ok c c'"
  then have "map fst (map dag_shape (ct_registry c')) = map fst (map dag_shape (ct_registry c))"
    by (simp add: reload_ok_def)
  then show ?thesis by (simp add: comp_def)
qed

lemma update_one_shape:
  assumes "distinct (map sm_name reg)" and "m0 \<in> set reg" and "dag_shape mf = dag_shape m0"
  shows "map dag_shape (update_where (\<lambda>x. sm_name x = sm_name m0) (\<lambda>_. mf) reg) = map dag_shape reg"
  using assms by (auto simp: update_where_def distinct_map dest: inj_onD)

lemma apply_one_ok:
  fixes cron_ok :: "string \<Rightarrow> bool" and mfields :: "string \<Rightarrow> string list"
    and resched_ok :: "string \<Rightarrow> trigger \<Rightarrow> bool" and ov :: strategy_override
  assumes "distinct (map sm_name (ct_registry c))" and "name \<in> sm_name ` set (ct_registry c)"
  defines "c' \<equiv> apply_one_strategy cron_ok mfields resched_ok name ov c"
  shows "reload_ok c c'"
    and "\<forall>m \<in> set (ct_registry c'). sm_name m = name \<longrightarrow> (\<forall>b. ov_enabled ov = Some b \<longrightarrow> sm_enabled m = b)"
    and "\<forall>m. sm_name m \<noteq> name \<longrightarrow> m \<in> set (ct_registry c') \<longleftrightarrow> m \<in> set (ct_registry c)"
proof -
  obtain m0 where m0: "m0 \<in> set (ct_registry c)" "name = sm_name m0" using assms(2) by auto
  obtain mf s where c': "c' = (set_meta (sm_name m0) mf c)\<lparr>ct_schedule := s\<rparr>"
    and mf: "sm_name mf = sm_name m0" "sm_enabled mf = or_else (ov_enabled ov) (sm_enabled m0)"
      "dag_shape mf = dag_shape m0"
    and sch: "scheduled (sm_trigger m0) (ct_schedule c (sm_name m0)) \<longrightarrow> scheduled (sm_trigger mf) (s (sm_name m0))"
      "\<forall>n. n \<noteq> sm_name m0 \<longrightarrow> s n = ct_schedule c n"
    using apply_one_effect [OF assms(1) m0(1), of cron_ok mfields resched_ok ov]
    unfolding c'_def m0(2) by blast
  have reg: "ct_registry c' = update_where (\<lambda>x. sm_name x = sm_name m0) (\<lambda>_. mf) (ct_registry c)"
    and s: "ct_schedule c' = s" by (simp_all add: c' set_meta_def)
  have mem: "m \<in> set (ct_registry c') \<Longrightarrow> m = mf \<or> (m \<in> set (ct_registry c) \<and> sm_name m \<noteq> sm_name m0)" for m
    by (auto simp: reg set_update_where split: if_splits)
  have "schedule_in_sync c'" if sync: "schedule_in_sync c"
    unfolding schedule_in_sync_def s
  proof
    fix m assume "m \<in> set (ct_registry c')"
    with mem consider "m = mf" | "m \<in> set (ct_registry c)" "sm_name m \<noteq> sm_name m0" by blast
    then show "scheduled (sm_trigger m) (s (sm_name m))"
      using sync sch m0(1) mf(1) by cases (simp_all add: schedule_in_sync_def)
  qed
  then show "reload_ok c c'"
    unfolding reload_ok_def using update_one_shape [OF assms(1) m0(1) mf(3)] by (simp add: reg)
  show "\<forall>m \<in> set (ct_registry c'). sm_name m = name \<longrightarrow> (\<forall>b. ov_enabled ov = Some b \<longrightarrow> sm_enabled m = b)"
    using mem mf(2) m0(2) by (auto simp: or_else_def)
  show "\<forall>m. sm_name m \<noteq> name \<longrightarrow> m \<in> set (ct_registry c') \<longleftrightarrow> m \<in> set (ct_registry c)"
    using mf(1) m0(2) by (force simp: reg set_update_where image_iff)
qed

lemma apply_overrides_ok:
  fixes cron_ok :: "string \<Rightarrow> bool" and mfields :: "string \<Rightarrow> string list"
    and resched_ok :: "string \<Rightarrow> trigger \<Rightarrow> bool" and ovs :: "(string \<times> strategy_override) list"
  assumes "distinct (map sm_name (ct_registry c))"
  defines "c' \<equiv> apply_overrides cron_ok mfields resched_ok ovs c"
  shows "reload_ok c c' \<and> (distinct (map fst ovs) \<longrightarrow>
    (\<forall>name ov b m. (name, ov) \<in> set ovs \<longrightarrow> ov_enabled ov = Some b \<longrightarrow> m \<in> set (ct_registry c')
       \<longrightarrow> sm_name m = name \<longrightarrow> sm_enabled m = b)
    \<and> (\<forall>m. sm_name m \<notin> fst ` set ovs \<longrightarrow> m \<in> set (ct_registry c') \<longleftrightarrow> m \<in> set (ct_registry c)))"
  unfolding c'_def using assms(1)
proof (induction ovs arbitrary: c)
  case Nil
  show ?case by (simp add: apply_overrides_def reload_ok_def)
next
  case (Cons p ovs)
  obtain name ov where p: "p = (name, ov)" by (cases p)
  let ?c1 = "if name \<in> sm_name ` set (ct_registry c)
             then apply_one_strategy cron_ok mfields resched_ok name ov c else c"
  have ok1: "reload_ok c ?c1"
    and en1: "\<forall>m \<in> set (ct_registry ?c1). sm_name m = name \<longrightarrow> (\<forall>b. ov_enabled ov = Some b \<longrightarrow> sm_enabled m = b)"
    and fr1: "\<forall>m. sm_name m \<noteq> name \<longrightarrow> m \<in> set (ct_registry ?c1) \<longleftrightarrow> m \<in> set (ct_registry c)"
    using apply_one_ok [OF Cons.prems, of name cron_ok mfields resched_ok ov] by (auto simp: reload_ok_def)
  have "distinct (map sm_name (ct_registry ?c1))" using reload_ok_names [OF ok1] Cons.prems by metis
  note IH = Cons.IH [OF this]
  have eq: "apply_overrides cron_ok mfields resched_ok (p # ovs) c
      = apply_overrides cron_ok mfields resched_ok ovs ?c1"
    by (simp add: apply_overrides_def p)
  have "reload_ok c (apply_overrides cron_ok mfields resched_ok ovs ?c1)"
    using ok1 IH by (auto simp: reload_ok_def)
  moreover have "n = name \<Longrightarrow> n \<notin> fst ` set ovs" if "distinct (map fst (p # ovs))" for n
    using that p by simp
  ultimately show ?case unfolding eq using IH en1 fr1 by (auto simp: p)
qed


definition demo_stop :: strategy_override where
  "demo_stop = \<lparr>ov_enabled = Some False, ov_max_retries = None, ov_gate = None,
     ov_cron = Some ''bad'', ov_idle_seconds = None, ov_scan_interval = None\<rparr>"

definition demo_control :: control where
  "demo_control = \<lparr>ct_registry = [demo_meta ''s'' (Cron ''0 2 * * 1'') []], ct_schedule = (\<lambda>_. None)\<rparr>"


end
