(* ===== verification/Search_Filters.thy ===== *)
theory Search_Filters
  imports Prelude
begin

text \<open>
  The filter language of \<open>/search\<close> and \<open>/get\<close> and its compiler to a LanceDB \<open>where\<close>
  string, \<open>memory/search/filters.py\<close> with \<open>FilterNode\<close> of \<open>memory/search/dto.py\<close>.  The
  compiler is translated to the text it produces, so that what a caller can make of that
  text can be proved: \<open>erase\<close> reads it as SQL does and keeps what stands outside string
  literals and outside parentheses.

  \<open>isof\<close> is \<open>to_iso_format(from_timestamp(ms))\<close>, the rendering of an instant in the
  configured display time zone; \<open>None\<close> is an instant \<open>datetime\<close> cannot represent.
\<close>

section \<open>Input\<close>

datatype json =
    JNull
  | JBool bool
  | JInt int
  | JFloat rat
  | JStr string
  | JList "json list"
  | JObj "(string \<times> json) list"

text \<open>Python's truth value of it.\<close>

fun truthy_json :: "json \<Rightarrow> bool" where
  "truthy_json JNull = False"
| "truthy_json (JBool b) = b"
| "truthy_json (JInt n) = (n \<noteq> 0)"
| "truthy_json (JFloat x) = (x \<noteq> 0)"
| "truthy_json (JStr s) = (s \<noteq> [])"
| "truthy_json (JList xs) = (xs \<noteq> [])"
| "truthy_json (JObj kvs) = (kvs \<noteq> [])"

text \<open>\<open>FilterNode\<close>: the combinators and the extra fields, which pydantic leaves as they are.\<close>

datatype filter_node =
  Filter_node (node_and: "filter_node list option") (node_or: "filter_node list option")
    (node_fields: "(string \<times> json) list")

datatype filter_error =
    Reserved_field string
  | Unsupported_field string
  | Empty_operator_map string
  | Unsupported_operator string string
  | Array_operator string string
  | Not_a_string string
  | Not_a_list string
  | Bad_timestamp string
  | Timestamp_quote string
  | Timestamp_range string  \<comment> \<open>\<open>datetime\<close> raises; not a \<open>FilterError\<close> in the code\<close>

datatype field_kind = Kind_str | Kind_ts | Kind_array_str

definition ALLOWED_FIELDS :: "(string \<times> string \<times> field_kind) list" where
  "ALLOWED_FIELDS =
     [(''session_id'', ''session_id'', Kind_str), (''parent_type'', ''parent_type'', Kind_str),
      (''parent_id'', ''parent_id'', Kind_str), (''timestamp'', ''timestamp'', Kind_ts),
      (''sender_id'', ''sender_ids'', Kind_array_str)]"

definition RESERVED_FIELDS :: "string list" where
  "RESERVED_FIELDS = [''owner_id'', ''owner_type'', ''app_id'', ''project_id'']"

definition OP_MAP :: "(string \<times> string) list" where
  "OP_MAP = [(''eq'', ''=''), (''ne'', ''!=''), (''gt'', ''>''), (''gte'', ''>=''),
             (''lt'', ''<''), (''lte'', ''<=''), (''in'', ''IN'')]"

section \<open>Literals\<close>

abbreviation quote :: char where "quote \<equiv> CHR 0x27"

fun escape_str :: "string \<Rightarrow> string" where
  "escape_str [] = []"
| "escape_str (c # s) = (if c = quote then quote # quote # escape_str s else c # escape_str s)"

fun require_str :: "json \<Rightarrow> string \<Rightarrow> filter_error + string" where
  "require_str (JStr s) field = Inr s"
| "require_str _ field = Inl (Not_a_string field)"

fun require_list :: "json \<Rightarrow> string \<Rightarrow> filter_error + json list" where
  "require_list (JList (x # xs)) field = Inr (x # xs)"
| "require_list _ field = Inl (Not_a_list field)"

text \<open>Python's \<open>int(x)\<close> on a float truncates.\<close>

definition trunc :: "rat \<Rightarrow> int" where
  "trunc r = (if 0 \<le> r then \<lfloor>r\<rfloor> else \<lceil>r\<rceil>)"

definition render_ms :: "(int \<Rightarrow> string option) \<Rightarrow> int \<Rightarrow> string \<Rightarrow> filter_error + string" where
  "render_ms isof n field = (case isof n of None \<Rightarrow> Inl (Timestamp_range field) | Some t \<Rightarrow> Inr t)"

fun render_ts :: "(int \<Rightarrow> string option) \<Rightarrow> json \<Rightarrow> string \<Rightarrow> filter_error + string" where
  "render_ts isof (JInt n) field = render_ms isof n field"
| "render_ts isof (JFloat r) field = render_ms isof (trunc r) field"
| "render_ts isof (JStr s) field = (if quote \<in> set s then Inl (Timestamp_quote field) else Inr s)"
| "render_ts isof _ field = Inl (Bad_timestamp field)"

definition quoted :: "string \<Rightarrow> string" where
  "quoted s = quote # s @ [quote]"

definition render_literal :: "(int \<Rightarrow> string option) \<Rightarrow> json \<Rightarrow> field_kind \<Rightarrow> string \<Rightarrow> filter_error + string" where
  "render_literal isof v k field =
     (case k of
        Kind_ts \<Rightarrow> (case render_ts isof v field of Inl e \<Rightarrow> Inl e
            | Inr t \<Rightarrow> Inr (''TIMESTAMP '' @ quoted t))
      | _ \<Rightarrow> (case require_str v field of Inl e \<Rightarrow> Inl e
            | Inr s \<Rightarrow> Inr (quoted (escape_str s))))"

fun collect :: "('a \<Rightarrow> 'e + 'b) \<Rightarrow> 'a list \<Rightarrow> 'e + 'b list" where
  "collect f [] = Inr []"
| "collect f (x # xs) = (case f x of Inl e \<Rightarrow> Inl e
     | Inr y \<Rightarrow> (case collect f xs of Inl e \<Rightarrow> Inl e | Inr ys \<Rightarrow> Inr (y # ys)))"

section \<open>Predicates\<close>

definition compile_op_clause ::
  "(int \<Rightarrow> string option) \<Rightarrow> string \<Rightarrow> field_kind \<Rightarrow> string \<Rightarrow> string \<Rightarrow> json \<Rightarrow> filter_error + string" where
  "compile_op_clause isof col k field op v =
     (case map_of OP_MAP op of
        None \<Rightarrow> Inl (Unsupported_operator op field)
      | Some sql_op \<Rightarrow>
          (if k = Kind_array_str then
             (if op = ''eq'' then
                (case require_str v field of Inl e \<Rightarrow> Inl e
                 | Inr s \<Rightarrow> Inr (''array_has('' @ col @ '', '' @ quoted (escape_str s) @ '')''))
              else if op = ''in'' then
                (case require_list v field of Inl e \<Rightarrow> Inl e
                 | Inr items \<Rightarrow> (case collect (\<lambda>x. require_str x field) items of Inl e \<Rightarrow> Inl e
                     | Inr ss \<Rightarrow> Inr (''('' @ join '' OR ''
                         (map (\<lambda>s. ''array_has('' @ col @ '', '' @ quoted (escape_str s) @ '')'') ss) @ '')'')))
              else Inl (Array_operator op field))
           else if op = ''in'' then
             (case require_list v field of Inl e \<Rightarrow> Inl e
              | Inr items \<Rightarrow> (case collect (\<lambda>x. render_literal isof x k field) items of Inl e \<Rightarrow> Inl e
                  | Inr ls \<Rightarrow> Inr (col @ '' IN ('' @ join '', '' ls @ '')'')))
           else
             (case render_literal isof v k field of Inl e \<Rightarrow> Inl e
              | Inr l \<Rightarrow> Inr (col @ '' '' @ sql_op @ '' '' @ l))))"

text \<open>The caller has checked that the field is allowed.\<close>

definition compile_predicate :: "(int \<Rightarrow> string option) \<Rightarrow> string \<Rightarrow> json \<Rightarrow> filter_error + string" where
  "compile_predicate isof field v =
     (case map_of ALLOWED_FIELDS field of
        None \<Rightarrow> Inl (Unsupported_field field)
      | Some (col, k) \<Rightarrow>
          (case v of
             JObj ops \<Rightarrow>
               (if ops = [] then Inl (Empty_operator_map field)
                else (case collect (\<lambda>(op, x). compile_op_clause isof col k field op x) ops of
                    Inl e \<Rightarrow> Inl e
                  | Inr cs \<Rightarrow> (case cs of [c] \<Rightarrow> Inr c | _ \<Rightarrow> Inr (''('' @ join '' AND '' cs @ '')''))))
           | _ \<Rightarrow> compile_op_clause isof col k field ''eq'' v))"

definition compile_field :: "(int \<Rightarrow> string option) \<Rightarrow> string \<times> json \<Rightarrow> filter_error + string" where
  "compile_field isof fv =
     (if fst fv \<in> set RESERVED_FIELDS then Inl (Reserved_field (fst fv))
      else if fst fv \<notin> fst ` set ALLOWED_FIELDS then Inl (Unsupported_field (fst fv))
      else compile_predicate isof (fst fv) (snd fv))"

section \<open>Nodes\<close>

text \<open>\<open>_compile_combinator\<close> on the compiled children.\<close>

definition glue :: "string \<Rightarrow> string list \<Rightarrow> string" where
  "glue op compiled =
     (let fragments = map (\<lambda>c. ''('' @ c @ '')'') (filter (\<lambda>c. c \<noteq> []) compiled)
      in case fragments of [] \<Rightarrow> [] | [x] \<Rightarrow> x | _ \<Rightarrow> ''('' @ join ('' '' @ op @ '' '') fragments @ '')'')"

text \<open>\<open>model_dump(exclude_none=True)\<close> drops the fields that are \<open>None\<close>.\<close>

definition dumped :: "(string \<times> json) list \<Rightarrow> (string \<times> json) list" where
  "dumped fs = filter (\<lambda>fv. snd fv \<noteq> JNull) fs"

definition conjoin :: "string list \<Rightarrow> string" where
  "conjoin parts = join '' AND '' (filter (\<lambda>p. p \<noteq> []) parts)"

fun compile_node :: "(int \<Rightarrow> string option) \<Rightarrow> filter_node \<Rightarrow> filter_error + string"
and compile_children :: "(int \<Rightarrow> string option) \<Rightarrow> filter_node list \<Rightarrow> filter_error + string list"
where
  "compile_node isof (Filter_node ands ors fs) =
     (case (case ands of None \<Rightarrow> Inr [] | Some xs \<Rightarrow> compile_children isof xs) of
        Inl e \<Rightarrow> Inl e
      | Inr as \<Rightarrow> (case (case ors of None \<Rightarrow> Inr [] | Some xs \<Rightarrow> compile_children isof xs) of
            Inl e \<Rightarrow> Inl e
          | Inr os \<Rightarrow> (case collect (compile_field isof) (dumped fs) of
                Inl e \<Rightarrow> Inl e
              | Inr ps \<Rightarrow> Inr (conjoin (glue ''AND'' as # glue ''OR'' os # ps)))))"
| "compile_children isof [] = Inr []"
| "compile_children isof (n # ns) =
     (case compile_node isof n of Inl e \<Rightarrow> Inl e
      | Inr c \<Rightarrow> (case compile_children isof ns of Inl e \<Rightarrow> Inl e | Inr cs \<Rightarrow> Inr (c # cs)))"

definition pins :: "string \<Rightarrow> string \<Rightarrow> string \<Rightarrow> string \<Rightarrow> string list" where
  "pins owner_id owner_type app_id project_id =
     [''owner_id = '' @ quoted (escape_str owner_id), ''owner_type = '' @ quoted owner_type,
      ''app_id = '' @ quoted (escape_str app_id), ''project_id = '' @ quoted (escape_str project_id)]
     @ (if owner_type = ''user'' then [''deprecated_by IS NULL''] else [])"

definition compile_filters ::
  "(int \<Rightarrow> string option) \<Rightarrow> filter_node option \<Rightarrow> string \<Rightarrow> string \<Rightarrow> string \<Rightarrow> string \<Rightarrow> filter_error + string" where
  "compile_filters isof node owner_id owner_type app_id project_id =
     (let base = pins owner_id owner_type app_id project_id in
      case node of
        None \<Rightarrow> Inr (join '' AND '' base)
      | Some n \<Rightarrow> (case compile_node isof n of Inl e \<Rightarrow> Inl e
          | Inr compiled \<Rightarrow> if compiled = [] then Inr (join '' AND '' base)
                             else Inr (join '' AND '' (base @ [compiled]))))"

section \<open>Reading the text as SQL\<close>

text \<open>
  What stands at parenthesis depth 0 outside string literals; \<open>None\<close> if a literal or a
  parenthesis is left open or balanced too often.  A doubled quote inside a literal closes
  and reopens it, which leaves the reader inside, as SQL prescribes.
\<close>

fun erase :: "nat \<Rightarrow> bool \<Rightarrow> string \<Rightarrow> string option" where
  "erase d q [] = (if d = 0 \<and> \<not> q then Some [] else None)"
| "erase d q (c # s) =
     (if c = quote then erase d (\<not> q) s
      else if q then erase d q s
      else if c = CHR ''('' then erase (Suc d) q s
      else if c = CHR '')'' then (if d = 0 then None else erase (d - 1) q s)
      else if 0 < d then erase d q s
      else map_option ((#) c) (erase d q s))"

text \<open>The value of a literal whose opening quote has been read, and the text after it.\<close>

fun read_lit :: "string \<Rightarrow> (string \<times> string) option" where
  "read_lit [] = None"
| "read_lit (c # s) =
     (if c = quote
      then (case s of [] \<Rightarrow> Some ([], [])
            | c' # s' \<Rightarrow> if c' = quote then map_option (\<lambda>(l, r). (quote # l, r)) (read_lit s')
                         else Some ([], s))
      else map_option (\<lambda>(l, r). (c # l, r)) (read_lit s))"

text \<open>The values a \<open>where\<close> text pins, in the order of the columns given.\<close>

definition head_of :: "string \<Rightarrow> string" where
  "head_of col = col @ '' = '' @ [quote]"

primrec read_pins :: "string list \<Rightarrow> string \<Rightarrow> string list option" where
  "read_pins [] s = Some []"
| "read_pins (col # cols) s =
     (if take (length (head_of col)) s = head_of col
      then (case read_lit (drop (length (head_of col)) s) of
          None \<Rightarrow> None
        | Some (v, r) \<Rightarrow> (if cols = [] then Some [v]
            else if take 5 r = '' AND '' then map_option ((#) v) (read_pins cols (drop 5 r)) else None))
      else None)"

definition balanced :: "string \<Rightarrow> string \<Rightarrow> bool" where
  "balanced s out \<longleftrightarrow> (\<forall>d t. erase d False (s @ t)
     = (if d = 0 then map_option ((@) out) (erase 0 False t) else erase d False t))"

definition plain :: "string \<Rightarrow> bool" where
  "plain s \<longleftrightarrow> quote \<notin> set s \<and> CHR ''('' \<notin> set s \<and> CHR '')'' \<notin> set s"

lemma map_option_append_Nil [simp]: "map_option ((@) []) x = x"
  by (cases x) simp_all

lemma balanced_erase: "balanced s out \<Longrightarrow> erase 0 False s = Some out"
  unfolding balanced_def by (drule spec [of _ 0], drule spec [of _ "[]"]) simp

lemma balanced_Nil [simp]: "balanced [] []"
  by (simp add: balanced_def)

lemma balanced_append: "balanced a x \<Longrightarrow> balanced b y \<Longrightarrow> balanced (a @ b) (x @ y)"
proof -
  have "(\<lambda>z. x @ y @ z) = (@) (x @ y)" by (simp add: fun_eq_iff)
  then show "balanced a x \<Longrightarrow> balanced b y \<Longrightarrow> balanced (a @ b) (x @ y)"
    by (simp add: balanced_def option.map_comp comp_def)
qed

lemma balanced_plain: "plain s \<Longrightarrow> balanced s s"
proof (induction s)
  case (Cons c s)
  then have "balanced s s" by (simp add: plain_def)
  moreover have "(\<lambda>z. c # s @ z) = (@) (c # s)" by (simp add: fun_eq_iff)
  ultimately show ?case using Cons.prems
    by (auto simp: balanced_def plain_def option.map_comp comp_def)
qed simp

lemma erase_no_quote: "quote \<notin> set s \<Longrightarrow> erase d True (s @ t) = erase d True t"
  by (induction s) auto

lemma erase_escape: "erase d True (escape_str s @ t) = erase d True t"
  by (induction s) auto

lemma balanced_quoted: "quote \<notin> set s \<Longrightarrow> balanced (quoted s) []"
  by (simp add: balanced_def quoted_def erase_no_quote)

lemma balanced_quoted_escape [simp]: "balanced (quoted (escape_str s)) []"
  by (simp add: balanced_def quoted_def erase_escape)

lemma balanced_paren: "balanced s out \<Longrightarrow> balanced (''('' @ s @ '')'') []"
  by (simp add: balanced_def)

lemma balanced_join:
  "list_all2 balanced xs outs \<Longrightarrow> plain sep \<Longrightarrow> balanced (join sep xs) (join sep outs)"
proof (induction xs outs rule: list_all2_induct)
  case (Cons x xs y ys)
  then show ?case
    by (cases xs; cases ys) (auto intro!: balanced_append balanced_plain)
qed simp

lemma balanced_join_ex:
  "\<forall>x \<in> set xs. \<exists>out. balanced x out \<Longrightarrow> plain sep \<Longrightarrow> \<exists>out. balanced (join sep xs) out"
proof -
  assume "\<forall>x \<in> set xs. \<exists>out. balanced x out" and "plain sep"
  then obtain f where "\<forall>x \<in> set xs. balanced x (f x)" by metis
  then have "list_all2 balanced xs (map f xs)" by (auto simp: list_all2_conv_all_nth)
  then show ?thesis using balanced_join \<open>plain sep\<close> by blast
qed

section \<open>The shape of compiled text\<close>

definition atom_texts :: "string set" where
  "atom_texts = {[], ''array_has''} \<union>
     {col @ '' '' @ opr @ '' '' @ w | col opr w.
        col \<in> fst ` set (map snd ALLOWED_FIELDS) \<and> opr \<in> snd ` set OP_MAP \<and> w \<in> {[], ''TIMESTAMP ''}}"

lemma comparison_atom:
  "col \<in> fst ` set (map snd ALLOWED_FIELDS) \<Longrightarrow> opr \<in> snd ` set OP_MAP \<Longrightarrow> w \<in> {[], ''TIMESTAMP ''}
   \<Longrightarrow> col @ '' '' @ opr @ '' '' @ w \<in> atom_texts"
  unfolding atom_texts_def by (rule UnI2) blast

lemma in_operator: "''IN'' \<in> snd ` set OP_MAP"
  by (simp add: OP_MAP_def)

definition fragment :: "string \<Rightarrow> bool" where
  "fragment s \<longleftrightarrow> (\<exists>atoms. balanced s (join '' AND '' atoms) \<and> atoms \<noteq> [] \<and> set atoms \<subseteq> atom_texts)"

lemma fragment_atom: "balanced s a \<Longrightarrow> a \<in> atom_texts \<Longrightarrow> fragment s"
  unfolding fragment_def by (rule exI [of _ "[a]"]) simp

lemma fragment_paren: "balanced s out \<Longrightarrow> fragment (''('' @ s @ '')'')"
  by (rule fragment_atom [OF balanced_paren]) (simp_all add: atom_texts_def)

lemma fragment_balanced: "fragment s \<Longrightarrow> \<exists>out. balanced s out"
  by (auto simp: fragment_def)

lemma plain_texts [simp]: "plain '' AND ''" "plain '' OR ''" "plain '', ''" "plain '' ''"
  by (simp_all add: plain_def)

lemma collect_all:
  "collect f xs = Inr ys \<Longrightarrow> (\<And>x y. x \<in> set xs \<Longrightarrow> f x = Inr y \<Longrightarrow> P y) \<Longrightarrow> \<forall>y \<in> set ys. P y"
proof (induction xs arbitrary: ys)
  case (Cons x xs)
  obtain b bs where f: "f x = Inr b" "collect f xs = Inr bs" "ys = b # bs"
    using Cons.prems(1) by (auto split: sum.splits)
  have "P b" by (rule Cons.prems(2) [OF _ f(1)]) simp
  moreover have "\<forall>y \<in> set bs. P y" using f(2) by (rule Cons.IH) (auto intro: Cons.prems(2))
  ultimately show ?case using f(3) by simp
qed simp

lemma array_has_atom [simp]: "''array_has'' \<in> atom_texts" "[] \<in> atom_texts"
  unfolding atom_texts_def by (rule UnI1, simp)+

lemma join_concat:
  "\<forall>as \<in> set ass. as \<noteq> [] \<Longrightarrow> join sep (map (join sep) ass) = join sep (concat ass)"
proof (induction ass)
  case (Cons as ass)
  have app: "xs \<noteq> [] \<Longrightarrow> ys \<noteq> [] \<Longrightarrow> join sep (xs @ ys) = join sep xs @ sep @ join sep ys" for xs ys
  proof (induction xs)
    case (Cons x xs)
    then show ?case by (cases xs; cases ys) auto
  qed simp
  show ?case
  proof (cases ass)
    case (Cons b bs)
    then have "concat ass \<noteq> []" using Cons.prems by auto
    with Cons.IH Cons.prems Cons show ?thesis by (simp add: app)
  qed simp
qed simp

lemma fragment_conjoin:
  assumes "\<forall>p \<in> set parts. p = [] \<or> fragment p"
  shows "conjoin parts = [] \<or> fragment (conjoin parts)"
proof (cases "filter (\<lambda>p. p \<noteq> []) parts")
  case Nil
  then show ?thesis by (simp add: conjoin_def)
next
  case (Cons p ps)
  let ?ps = "filter (\<lambda>p. p \<noteq> []) parts"
  have "\<forall>p \<in> set ?ps. \<exists>atoms. balanced p (join '' AND '' atoms) \<and> atoms \<noteq> [] \<and> set atoms \<subseteq> atom_texts"
    using assms by (auto simp: fragment_def)
  then obtain f where f: "\<forall>p \<in> set ?ps. balanced p (join '' AND '' (f p)) \<and> f p \<noteq> [] \<and> set (f p) \<subseteq> atom_texts"
    by metis
  then have "list_all2 balanced ?ps (map (join '' AND '') (map f ?ps))"
    unfolding list_all2_map2 by (intro list.rel_refl_strong) blast
  then have "balanced (join '' AND '' ?ps) (join '' AND '' (map (join '' AND '') (map f ?ps)))"
    by (rule balanced_join) simp
  moreover have "join '' AND '' (map (join '' AND '') (map f ?ps)) = join '' AND '' (concat (map f ?ps))"
    using f by (intro join_concat) auto
  moreover have "concat (map f ?ps) \<noteq> []" "set (concat (map f ?ps)) \<subseteq> atom_texts"
    using f Cons by auto
  ultimately show ?thesis unfolding conjoin_def fragment_def by metis
qed

lemma fragment_glue:
  assumes "\<forall>c \<in> set compiled. c = [] \<or> fragment c" and "plain ('' '' @ op @ '' '')"
  shows "glue op compiled = [] \<or> fragment (glue op compiled)"
proof -
  let ?fs = "map (\<lambda>c. ''('' @ c @ '')'') (filter (\<lambda>c. c \<noteq> []) compiled)"
  have cl: "\<forall>x \<in> set ?fs. balanced x []"
    using assms(1) by (auto dest!: fragment_balanced intro: balanced_paren [simplified])
  then have "\<exists>out. balanced (join ('' '' @ op @ '' '') ?fs) out"
    using assms(2) by (intro balanced_join_ex) auto
  then obtain out where "balanced (join ('' '' @ op @ '' '') ?fs) out" by blast
  then have par: "fragment (''('' @ join ('' '' @ op @ '' '') ?fs @ '')'')" by (rule fragment_paren)
  have one: "fragment x" if "?fs = [x]" for x
  proof (rule fragment_atom)
    have "x \<in> set ?fs" unfolding that by simp
    with cl show "balanced x []" by blast
  qed (simp add: atom_texts_def)
  show ?thesis
    using par one by (auto simp: glue_def Let_def split: list.split)
qed

lemma map_of_values: "map_of xs k = Some v \<Longrightarrow> v \<in> snd ` set xs"
  by (force dest: map_of_SomeD)

lemma columns_plain: "map_of ALLOWED_FIELDS field = Some (col, k) \<Longrightarrow>
    plain col \<and> col \<in> fst ` set (map snd ALLOWED_FIELDS)"
  by (drule map_of_values) (auto simp: ALLOWED_FIELDS_def plain_def)

lemma ops_plain: "map_of OP_MAP op = Some opr \<Longrightarrow> plain opr \<and> opr \<in> snd ` set OP_MAP"
  by (drule map_of_values) (auto simp: OP_MAP_def plain_def)

definition quote_free :: "(int \<Rightarrow> string option) \<Rightarrow> bool" where
  "quote_free isof \<longleftrightarrow> (\<forall>n t. isof n = Some t \<longrightarrow> quote \<notin> set t)"

lemma render_ts_no_quote: "quote_free isof \<Longrightarrow> render_ts isof v field = Inr t \<Longrightarrow> quote \<notin> set t"
  by (cases v) (auto simp: render_ms_def quote_free_def split: option.splits if_splits)

lemma render_literal_balanced:
  assumes "quote_free isof" and "render_literal isof v k field = Inr l"
  shows "\<exists>w \<in> {[], ''TIMESTAMP ''}. balanced l w"
proof (cases k)
  case Kind_ts
  with assms obtain t where t: "render_ts isof v field = Inr t" "l = ''TIMESTAMP '' @ quoted t"
    by (auto simp: render_literal_def split: sum.splits)
  have "balanced (''TIMESTAMP '' @ quoted t) (''TIMESTAMP '' @ [])"
    using render_ts_no_quote [OF assms(1) t(1)]
    by (intro balanced_append balanced_plain balanced_quoted) (simp_all add: plain_def)
  then show ?thesis using t(2) by simp
qed (use assms in \<open>auto simp: render_literal_def split: sum.splits\<close>)

lemma array_has_balanced:
  assumes "plain col"
  shows "balanced (''array_has('' @ col @ '', '' @ quoted (escape_str s) @ '')'') ''array_has''"
proof -
  have "balanced (col @ '', '' @ quoted (escape_str s)) (col @ '', '' @ [])"
    using assms by (intro balanced_append balanced_plain) simp_all
  from balanced_append [OF _ balanced_paren [OF this], of "''array_has''" "''array_has''"]
  show ?thesis by (simp add: balanced_plain plain_def)
qed

lemma compile_op_clause_fragment:
  assumes iso: "quote_free isof" and col: "map_of ALLOWED_FIELDS f0 = Some (col, k)"
    and run: "compile_op_clause isof col k field op v = Inr s"
  shows "fragment s"
proof -
  note c = columns_plain [OF col]
  obtain opr where opr: "map_of OP_MAP op = Some opr"
    using run by (auto simp: compile_op_clause_def split: option.splits)
  note o = ops_plain [OF opr]
  consider (has) x where "s = ''array_has('' @ col @ '', '' @ quoted (escape_str x) @ '')''"
    | (any) ss where "s = ''('' @ join '' OR '' (map (\<lambda>s. ''array_has('' @ col @ '', ''
         @ quoted (escape_str s) @ '')'') ss) @ '')''"
    | (among) items ls where "collect (\<lambda>x. render_literal isof x k field) items = Inr ls"
        "s = col @ '' IN ('' @ join '', '' ls @ '')''"
    | (cmp) l where "render_literal isof v k field = Inr l" "s = col @ '' '' @ opr @ '' '' @ l"
    using run opr by (auto simp: compile_op_clause_def split: if_splits sum.splits)
  then show ?thesis
  proof cases
    case has
    show ?thesis
      unfolding has by (rule fragment_atom [OF array_has_balanced array_has_atom(1)]) (use c in simp)
  next
    case any
    have "\<exists>out. balanced (join '' OR '' (map (\<lambda>s. ''array_has('' @ col @ '', ''
         @ quoted (escape_str s) @ '')'') ss)) out"
      using array_has_balanced c by (intro balanced_join_ex) auto
    with any show ?thesis using fragment_paren by blast
  next
    case among
    have "\<forall>l \<in> set ls. \<exists>out. balanced l out"
      by (rule collect_all [OF among(1)]) (blast dest: render_literal_balanced [OF iso])
    then obtain out where "balanced (join '', '' ls) out" using balanced_join_ex plain_texts by metis
    from balanced_append [OF _ balanced_paren [OF this], of "col @ '' IN ''" "col @ '' IN ''"]
    have "balanced s (col @ '' IN '')" using c by (simp add: among(2) balanced_plain plain_def)
    then show ?thesis
    proof (rule fragment_atom)
      have "col @ '' '' @ ''IN'' @ '' '' @ [] \<in> atom_texts"
        by (rule comparison_atom [OF _ in_operator]) (use c in simp_all)
      then show "col @ '' IN '' \<in> atom_texts" by simp
    qed
  next
    case cmp
    obtain w where w: "w \<in> {[], ''TIMESTAMP ''}" "balanced l w"
      using render_literal_balanced [OF iso cmp(1)] by blast
    then have "balanced s (col @ '' '' @ opr @ '' '' @ w)"
      unfolding cmp(2) using c o by (intro balanced_append balanced_plain) simp_all
    then show ?thesis by (rule fragment_atom) (rule comparison_atom, use c o w in simp_all)
  qed
qed

lemma compile_predicate_fragment:
  assumes "quote_free isof" and "compile_predicate isof field v = Inr s"
  shows "fragment s"
proof -
  obtain col k where col: "map_of ALLOWED_FIELDS field = Some (col, k)"
    using assms(2) by (auto simp: compile_predicate_def split: option.splits)
  note clause = compile_op_clause_fragment [OF assms(1) col]
  show ?thesis
  proof (cases v)
    case (JObj ops)
    then obtain cs where cs: "collect (\<lambda>(op, x). compile_op_clause isof col k field op x) ops = Inr cs"
      and s: "s = (case cs of [c] \<Rightarrow> c | _ \<Rightarrow> ''('' @ join '' AND '' cs @ '')'')"
      using assms(2) col by (auto simp: compile_predicate_def split: if_splits sum.splits list.splits)
    have frag: "\<forall>c \<in> set cs. fragment c"
      by (rule collect_all [OF cs]) (auto intro: clause)
    then have "\<exists>out. balanced (join '' AND '' cs) out"
      using fragment_balanced by (intro balanced_join_ex) auto
    then have "fragment (''('' @ join '' AND '' cs @ '')'')" using fragment_paren by blast
    with frag s show ?thesis by (metis (no_types, lifting) list.case list.exhaust list.set_intros(1))
  qed (use assms(2) col clause in \<open>auto simp: compile_predicate_def\<close>)
qed

lemma compile_field_fragment:
  "quote_free isof \<Longrightarrow> compile_field isof fv = Inr s \<Longrightarrow> fragment s"
  by (auto simp: compile_field_def intro: compile_predicate_fragment split: if_splits)

lemma compile_node_Inr:
  assumes "compile_node isof (Filter_node ands ors fs) = Inr s"
  obtains as os ps where
    "(case ands of None \<Rightarrow> Inr [] | Some xs \<Rightarrow> compile_children isof xs) = Inr as"
    "(case ors of None \<Rightarrow> Inr [] | Some xs \<Rightarrow> compile_children isof xs) = Inr os"
    "collect (compile_field isof) (dumped fs) = Inr ps"
    "s = conjoin (glue ''AND'' as # glue ''OR'' os # ps)"
proof -
  obtain as where as: "(case ands of None \<Rightarrow> Inr [] | Some xs \<Rightarrow> compile_children isof xs) = Inr as"
    using assms by (simp split: sum.splits)
  obtain os where os: "(case ors of None \<Rightarrow> Inr [] | Some xs \<Rightarrow> compile_children isof xs) = Inr os"
    using assms as by (simp split: sum.splits)
  obtain ps where ps: "collect (compile_field isof) (dumped fs) = Inr ps"
    using assms as os by (simp split: sum.splits)
  show thesis using that [OF as os ps] assms as os ps by simp
qed

lemma compile_node_fragment:
  "quote_free isof \<Longrightarrow> compile_node isof n = Inr s \<Longrightarrow> s = [] \<or> fragment s"
  "quote_free isof \<Longrightarrow> compile_children isof ns = Inr cs \<Longrightarrow> \<forall>c \<in> set cs. c = [] \<or> fragment c"
proof (induction isof n and isof ns arbitrary: s and cs rule: compile_node_compile_children.induct)
  case (1 isof ands ors fs)
  from 1(4) obtain as os ps where
    as: "(case ands of None \<Rightarrow> Inr [] | Some xs \<Rightarrow> compile_children isof xs) = Inr as"
    and os: "(case ors of None \<Rightarrow> Inr [] | Some xs \<Rightarrow> compile_children isof xs) = Inr os"
    and ps: "collect (compile_field isof) (dumped fs) = Inr ps"
    and s: "s = conjoin (glue ''AND'' as # glue ''OR'' os # ps)"
    by (rule compile_node_Inr)
  have "\<forall>c \<in> set as. c = [] \<or> fragment c"
    using as 1(1) [OF _ 1(3)] by (cases ands) auto
  then have "glue ''AND'' as = [] \<or> fragment (glue ''AND'' as)"
    by (rule fragment_glue) (simp add: plain_def)
  moreover have "\<forall>c \<in> set os. c = [] \<or> fragment c"
    using os 1(2) [OF as _ 1(3)] by (cases ors) auto
  then have "glue ''OR'' os = [] \<or> fragment (glue ''OR'' os)"
    by (rule fragment_glue) (simp add: plain_def)
  moreover have "\<forall>p \<in> set ps. fragment p"
    by (rule collect_all [OF ps]) (rule compile_field_fragment [OF 1(3)])
  ultimately show ?case unfolding s by (intro fragment_conjoin) auto
next
  case (3 isof n ns)
  obtain b bs where b: "compile_node isof n = Inr b" "compile_children isof ns = Inr bs" "cs = b # bs"
    using 3(4) by (auto split: sum.splits)
  from 3(1) [OF 3(3) b(1)] 3(2) [OF b(1) 3(3) b(2)] b(3) show ?case by simp
qed simp

fun all_fields :: "filter_node \<Rightarrow> string set" and children_fields :: "filter_node list \<Rightarrow> string set" where
  "all_fields (Filter_node ands ors fs) =
     (case ands of None \<Rightarrow> {} | Some xs \<Rightarrow> children_fields xs)
     \<union> (case ors of None \<Rightarrow> {} | Some xs \<Rightarrow> children_fields xs) \<union> fst ` set (dumped fs)"
| "children_fields [] = {}"
| "children_fields (n # ns) = all_fields n \<union> children_fields ns"

lemma collect_fields:
  "collect (compile_field isof) fs = Inr ps \<Longrightarrow> fst ` set fs \<subseteq> fst ` set ALLOWED_FIELDS"
proof (induction fs arbitrary: ps)
  case (Cons f fs)
  obtain p qs where "compile_field isof f = Inr p" "collect (compile_field isof) fs = Inr qs"
    using Cons.prems by (auto split: sum.splits)
  moreover from this have "fst f \<in> fst ` set ALLOWED_FIELDS"
    by (simp add: compile_field_def split: if_splits)
  ultimately show ?case using Cons.IH by simp
qed simp

lemma compile_node_fields:
  "compile_node isof n = Inr s \<Longrightarrow> all_fields n \<subseteq> fst ` set ALLOWED_FIELDS"
  "compile_children isof ns = Inr cs \<Longrightarrow> children_fields ns \<subseteq> fst ` set ALLOWED_FIELDS"
proof (induction isof n and isof ns arbitrary: s and cs rule: compile_node_compile_children.induct)
  case (1 isof ands ors fs)
  from 1(3) obtain as os ps where
    as: "(case ands of None \<Rightarrow> Inr [] | Some xs \<Rightarrow> compile_children isof xs) = Inr as"
    and os: "(case ors of None \<Rightarrow> Inr [] | Some xs \<Rightarrow> compile_children isof xs) = Inr os"
    and ps: "collect (compile_field isof) (dumped fs) = Inr ps"
    by (rule compile_node_Inr)
  have "(case ands of None \<Rightarrow> {} | Some xs \<Rightarrow> children_fields xs) \<subseteq> fst ` set ALLOWED_FIELDS"
    using as 1(1) by (cases ands) auto
  moreover have "(case ors of None \<Rightarrow> {} | Some xs \<Rightarrow> children_fields xs) \<subseteq> fst ` set ALLOWED_FIELDS"
    using os 1(2) [OF as] by (cases ors) auto
  ultimately show ?case using collect_fields [OF ps] by simp
next
  case (3 isof n ns)
  obtain b bs where b: "compile_node isof n = Inr b" "compile_children isof ns = Inr bs"
    using 3(3) by (auto split: sum.splits)
  from 3(1) [OF b(1)] 3(2) [OF b] show ?case by simp
qed simp

lemma read_lit_escape:
  "t = [] \<or> hd t \<noteq> quote \<Longrightarrow> read_lit (escape_str x @ quote # t) = Some (x, t)"
  by (induction x) (auto split: list.split)

lemma read_pins_last:
  assumes "r = [] \<or> hd r \<noteq> quote"
  shows "read_pins [col] (col @ '' = '' @ quoted (escape_str v) @ r) = Some [v]"
  using read_lit_escape [OF assms, of v] by (simp add: head_of_def quoted_def)

lemma read_pins_next:
  assumes "cols \<noteq> []"
  shows "read_pins (col # cols) (col @ '' = '' @ quoted (escape_str v) @ '' AND '' @ r)
         = map_option ((#) v) (read_pins cols r)"
  using read_lit_escape [of "'' AND '' @ r" v] assms by (simp add: head_of_def quoted_def)

definition pin_columns :: "string list" where
  "pin_columns = [''owner_id'', ''owner_type'', ''app_id'', ''project_id'']"

definition pin_atoms :: "string \<Rightarrow> string list" where
  "pin_atoms owner_type = [''owner_id = '', ''owner_type = '', ''app_id = '', ''project_id = '']
     @ (if owner_type = ''user'' then [''deprecated_by IS NULL''] else [])"

lemma join_snoc: "xs \<noteq> [] \<Longrightarrow> join sep (xs @ [y]) = join sep xs @ sep @ y"
proof (induction xs)
  case (Cons x xs)
  then show ?case by (cases xs) auto
qed simp

lemma read_pins_pins:
  assumes "ot \<in> {''user'', ''agent''}" and "r = [] \<or> (\<exists>r'. r = '' AND '' @ r')"
  shows "read_pins pin_columns (join '' AND '' (pins oid ot app proj) @ r) = Some [oid, ot, app, proj]"
proof -
  have ot: "escape_str ot = ot" using assms(1) by auto
  define r1 where "r1 = (if ot = ''user'' then '' AND deprecated_by IS NULL'' else []) @ r"
  have r1: "r1 = [] \<or> hd r1 \<noteq> quote" using assms(2) by (auto simp: r1_def)
  have eq: "join '' AND '' (pins oid ot app proj) @ r
      = ''owner_id'' @ '' = '' @ quoted (escape_str oid) @ '' AND ''
        @ ''owner_type'' @ '' = '' @ quoted (escape_str ot) @ '' AND ''
        @ ''app_id'' @ '' = '' @ quoted (escape_str app) @ '' AND ''
        @ ''project_id'' @ '' = '' @ quoted (escape_str proj) @ r1"
    by (simp add: pins_def r1_def ot)
  show ?thesis
    unfolding eq pin_columns_def
    by (subst read_pins_next, simp)+ (subst read_pins_last [OF r1], simp)
qed

lemma pins_balanced:
  assumes "ot \<in> {''user'', ''agent''}"
  shows "list_all2 balanced (pins oid ot app proj) (pin_atoms ot)"
proof -
  have pin: "balanced (col @ '' = '' @ quoted (escape_str v)) (col @ '' = '' @ [])" if "plain col" for col v
    using that by (intro balanced_append balanced_plain) (simp_all add: plain_def)
  have "escape_str ot = ot" using assms by auto
  then show ?thesis
    using pin [of "''owner_id''" oid] pin [of "''owner_type''" ot] pin [of "''app_id''" app]
      pin [of "''project_id''" proj] balanced_plain [of "''deprecated_by IS NULL''"]
    by (simp add: pins_def pin_atoms_def plain_def)
qed

text \<open>The text the compiler produces, read as SQL.\<close>

lemma compiled_shape:
  assumes "quote_free isof" and "ot \<in> {''user'', ''agent''}"
    and "compile_filters isof node oid ot app proj = Inr s"
  shows "read_pins pin_columns s = Some [oid, ot, app, proj]
    \<and> (\<exists>atoms. set atoms \<subseteq> atom_texts \<and> erase 0 False s = Some (join '' AND '' (pin_atoms ot @ atoms)))
    \<and> (case node of None \<Rightarrow> True | Some n \<Rightarrow> all_fields n \<subseteq> fst ` set ALLOWED_FIELDS)"
proof -
  let ?pins = "pins oid ot app proj"
  consider (none) "s = join '' AND '' ?pins"
    | (some) c where "fragment c" "s = join '' AND '' ?pins @ '' AND '' @ c"
    using assms(3) compile_node_fragment(1) [OF assms(1)] join_snoc [of ?pins "'' AND ''"]
    by (auto simp: compile_filters_def Let_def pins_def split: option.splits sum.splits if_splits)
  then have "read_pins pin_columns s = Some [oid, ot, app, proj]
    \<and> (\<exists>atoms. set atoms \<subseteq> atom_texts \<and> erase 0 False s = Some (join '' AND '' (pin_atoms ot @ atoms)))"
  proof cases
    case none
    have "erase 0 False s = Some (join '' AND '' (pin_atoms ot @ []))"
      unfolding none append_Nil2
      by (rule balanced_erase, rule balanced_join [OF pins_balanced [OF assms(2)]]) simp
    then show ?thesis
      using read_pins_pins [OF assms(2), of "[]"] by (auto simp: none intro: exI [of _ "[]"])
  next
    case some
    obtain atoms where a: "balanced c (join '' AND '' atoms)" "set atoms \<subseteq> atom_texts" "atoms \<noteq> []"
      using some(1) by (auto simp: fragment_def)
    have "join '' AND '' (pin_atoms ot) @ '' AND '' @ join '' AND '' atoms
        = join '' AND '' (map (join '' AND '') [pin_atoms ot, atoms])" by simp
    also have "\<dots> = join '' AND '' (pin_atoms ot @ atoms)"
      using a(3) by (subst join_concat) (simp_all add: pin_atoms_def)
    moreover have "balanced s (join '' AND '' (pin_atoms ot) @ '' AND '' @ join '' AND '' atoms)"
      unfolding some(2)
      by (intro balanced_append balanced_join [OF pins_balanced [OF assms(2)]] a(1) balanced_plain) simp_all
    ultimately have "erase 0 False s = Some (join '' AND '' (pin_atoms ot @ atoms))"
      by (metis balanced_erase)
    with a(2) read_pins_pins [OF assms(2), of "'' AND '' @ c"] show ?thesis by (auto simp: some(2))
  qed
  moreover have "case node of None \<Rightarrow> True | Some n \<Rightarrow> all_fields n \<subseteq> fst ` set ALLOWED_FIELDS"
    using assms(3) compile_node_fields(1)
    by (auto simp: compile_filters_def Let_def split: option.splits sum.splits)
  ultimately show ?thesis by simp
qed

text \<open>
  C9: no accepted filter reaches outside its space.  Read as SQL, a compiled text starts
  with the four partition columns compared with exactly the request's owner, app and
  project ids, whatever characters these contain; and outside literals and parentheses it
  is nothing but a conjunction of these comparisons and of predicates on the allowed
  columns, so that no \<open>OR\<close>, quote or parenthesis a caller supplies can weaken the pins.
  Fields outside the allow-list, the reserved ones among them, are refused at any depth.
\<close>

theorem filter_stays_in_scope:
  assumes "quote_free isof" and "ot \<in> {''user'', ''agent''}"
    and "compile_filters isof node oid ot app proj = Inr s"
  shows "read_pins pin_columns s = Some [oid, ot, app, proj]
    \<and> (\<exists>atoms. set atoms \<subseteq> atom_texts \<and> erase 0 False s = Some (join '' AND '' (pin_atoms ot @ atoms)))
    \<and> (case node of None \<Rightarrow> True | Some n \<Rightarrow> all_fields n \<subseteq> fst ` set ALLOWED_FIELDS)"
  using assms by (rule compiled_shape)

theorem filter_stays_in_scope_witness:
  "\<exists>s. compile_filters (\<lambda>_. None)
      (Some (Filter_node None (Some [Filter_node None None [(''session_id'', JStr ''a'')],
                                     Filter_node None None [(''parent_id'', JStr (quote # '' OR 1=1''))]]) []))
      (''x'' @ quote # '' OR '') ''user'' ''app'' ''proj'' = Inr s
    \<and> read_pins pin_columns s = Some [''x'' @ quote # '' OR '', ''user'', ''app'', ''proj'']"
  (is "\<exists>s. ?c = Inr s \<and> _")
proof -
  have "\<exists>s. ?c = Inr s"
    by (simp add: compile_filters_def compile_field_def compile_predicate_def compile_op_clause_def
        ALLOWED_FIELDS_def RESERVED_FIELDS_def OP_MAP_def render_literal_def dumped_def Let_def split: if_split)
  then obtain s where s: "?c = Inr s" by blast
  moreover have "read_pins pin_columns s = Some [''x'' @ quote # '' OR '', ''user'', ''app'', ''proj'']"
    using filter_stays_in_scope [OF _ _ s] by (simp add: quote_free_def)
  ultimately show ?thesis by blast
qed

end
