(* ===== verification/Named_Handlers.thy ===== *)
theory Named_Handlers
  imports Daily_Handler "HOL-Library.Sublist"
begin

text \<open>
  The handlers of the single-file kinds: \<open>memory/cascade/handlers/agent_skill.py\<close> (one
  \<open>SKILL.md\<close> per skill with its \<open>references/*.md\<close>) and
  \<open>memory/cascade/handlers/user_profile.py\<close> (one \<open>user.md\<close> per user).  A file is one row
  of its table, keyed by a name the file itself carries.  The vector table is the
  \<open>lance_ops\<close> of \<open>Daily_Handler\<close>; these tables have no \<open>entry_id\<close> and no
  \<open>deprecated_by\<close> column, so the two fields stay empty.  SHA-256, the tokeniser, the
  embedding service and the printing of floats are parameters of the environment.
\<close>

section \<open>Files and environment\<close>

text \<open>
  What reading a file gives: no file, an exception (an unreadable file, a frontmatter
  field that does not convert), or the fields the handler takes from it.
\<close>

datatype 'f source = Src_missing | Src_raises string | Src_file 'f

record ('f, 't) named_world =
  nw_files :: "string \<Rightarrow> 'f source"
  nw_table :: 't

record skill_file =
  sk_agent_id :: string
  sk_name :: string
  sk_description :: string
  sk_confidence :: rat
  sk_maturity :: rat
  sk_source_cases :: "string list"
  sk_cluster :: "string option"
  sk_body :: string
  sk_references :: "(string \<times> string) list option"

record profile_file =
  pf_user_id :: string
  pf_summary :: string
  pf_explicit_json :: string
  pf_implicit_json :: string
  pf_timestamp_ms :: int

record 'v skill_cols =
  sc_name :: string
  sc_description :: string
  sc_description_tokens :: string
  sc_content :: string
  sc_content_tokens :: string
  sc_confidence :: rat
  sc_maturity :: rat
  sc_source_cases :: "string list"
  sc_cluster :: "string option"
  sc_vector :: "'v option"

record profile_cols =
  pc_summary :: string
  pc_explicit_json :: string
  pc_implicit_json :: string
  pc_timestamp_ms :: int

record ('v, 'c, 't) named_env =
  ne_digest :: "string \<Rightarrow> string"
  ne_str_float :: "rat \<Rightarrow> string"
  ne_tokenize :: "string \<Rightarrow> string list"
  ne_embed :: "string \<Rightarrow> handler_exc + 'v option"
  ne_ops :: "('c, 't) lance_ops"

section \<open>Shared steps\<close>

definition get_by_id :: "('c, 't) lance_ops \<Rightarrow> string \<Rightarrow> 't \<Rightarrow> handler_exc + 'c lance_row option" where
  "get_by_id ops k t =
     (case lo_find ops (\<lambda>r. l_id r = k) 1 t of
        Inl e \<Rightarrow> Inl e
      | Inr rs \<Rightarrow> Inr (case rs of [] \<Rightarrow> None | r # _ \<Rightarrow> Some r))"

definition delete_by_md_path :: "('c, 't) lance_ops \<Rightarrow> string \<Rightarrow> 't \<Rightarrow> (handler_exc + nat) \<times> 't" where
  "delete_by_md_path ops md t = lo_delete ops (\<lambda>r. l_md_path r = md) t"

definition named_deleted :: "string \<Rightarrow> ('c, 't) lance_ops \<Rightarrow> ('f, 't) named_world handler_fun" where
  "named_deleted k ops md w =
     (case delete_by_md_path ops md (nw_table w) of
        (Inl e, t1) \<Rightarrow> (Inl e, w\<lparr>nw_table := t1\<rparr>)
      | (Inr n, t1) \<Rightarrow>
          (Inr \<lparr>ho_path = md, ho_kind = k, ho_upserted = 0, ho_deleted = n, ho_skipped = 0\<rparr>,
           w\<lparr>nw_table := t1\<rparr>))"

section \<open>Agent skills\<close>

definition concat_references :: "(string \<times> string) list option \<Rightarrow> string" where
  "concat_references d =
     (case d of
        None \<Rightarrow> []
      | Some entries \<Rightarrow>
          join [CHR 0x0A, CHR 0x0A] (map (rstrip \<circ> snd)
            (sort_key fst (filter (\<lambda>(n, _). suffix ''.md'' n) entries))))"

definition join_body_and_references :: "string \<Rightarrow> string \<Rightarrow> string" where
  "join_body_and_references body refs =
     (let body = rstrip body
      in if refs = [] then body
         else if body = [] then refs
         else body @ [CHR 0x0A, CHR 0x0A] @ refs)"

definition skill_digest :: "('v, 'c, 't) named_env \<Rightarrow> skill_file \<Rightarrow> string" where
  "skill_digest env f = ne_digest env (canonical_content
     [(''frontmatter:name'', sk_name f),
      (''frontmatter:description'', sk_description f),
      (''frontmatter:confidence'', ne_str_float env (sk_confidence f)),
      (''frontmatter:maturity_score'', ne_str_float env (sk_maturity f)),
      (''body'', rstrip (sk_body f)),
      (''references_content'', concat_references (sk_references f))])"

definition skill_id :: "skill_file \<Rightarrow> string" where
  "skill_id f = sk_agent_id f @ ''_'' @ sk_name f"

text \<open>The rows a rename left under the path; only looked for when the id is new.\<close>

definition sweep_orphans ::
  "('c, 't) lance_ops \<Rightarrow> string \<Rightarrow> string \<Rightarrow> 'c lance_row option \<Rightarrow> 't \<Rightarrow> (handler_exc + nat) \<times> 't" where
  "sweep_orphans ops md k prior t =
     (if prior \<noteq> None then (Inr 0, t)
      else let orphan = (\<lambda>r. l_md_path r = md \<and> l_id r \<noteq> k)
           in case lo_find ops orphan 1000 t of
                Inl e \<Rightarrow> (Inl e, t)
              | Inr orphans \<Rightarrow>
                  if orphans = [] then (Inr 0, t)
                  else (case lo_delete ops orphan t of
                          (Inl e, t1) \<Rightarrow> (Inl e, t1)
                        | (Inr _, t1) \<Rightarrow> (Inr (length orphans), t1)))"

definition skill_row ::
  "('v, 'v skill_cols, 't) named_env \<Rightarrow> string \<Rightarrow> skill_file \<Rightarrow> 'v option \<Rightarrow> 'v skill_cols lance_row" where
  "skill_row env md f v =
     (let content = join_body_and_references (sk_body f) (concat_references (sk_references f))
      in \<lparr>l_id = skill_id f, l_entry_id = [], l_owner_id = sk_agent_id f, l_owner_type = ''agent'',
          l_app_id = fst (resolve_scope md), l_project_id = snd (resolve_scope md), l_md_path = md,
          l_sha = skill_digest env f, l_deprecated_by = None,
          l_columns = \<lparr>sc_name = sk_name f, sc_description = sk_description f,
            sc_description_tokens = join '' '' (ne_tokenize env (sk_description f)),
            sc_content = content, sc_content_tokens = join '' '' (ne_tokenize env content),
            sc_confidence = sk_confidence f, sc_maturity = sk_maturity f,
            sc_source_cases = sk_source_cases f, sc_cluster = sk_cluster f, sc_vector = v\<rparr>\<rparr>)"

definition skill_embed_text :: "skill_file \<Rightarrow> string" where
  "skill_embed_text f = join [CHR 0x0A] (filter (\<lambda>s. s \<noteq> []) [sk_name f, sk_description f])"

definition skill_added_or_modified ::
  "('v, 'v skill_cols, 't) named_env \<Rightarrow> (skill_file, 't) named_world handler_fun" where
  "skill_added_or_modified env md w =
     (case nw_files w md of
        Src_missing \<Rightarrow> (Inl (File_not_found md), w)
      | Src_raises m \<Rightarrow> (Inl (Other_exception m), w)
      | Src_file f \<Rightarrow>
          if sk_agent_id f = [] \<or> sk_name f = [] then (Inl (Other_exception md), w)
          else case get_by_id (ne_ops env) (skill_id f) (nw_table w) of
             Inl e \<Rightarrow> (Inl e, w)
           | Inr prior \<Rightarrow>
               if map_option l_sha prior = Some (skill_digest env f)
               then (Inr \<lparr>ho_path = md, ho_kind = ''agent_skill'', ho_upserted = 0, ho_deleted = 0,
                          ho_skipped = 1\<rparr>, w)
               else case sweep_orphans (ne_ops env) md (skill_id f) prior (nw_table w) of
                  (Inl e, t1) \<Rightarrow> (Inl e, w\<lparr>nw_table := t1\<rparr>)
                | (Inr deleted, t1) \<Rightarrow>
                    (case ne_embed env (skill_embed_text f) of
                       Inl e \<Rightarrow> (Inl e, w\<lparr>nw_table := t1\<rparr>)
                     | Inr v \<Rightarrow>
                         (case lo_upsert (ne_ops env) [skill_row env md f v] t1 of
                            (Inl e, t2) \<Rightarrow> (Inl e, w\<lparr>nw_table := t2\<rparr>)
                          | (Inr _, t2) \<Rightarrow>
                              (Inr \<lparr>ho_path = md, ho_kind = ''agent_skill'', ho_upserted = 1,
                                    ho_deleted = deleted, ho_skipped = 0\<rparr>, w\<lparr>nw_table := t2\<rparr>))))"

definition skill_handler :: "('v, 'v skill_cols, 't) named_env \<Rightarrow> (skill_file, 't) named_world handler" where
  "skill_handler env = \<lparr>handle_added_or_modified = skill_added_or_modified env,
                        handle_deleted = named_deleted ''agent_skill'' (ne_ops env)\<rparr>"

section \<open>User profiles\<close>

definition profile_digest :: "('v, 'c, 't) named_env \<Rightarrow> profile_file \<Rightarrow> string" where
  "profile_digest env f = ne_digest env (canonical_content
     [(''frontmatter:summary'', pf_summary f),
      (''frontmatter:explicit_info_json'', pf_explicit_json f),
      (''frontmatter:implicit_traits_json'', pf_implicit_json f)])"

definition profile_row ::
  "('v, profile_cols, 't) named_env \<Rightarrow> string \<Rightarrow> profile_file \<Rightarrow> profile_cols lance_row" where
  "profile_row env md f =
     \<lparr>l_id = pf_user_id f, l_entry_id = [], l_owner_id = pf_user_id f, l_owner_type = ''user'',
      l_app_id = fst (resolve_scope md), l_project_id = snd (resolve_scope md), l_md_path = md,
      l_sha = profile_digest env f, l_deprecated_by = None,
      l_columns = \<lparr>pc_summary = pf_summary f, pc_explicit_json = pf_explicit_json f,
        pc_implicit_json = pf_implicit_json f, pc_timestamp_ms = pf_timestamp_ms f\<rparr>\<rparr>"

definition profile_added_or_modified ::
  "('v, profile_cols, 't) named_env \<Rightarrow> (profile_file, 't) named_world handler_fun" where
  "profile_added_or_modified env md w =
     (case nw_files w md of
        Src_missing \<Rightarrow> (Inl (File_not_found md), w)
      | Src_raises m \<Rightarrow> (Inl (Other_exception m), w)
      | Src_file f \<Rightarrow>
          if pf_user_id f = [] then (Inl (Other_exception md), w)
          else case get_by_id (ne_ops env) (pf_user_id f) (nw_table w) of
             Inl e \<Rightarrow> (Inl e, w)
           | Inr prior \<Rightarrow>
               if map_option l_sha prior = Some (profile_digest env f)
               then (Inr \<lparr>ho_path = md, ho_kind = ''user_profile'', ho_upserted = 0, ho_deleted = 0,
                          ho_skipped = 1\<rparr>, w)
               else case lo_upsert (ne_ops env) [profile_row env md f] (nw_table w) of
                  (Inl e, t1) \<Rightarrow> (Inl e, w\<lparr>nw_table := t1\<rparr>)
                | (Inr _, t1) \<Rightarrow>
                    (Inr \<lparr>ho_path = md, ho_kind = ''user_profile'', ho_upserted = 1, ho_deleted = 0,
                          ho_skipped = 0\<rparr>, w\<lparr>nw_table := t1\<rparr>))"

definition profile_handler :: "('v, profile_cols, 't) named_env \<Rightarrow> (profile_file, 't) named_world handler" where
  "profile_handler env = \<lparr>handle_added_or_modified = profile_added_or_modified env,
                          handle_deleted = named_deleted ''user_profile'' (ne_ops env)\<rparr>"

section \<open>What a run leaves behind\<close>

text \<open>The ids under which a table holds rows of a path.\<close>

definition path_rows :: "(string \<Rightarrow> 'c lance_row option) \<Rightarrow> string \<Rightarrow> string set" where
  "path_rows c md = {k. \<exists>r. c k = Some r \<and> l_md_path r = md}"

lemma path_rows_upd:
  "path_rows (c(k \<mapsto> r)) md = (if l_md_path r = md then insert k (path_rows c md) else path_rows c md - {k})"
  by (auto simp: path_rows_def)

context lance_table
begin

lemma get_by_id_contents:
  assumes "invar t" and "get_by_id ops k t = Inr p"
  shows "p = contents t k"
proof -
  obtain rs where find: "lo_find ops (\<lambda>r. l_id r = k) 1 t = Inr rs"
    and p: "p = (case rs of [] \<Rightarrow> None | r # _ \<Rightarrow> Some r)"
    using assms(2) by (auto simp: get_by_id_def split: sum.splits)
  note rows = find_rows [OF assms(1) find]
  show ?thesis
  proof (cases rs)
    case Nil
    then have "contents t k \<noteq> Some r" for r using rows contents_id [OF assms(1), of k r] by auto
    then show ?thesis using Nil p by (cases "contents t k") auto
  next
    case (Cons r rs')
    then show ?thesis using rows p by auto
  qed
qed

lemma upsert_single:
  assumes "invar t" and "lo_upsert ops [r] t = (Inr x, t')"
  shows "invar t'" and "contents t' = (contents t)(l_id r \<mapsto> r)"
  using upsert_invar [OF assms(1), of "[r]"] upsert_rows [OF assms(1), of "[r]" t'] assms(2)
  by (simp_all add: fun_eq_iff map_add_def)

lemma sweep_contents:
  assumes "invar t" and "sweep_orphans ops md k prior t = (Inr n, t1)"
  shows "invar t1"
    and "contents t1 j = (case contents t j of None \<Rightarrow> None
           | Some r \<Rightarrow> if prior = None \<and> l_md_path r = md \<and> j \<noteq> k then None else Some r)"
proof -
  let ?p = "\<lambda>r. l_md_path r = md \<and> l_id r \<noteq> k"
  have id: "contents t j = Some r \<Longrightarrow> l_id r = j" for j r using contents_id [OF assms(1)] .
  consider (kept) "prior \<noteq> None" "t1 = t"
    | (none) "prior = None" "t1 = t" "lo_find ops ?p 1000 t = Inr []"
    | (swept) m where "prior = None" "lo_delete ops ?p t = (Inr m, t1)"
    using assms(2) by (auto simp: sweep_orphans_def Let_def split: if_splits sum.splits prod.splits)
  then have "invar t1 \<and> (\<forall>j. contents t1 j = (case contents t j of None \<Rightarrow> None
           | Some r \<Rightarrow> if prior = None \<and> l_md_path r = md \<and> j \<noteq> k then None else Some r))"
  proof cases
    case kept
    then show ?thesis using assms(1) by (auto split: option.splits)
  next
    case none
    have "\<not> (contents t j = Some r \<and> l_md_path r = md \<and> j \<noteq> k)" for j r
      using find_rows [OF assms(1) none(3)] id [of j r] by auto
    with none assms(1) show ?thesis by (auto split: option.splits)
  next
    case swept
    then show ?thesis
      using delete_invar [OF assms(1), of ?p] delete_rows [OF assms(1) swept(2)] id
      by (auto split: option.splits)
  qed
  then show "invar t1" "contents t1 j = (case contents t j of None \<Rightarrow> None
           | Some r \<Rightarrow> if prior = None \<and> l_md_path r = md \<and> j \<noteq> k then None else Some r)" by auto
qed

end

text \<open>The same promises for the table of skills.\<close>

locale skill_table = lance_table ops contents invar
  for ops :: "('v skill_cols, 't) lance_ops" and contents and invar
begin

lemma skill_run:
  assumes "invar (nw_table w)" and "nw_files w md = Src_file f" and "ne_ops env = ops"
    and "\<exists>k. path_rows (contents (nw_table w)) md \<subseteq> {k}"
    and "\<And>r. contents (nw_table w) (skill_id f) = Some r \<Longrightarrow> l_md_path r = md"
    and "skill_added_or_modified env md w = (Inr out, w')"
  shows "path_rows (contents (nw_table w')) md = {skill_id f}"
    and "map_option l_sha (contents (nw_table w') (skill_id f)) = Some (skill_digest env f)"
    and "k \<notin> insert (skill_id f) (path_rows (contents (nw_table w)) md) \<Longrightarrow>
         contents (nw_table w') k = contents (nw_table w) k"
    and "ho_upserted out + ho_skipped out = 1" and "invar (nw_table w')"
proof -
  let ?t = "nw_table w" and ?id = "skill_id f"
  obtain prior where get: "get_by_id ops ?id ?t = Inr prior"
    and rest: "if map_option l_sha prior = Some (skill_digest env f)
       then w' = w \<and> ho_upserted out + ho_skipped out = 1
       else \<exists>n t1 v u. sweep_orphans ops md ?id prior ?t = (Inr n, t1)
              \<and> lo_upsert ops [skill_row env md f v] t1 = (Inr u, nw_table w')
              \<and> ho_upserted out + ho_skipped out = 1"
    using assms(2,3,6)
    by (auto simp: skill_added_or_modified_def split: if_splits sum.splits prod.splits) blast
  have prior: "prior = contents ?t ?id" using get_by_id_contents [OF assms(1) get] .
  have only: "path_rows (contents ?t) md \<subseteq> {?id}" if "contents ?t ?id = Some r" for r
  proof -
    have "?id \<in> path_rows (contents ?t) md" using assms(5) [OF that] that by (simp add: path_rows_def)
    then show ?thesis using assms(4) by blast
  qed
  have "path_rows (contents (nw_table w')) md = {?id}
    \<and> map_option l_sha (contents (nw_table w') ?id) = Some (skill_digest env f)
    \<and> (\<forall>k. k \<notin> insert ?id (path_rows (contents ?t) md) \<longrightarrow> contents (nw_table w') k = contents ?t k)
    \<and> ho_upserted out + ho_skipped out = 1 \<and> invar (nw_table w')"
  proof (cases "map_option l_sha prior = Some (skill_digest env f)")
    case True
    then obtain r where r: "contents ?t ?id = Some r" using prior by auto
    from True rest have "w' = w" "ho_upserted out + ho_skipped out = 1" by auto
    moreover have "path_rows (contents ?t) md = {?id}"
      using only [OF r] r assms(5) [OF r] by (auto simp: path_rows_def)
    ultimately show ?thesis using True prior assms(1) by simp
  next
    case False
    then obtain n t1 v u where sw: "sweep_orphans ops md ?id prior ?t = (Inr n, t1)"
      and up: "lo_upsert ops [skill_row env md f v] t1 = (Inr u, nw_table w')"
      and out: "ho_upserted out + ho_skipped out = 1" using rest unfolding if_not_P [OF False] by blast
    note t1 = sweep_contents [OF assms(1) sw]
    have row: "l_id (skill_row env md f v) = ?id" "l_md_path (skill_row env md f v) = md"
      "l_sha (skill_row env md f v) = skill_digest env f"
      by (simp_all add: skill_row_def Let_def)
    note t2 = upsert_single [OF t1(1) up, unfolded row]
    have "path_rows (contents t1) md \<subseteq> {?id}"
    proof
      fix j assume "j \<in> path_rows (contents t1) md"
      then have j: "j \<in> path_rows (contents ?t) md" "prior = None \<Longrightarrow> j = ?id"
        by (auto simp: path_rows_def t1(2) split: option.splits if_splits)
      show "j \<in> {?id}"
      proof (cases "contents ?t ?id")
        case (Some r)
        then show ?thesis using only [OF Some] j(1) by blast
      qed (use j prior in simp)
    qed
    then have "path_rows (contents (nw_table w')) md = {?id}" by (auto simp: t2(2) path_rows_upd row)
    moreover have "contents (nw_table w') k = contents ?t k"
      if "k \<notin> insert ?id (path_rows (contents ?t) md)" for k
      using that by (auto simp: t2(2) t1(2) path_rows_def split: option.splits)
    ultimately show ?thesis using t2 out by (simp add: row)
  qed
  then show "path_rows (contents (nw_table w')) md = {?id}"
    "map_option l_sha (contents (nw_table w') ?id) = Some (skill_digest env f)"
    "k \<notin> insert ?id (path_rows (contents ?t) md) \<Longrightarrow> contents (nw_table w') k = contents ?t k"
    "ho_upserted out + ho_skipped out = 1" "invar (nw_table w')" by auto
qed

end


interpretation skill_list: skill_table list_ops list_contents list_invar
  by (rule skill_table.intro) (rule list_table.lance_table_axioms)

section \<open>A skill and two profiles\<close>

definition demo_named :: "('c, 'c lance_row list) lance_ops \<Rightarrow> (unit, 'c, 'c lance_row list) named_env" where
  "demo_named ops = \<lparr>ne_digest = (\<lambda>s. s), ne_str_float = (\<lambda>_. ''0.0''), ne_tokenize = (\<lambda>s. [s]),
     ne_embed = (\<lambda>_. Inr None), ne_ops = ops\<rparr>"

definition demo_skill_path :: string where
  "demo_skill_path = ''default_app/default_project/agents/a1/skills/skill_x/SKILL.md''"

definition demo_skill :: "string \<Rightarrow> skill_file" where
  "demo_skill n = \<lparr>sk_agent_id = ''a1'', sk_name = n, sk_description = ''d'', sk_confidence = 0, sk_maturity = 0,
     sk_source_cases = [], sk_cluster = None, sk_body = ''b'', sk_references = None\<rparr>"

text \<open>The index as it is after the file named its skill \<open>old\<close>.\<close>

definition demo_skill_table :: "unit skill_cols lance_row list" where
  "demo_skill_table = [skill_row (demo_named list_ops) demo_skill_path (demo_skill ''old'') None]"

definition demo_skill_world :: "(skill_file, unit skill_cols lance_row list) named_world" where
  "demo_skill_world = \<lparr>nw_files = (\<lambda>_. Src_file (demo_skill ''new'')), nw_table = demo_skill_table\<rparr>"

lemma demo_named_ops [simp]: "ne_ops (demo_named ops) = ops"
  by (simp add: demo_named_def)

lemma demo_skill_run:
  "\<exists>out w'. skill_added_or_modified (demo_named list_ops) demo_skill_path demo_skill_world = (Inr out, w')"
proof -
  have "\<not> isl (fst (skill_added_or_modified (demo_named list_ops) demo_skill_path demo_skill_world))"
    by code_simp
  then show ?thesis by (metis prod.collapse sum.collapse(2))
qed

lemma demo_skill_contents:
  "list_contents demo_skill_table k = (if k = ''a1_old''
     then Some (skill_row (demo_named list_ops) demo_skill_path (demo_skill ''old'') None) else None)"
  by (auto simp: list_contents_def demo_skill_table_def row_at_Cons skill_row_def skill_id_def demo_skill_def Let_def)


definition demo_profile :: "string \<Rightarrow> string \<Rightarrow> profile_file" where
  "demo_profile u s = \<lparr>pf_user_id = u, pf_summary = s, pf_explicit_json = ''[]'', pf_implicit_json = ''[]'',
     pf_timestamp_ms = 0\<rparr>"

definition demo_profile_path :: "string \<Rightarrow> string" where
  "demo_profile_path proj = ''default_app/'' @ proj @ ''/users/u1/user.md''"

text \<open>
  Unlike the skill handler the profile handler does not look for rows a changed
  \<open>user_id\<close> left under the path: the row of the old id stays in the index.
\<close>

lemma profile_rename_keeps_old_row:
  "let row = profile_row (demo_named list_ops) (demo_profile_path ''p'') (demo_profile ''old'' ''s'');
       w = \<lparr>nw_files = (\<lambda>_. Src_file (demo_profile ''new'' ''s'')), nw_table = [row]\<rparr>;
       w' = snd (profile_added_or_modified (demo_named list_ops) (demo_profile_path ''p'') w)
   in map l_id (nw_table w') = [''old'', ''new'']"
  by code_simp

text \<open>
  A skill renamed to a name whose row already exists under another path keeps its old row:
  the sweep is skipped because the new id is found.
\<close>

lemma skill_rename_onto_taken_name_keeps_old_row:
  "let rows = [skill_row (demo_named list_ops) ''p1'' (demo_skill ''old'') None,
               skill_row (demo_named list_ops) ''p2'' (demo_skill ''new'') None];
       w = \<lparr>nw_files = (\<lambda>_. Src_file ((demo_skill ''new'')\<lparr>sk_body := ''changed''\<rparr>)), nw_table = rows\<rparr>;
       w' = snd (skill_added_or_modified (demo_named list_ops) ''p1'' w)
   in map (\<lambda>r. (l_id r, l_md_path r)) (nw_table w') = [(''a1_old'', ''p1''), (''a1_new'', ''p1'')]"
  by code_simp

end
