(* ===== verification/Memory_Get.thy ===== *)
theory Memory_Get
  imports Named_Handlers Search_Filters "HOL-Library.Multiset"
begin

text \<open>
  \<open>POST /api/v2/memory/get\<close>: the request and its validators (\<open>memory/get/dto.py\<close>), the
  paginated scalar query (\<open>LanceRepoBase.find_where_paginated\<close> of
  \<open>core/persistence/lancedb/repository.py\<close>) and \<open>GetManager\<close> (\<open>memory/get/manager.py\<close>).
  The vector store answers a \<open>where\<close> text with some of the matching rows, in an order of its
  own: it is a \<open>table_view\<close>, a parameter, whose documented behaviour the locale
  \<open>scalar_query\<close> states. Instants are compared as numbers; \<open>to_display_tz\<close> keeps the
  instant and is left out.
\<close>

section \<open>Requests\<close>

datatype get_memory_type = EPISODE | PROFILE | AGENT_CASE | AGENT_SKILL

record get_request =
  gr_user_id :: "string option"
  gr_agent_id :: "string option"
  gr_app_id :: string
  gr_project_id :: string
  gr_memory_type :: get_memory_type
  gr_page :: int
  gr_page_size :: int
  gr_sort_by :: string
  gr_descending :: bool
  gr_filters :: "filter_node option"

datatype get_error =
    Invalid_field string
  | User_xor_agent
  | Kind_not_of_owner
  | Bad_filter filter_error
  | Unknown_column string
  | Query_failed handler_exc

definition gr_owner_id :: "get_request \<Rightarrow> string" where
  "gr_owner_id q = (case gr_user_id q of
     Some u \<Rightarrow> if u \<noteq> [] then u else (case gr_agent_id q of Some a \<Rightarrow> a | None \<Rightarrow> [])
   | None \<Rightarrow> (case gr_agent_id q of Some a \<Rightarrow> a | None \<Rightarrow> []))"

definition gr_owner_type :: "get_request \<Rightarrow> string" where
  "gr_owner_type q = (if gr_user_id q \<noteq> None then ''user'' else ''agent'')"

text \<open>Field constraints first, then the two model validators in declaration order.\<close>

definition validate_request :: "get_request \<Rightarrow> get_error + get_request" where
  "validate_request q =
     (if gr_user_id q = Some [] then Inl (Invalid_field ''user_id'')
      else if gr_agent_id q = Some [] then Inl (Invalid_field ''agent_id'')
      else if gr_page q < 1 then Inl (Invalid_field ''page'')
      else if gr_page_size q < 1 \<or> 100 < gr_page_size q then Inl (Invalid_field ''page_size'')
      else if gr_sort_by q \<notin> {''timestamp'', ''updated_at''} then Inl (Invalid_field ''sort_by'')
      else if (gr_user_id q = None) = (gr_agent_id q = None) then Inl User_xor_agent
      else if gr_owner_type q = ''user'' \<and> gr_memory_type q \<notin> {EPISODE, PROFILE} then Inl Kind_not_of_owner
      else if gr_owner_type q = ''agent'' \<and> gr_memory_type q \<notin> {AGENT_CASE, AGENT_SKILL} then Inl Kind_not_of_owner
      else Inr q)"

section \<open>The paginated query\<close>

record 'r table_view =
  tv_query :: "string \<Rightarrow> nat \<Rightarrow> 'r list"
  tv_count :: "string \<Rightarrow> nat"
  tv_column :: "string \<Rightarrow> ('r \<Rightarrow> time) option"

definition max_fetch :: nat where
  "max_fetch = 20000"

text \<open>\<open>arrow_tbl.sort_by\<close> is a stable sort in either direction.\<close>

definition sort_rows :: "bool \<Rightarrow> ('r \<Rightarrow> time) \<Rightarrow> 'r list \<Rightarrow> 'r list" where
  "sort_rows descending col rows = sort_key (\<lambda>r. if descending then - col r else col r) rows"

definition find_where_paginated ::
  "'r table_view \<Rightarrow> string \<Rightarrow> string \<Rightarrow> bool \<Rightarrow> int \<Rightarrow> int \<Rightarrow> get_error + ('r list \<times> nat)" where
  "find_where_paginated tv w sort_by descending page page_size =
     (let n = tv_count tv w; rows = tv_query tv w max_fetch
      in case tv_column tv sort_by of
           None \<Rightarrow> Inl (Unknown_column sort_by)
         | Some col \<Rightarrow>
             let offset = nat ((page - 1) * page_size)
             in Inr (take (nat page_size) (drop offset (sort_rows descending col rows)), n))"

section \<open>Rows and items\<close>

record episode_cols =
  ec_session :: string
  ec_timestamp :: time
  ec_sender_ids :: "string list"
  ec_summary :: "string option"
  ec_subject :: "string option"
  ec_episode :: string

record case_cols =
  cc_session :: string
  cc_timestamp :: time
  cc_task_intent :: string
  cc_approach :: string
  cc_quality_score :: rat
  cc_key_insight :: "string option"

record get_episode_item =
  ge_id :: string
  ge_user_id :: string
  ge_app_id :: string
  ge_project_id :: string
  ge_session_id :: string
  ge_timestamp :: time
  ge_sender_ids :: "string list"
  ge_summary :: string
  ge_subject :: string
  ge_episode :: string
  ge_type :: string

record get_profile_item =
  gp_id :: string
  gp_user_id :: string
  gp_app_id :: string
  gp_project_id :: string
  gp_data :: "(string \<times> json) list"

record get_agent_case_item =
  gc_id :: string
  gc_agent_id :: string
  gc_app_id :: string
  gc_project_id :: string
  gc_session_id :: string
  gc_task_intent :: string
  gc_approach :: string
  gc_quality_score :: rat
  gc_key_insight :: "string option"
  gc_timestamp :: time

record get_agent_skill_item =
  gs_id :: string
  gs_agent_id :: string
  gs_app_id :: string
  gs_project_id :: string
  gs_name :: string
  gs_description :: string
  gs_content :: string
  gs_confidence :: rat
  gs_maturity :: rat
  gs_source_cases :: "string list"

definition shape_episode :: "episode_cols lance_row \<Rightarrow> get_episode_item" where
  "shape_episode r =
     \<lparr>ge_id = l_id r, ge_user_id = l_owner_id r, ge_app_id = l_app_id r, ge_project_id = l_project_id r,
      ge_session_id = ec_session (l_columns r), ge_timestamp = ec_timestamp (l_columns r),
      ge_sender_ids = ec_sender_ids (l_columns r),
      ge_summary = (case ec_summary (l_columns r) of None \<Rightarrow> [] | Some s \<Rightarrow> s),
      ge_subject = (case ec_subject (l_columns r) of None \<Rightarrow> [] | Some s \<Rightarrow> s),
      ge_episode = ec_episode (l_columns r), ge_type = ''Conversation''\<rparr>"

definition shape_agent_case :: "case_cols lance_row \<Rightarrow> get_agent_case_item" where
  "shape_agent_case r =
     \<lparr>gc_id = l_id r, gc_agent_id = l_owner_id r, gc_app_id = l_app_id r, gc_project_id = l_project_id r,
      gc_session_id = cc_session (l_columns r), gc_task_intent = cc_task_intent (l_columns r),
      gc_approach = cc_approach (l_columns r), gc_quality_score = cc_quality_score (l_columns r),
      gc_key_insight = cc_key_insight (l_columns r), gc_timestamp = cc_timestamp (l_columns r)\<rparr>"

definition shape_agent_skill :: "'v skill_cols lance_row \<Rightarrow> get_agent_skill_item" where
  "shape_agent_skill r =
     \<lparr>gs_id = l_id r, gs_agent_id = l_owner_id r, gs_app_id = l_app_id r, gs_project_id = l_project_id r,
      gs_name = sc_name (l_columns r), gs_description = sc_description (l_columns r),
      gs_content = sc_content (l_columns r), gs_confidence = sc_confidence (l_columns r),
      gs_maturity = sc_maturity (l_columns r), gs_source_cases = sc_source_cases (l_columns r)\<rparr>"

section \<open>The manager\<close>

record get_data =
  gd_episodes :: "get_episode_item list"
  gd_profiles :: "get_profile_item list"
  gd_agent_cases :: "get_agent_case_item list"
  gd_agent_skills :: "get_agent_skill_item list"
  gd_total_count :: nat
  gd_count :: nat

abbreviation no_data :: get_data where
  "no_data \<equiv> \<lparr>gd_episodes = [], gd_profiles = [], gd_agent_cases = [], gd_agent_skills = [],
               gd_total_count = 0, gd_count = 0\<rparr>"

record ('v, 't) get_env =
  gv_iso :: "int \<Rightarrow> string option"
  gv_json_loads :: "string \<Rightarrow> json option"
  gv_episode :: "episode_cols lance_row table_view"
  gv_case :: "case_cols lance_row table_view"
  gv_skill :: "'v skill_cols lance_row table_view"
  gv_profile_ops :: "(profile_cols, 't) lance_ops"
  gv_profile :: 't

definition load_json :: "(string \<Rightarrow> json option) \<Rightarrow> string \<Rightarrow> json" where
  "load_json loads txt =
     (if txt = [] then JList [] else case loads txt of None \<Rightarrow> JList [] | Some j \<Rightarrow> j)"

definition fetch_profile :: "('v, 't) get_env \<Rightarrow> string \<Rightarrow> get_error + get_profile_item list" where
  "fetch_profile env owner_id =
     (if owner_id = [] then Inr []
      else case get_by_id (gv_profile_ops env) owner_id (gv_profile env) of
             Inl e \<Rightarrow> Inl (Query_failed e)
           | Inr None \<Rightarrow> Inr []
           | Inr (Some r) \<Rightarrow> Inr
               [\<lparr>gp_id = l_id r, gp_user_id = l_owner_id r, gp_app_id = l_app_id r, gp_project_id = l_project_id r,
                 gp_data = [(''summary'', JStr (pc_summary (l_columns r))),
                   (''explicit_info'', load_json (gv_json_loads env) (pc_explicit_json (l_columns r))),
                   (''implicit_traits'', load_json (gv_json_loads env) (pc_implicit_json (l_columns r))),
                   (''profile_timestamp_ms'', JInt (pc_timestamp_ms (l_columns r)))]\<rparr>])"

definition get_memory :: "('v, 't) get_env \<Rightarrow> get_request \<Rightarrow> get_error + get_data" where
  "get_memory env q =
     (case compile_filters (gv_iso env) (gr_filters q) (gr_owner_id q) (gr_owner_type q) (gr_app_id q)
             (gr_project_id q) of
        Inl e \<Rightarrow> Inl (Bad_filter e)
      | Inr w \<Rightarrow>
          (case gr_memory_type q of
             EPISODE \<Rightarrow>
               (case find_where_paginated (gv_episode env) w (gr_sort_by q) (gr_descending q) (gr_page q)
                       (gr_page_size q) of
                  Inl e \<Rightarrow> Inl e
                | Inr (rows, n) \<Rightarrow> let items = map shape_episode rows
                    in Inr (no_data\<lparr>gd_episodes := items, gd_total_count := n, gd_count := length items\<rparr>))
           | PROFILE \<Rightarrow>
               (case fetch_profile env (gr_owner_id q) of
                  Inl e \<Rightarrow> Inl e
                | Inr profiles \<Rightarrow> Inr (no_data\<lparr>gd_profiles := profiles, gd_total_count := length profiles,
                    gd_count := length profiles\<rparr>))
           | AGENT_CASE \<Rightarrow>
               (case find_where_paginated (gv_case env) w (gr_sort_by q) (gr_descending q) (gr_page q)
                       (gr_page_size q) of
                  Inl e \<Rightarrow> Inl e
                | Inr (rows, n) \<Rightarrow> let items = map shape_agent_case rows
                    in Inr (no_data\<lparr>gd_agent_cases := items, gd_total_count := n, gd_count := length items\<rparr>))
           | AGENT_SKILL \<Rightarrow>
               (case find_where_paginated (gv_skill env) w ''updated_at'' (gr_descending q) (gr_page q)
                       (gr_page_size q) of
                  Inl e \<Rightarrow> Inl e
                | Inr (rows, n) \<Rightarrow> let items = map shape_agent_skill rows
                    in Inr (no_data\<lparr>gd_agent_skills := items, gd_total_count := n, gd_count := length items\<rparr>))))"

definition handle_get :: "('v, 't) get_env \<Rightarrow> get_request \<Rightarrow> get_error + get_data" where
  "handle_get env q = (case validate_request q of Inl e \<Rightarrow> Inl e | Inr q' \<Rightarrow> get_memory env q')"

section \<open>What the vector store promises of a scalar query\<close>

lemma sub_mset_size_eq: "A \<subseteq># B \<Longrightarrow> size A = size B \<Longrightarrow> A = B"
  by (metis mset_subset_size subset_mset.le_less less_irrefl)

text \<open>
  \<open>rows\<close> is what the table stores and \<open>matches\<close> the store's reading of a \<open>where\<close> text.
  \<open>query().where(w).limit(n)\<close> returns matching rows, each stored row at most once, as many
  as there are up to \<open>n\<close>, in no promised order; \<open>count_rows\<close> counts them all.
\<close>

locale scalar_query =
  fixes tv :: "'r table_view" and matches :: "string \<Rightarrow> 'r \<Rightarrow> bool" and rows :: "'r list"
  assumes query_sub: "mset (tv_query tv w n) \<subseteq># mset (filter (matches w) rows)"
    and query_size: "length (tv_query tv w n) = min n (length (filter (matches w) rows))"
    and count_rows: "tv_count tv w = length (filter (matches w) rows)"
begin

lemma query_matches: "r \<in> set (tv_query tv w n) \<Longrightarrow> matches w r \<and> r \<in> set rows"
  using mset_subset_eqD [OF query_sub, of r w n] by simp

lemma query_all:
  assumes "tv_count tv w \<le> n"
  shows "mset (tv_query tv w n) = mset (filter (matches w) rows)"
proof (rule sub_mset_size_eq [OF query_sub])
  have "length (tv_query tv w n) = length (filter (matches w) rows)"
    using query_size [of w n] assms unfolding count_rows by simp
  then show "size (mset (tv_query tv w n)) = size (mset (filter (matches w) rows))"
    unfolding size_mset .
qed

lemma page_rows:
  assumes "tv_column tv c = Some col" and "find_where_paginated tv w c d p ps = Inr (rs, n)"
  shows "n = tv_count tv w" and "length rs \<le> nat ps" and "\<And>r. r \<in> set rs \<Longrightarrow> matches w r"
proof -
  have rs: "rs = take (nat ps) (drop (nat ((p - 1) * ps)) (sort_rows d col (tv_query tv w max_fetch)))"
    and n: "n = tv_count tv w"
    using assms by (simp_all add: find_where_paginated_def Let_def)
  show "n = tv_count tv w" "length rs \<le> nat ps" using rs n by simp_all
  fix r assume "r \<in> set rs"
  then have "r \<in> set (tv_query tv w max_fetch)"
    unfolding rs by (auto dest!: in_set_takeD in_set_dropD simp: sort_rows_def)
  then show "matches w r" using query_matches by blast
qed

end

text \<open>The in-memory table with the given columns.\<close>

definition list_view ::
  "(string \<Rightarrow> ('r \<Rightarrow> time) option) \<Rightarrow> (string \<Rightarrow> 'r \<Rightarrow> bool) \<Rightarrow> 'r list \<Rightarrow> 'r table_view" where
  "list_view columns matches rows =
     \<lparr>tv_query = (\<lambda>w n. take n (filter (matches w) rows)),
      tv_count = (\<lambda>w. count_where (matches w) rows), tv_column = columns\<rparr>"

interpretation list_query: scalar_query "list_view columns matches rows" matches rows
  for columns :: "string \<Rightarrow> ('r \<Rightarrow> time) option" and matches rows
proof
  fix w n
  have "mset (take n (filter (matches w) rows)) + mset (drop n (filter (matches w) rows))
      = mset (filter (matches w) rows)"
    by (metis append_take_drop_id mset_append)
  then show "mset (tv_query (list_view columns matches rows) w n) \<subseteq># mset (filter (matches w) rows)"
    by (metis list_view_def table_view.select_convs(1) mset_subset_eq_add_left)
qed (simp_all add: list_view_def count_where_def min.commute)

section \<open>Pages\<close>

lemma concat_pages:
  "concat (map (\<lambda>p. take ps (drop ((p - 1) * ps) xs)) [1..<Suc m]) = take (m * ps) xs"
proof (induction m)
  case (Suc m)
  have "Suc m * ps = m * ps + ps" by simp
  with Suc show ?case by (simp add: take_add del: mult_Suc)
qed simp

lemma mset_sort_rows [simp]: "mset (sort_rows d col rows) = mset rows"
  by (simp add: sort_rows_def)

lemma length_sort_rows [simp]: "length (sort_rows d col rows) = length rows"
  by (metis mset_sort_rows size_mset)

lemma sorted_sort_rows: "sorted (map (\<lambda>r. if d then - col r else col r) (sort_rows d col rows))"
  by (simp add: sort_rows_def)

text \<open>
  C24: the pages of a listing, read in order against an unchanging table, are the
  consecutive pieces of one list sorted in the requested direction, without overlap or
  gap; it holds every matching row exactly once as long as they number at most
  \<open>max_fetch\<close>, and otherwise \<open>max_fetch\<close> of them, while the total that is reported with
  each page is the true number.
\<close>

theorem pages_cover_listing:
  assumes "scalar_query tv matches rows" and "tv_column tv c = Some col" and "0 < ps"
  shows "\<exists>xs. (\<forall>p > 0. find_where_paginated tv w c d (int p) (int ps)
                 = Inr (take ps (drop ((p - 1) * ps) xs), length (filter (matches w) rows)))
    \<and> (\<forall>m. concat (map (\<lambda>p. case find_where_paginated tv w c d (int p) (int ps) of Inr (rs, _) \<Rightarrow> rs)
                     [1..<Suc m]) = take (m * ps) xs)
    \<and> sorted (map (\<lambda>r. if d then - col r else col r) xs)
    \<and> mset xs \<subseteq># mset (filter (matches w) rows)
    \<and> length xs = min max_fetch (length (filter (matches w) rows))
    \<and> (length (filter (matches w) rows) \<le> max_fetch \<longrightarrow> mset xs = mset (filter (matches w) rows))"
proof -
  note laws = scalar_query.query_sub [OF assms(1)] scalar_query.query_size [OF assms(1)]
    scalar_query.query_all [OF assms(1)] scalar_query.count_rows [OF assms(1)]
  define xs where "xs = sort_rows d col (tv_query tv w max_fetch)"
  have page: "find_where_paginated tv w c d (int p) (int ps)
      = Inr (take ps (drop ((p - 1) * ps) xs), length (filter (matches w) rows))" if "0 < p" for p
  proof -
    have "nat ((int p - 1) * int ps) = (p - 1) * ps"
      using that by (metis One_nat_def Suc_leI int_ops(2) nat_int of_nat_diff of_nat_mult)
    then show ?thesis
      using assms(2) by (simp add: find_where_paginated_def xs_def laws(4))
  qed
  have "map (\<lambda>p. case find_where_paginated tv w c d (int p) (int ps) of Inr (rs, _) \<Rightarrow> rs) [1..<Suc m]
      = map (\<lambda>p. take ps (drop ((p - 1) * ps) xs)) [1..<Suc m]" for m
    by (intro map_cong refl) (auto simp: page)
  then have pages: "concat (map (\<lambda>p. case find_where_paginated tv w c d (int p) (int ps) of Inr (rs, _) \<Rightarrow> rs)
      [1..<Suc m]) = take (m * ps) xs" for m
    by (simp only: concat_pages)
  have "mset xs = mset (tv_query tv w max_fetch)" and "length xs = length (tv_query tv w max_fetch)"
    and "sorted (map (\<lambda>r. if d then - col r else col r) xs)"
    by (simp_all only: xs_def mset_sort_rows length_sort_rows sorted_sort_rows)
  then show ?thesis
    using page pages laws(1,2) [of w max_fetch] laws(3) [of w max_fetch, unfolded laws(4)]
    by (intro exI [of _ xs] conjI allI impI) simp_all
qed

definition demo_instants :: "int table_view" where
  "demo_instants = list_view (\<lambda>c. if c = ''timestamp'' then Some (\<lambda>x. x) else None) (\<lambda>_ _. True) [1, 3, 2]"

theorem pages_cover_listing_witness:
  "\<exists>xs. mset xs = mset [1, 3, 2::int]
    \<and> find_where_paginated demo_instants ''x'' ''timestamp'' True 2 2 = Inr (take 2 (drop 2 xs), 3)"
proof -
  have q: "scalar_query demo_instants (\<lambda>_ _. True) [1, 3, 2]"
    unfolding demo_instants_def by (rule list_query.scalar_query_axioms)
  have col: "tv_column demo_instants ''timestamp'' = Some (\<lambda>x. x)"
    by (simp add: demo_instants_def list_view_def)
  from pages_cover_listing [OF q col, of 2 "''x''" True] obtain xs where
    page: "\<And>p. 0 < p \<Longrightarrow> find_where_paginated demo_instants ''x'' ''timestamp'' True (int p) (int 2)
       = Inr (take 2 (drop ((p - 1) * 2) xs), length (filter (\<lambda>_. True) [1, 3, 2 :: int]))"
    and xs: "mset xs = mset (filter (\<lambda>_. True) [1, 3, 2])"
    by (auto simp: max_fetch_def)
  show ?thesis using page [of 2] xs by (intro exI [of _ xs]) simp
qed

section \<open>A listing stays in its space\<close>

text \<open>
  How the store reads a conjunction of comparisons: a row matches only if it has the pinned
  values, and no deprecation mark where the text asks for none.
\<close>

definition pins_respected :: "(string \<Rightarrow> 'c lance_row \<Rightarrow> bool) \<Rightarrow> bool" where
  "pins_respected matches \<longleftrightarrow> (\<forall>w r oid ot app proj atoms.
     read_pins pin_columns w = Some [oid, ot, app, proj] \<and> set atoms \<subseteq> atom_texts
     \<and> erase 0 False w = Some (join '' AND '' (pin_atoms ot @ atoms)) \<and> matches w r
     \<longrightarrow> (l_owner_id r, l_owner_type r, l_app_id r, l_project_id r) = (oid, ot, app, proj)
         \<and> (ot = ''user'' \<longrightarrow> l_deprecated_by r = None))"

definition store_promises :: "'c lance_row table_view \<Rightarrow> bool" where
  "store_promises tv \<longleftrightarrow> (\<exists>matches rows. scalar_query tv matches rows \<and> pins_respected matches)"

definition row_space :: "'c lance_row \<Rightarrow> string \<times> string \<times> string" where
  "row_space r = (l_owner_id r, l_app_id r, l_project_id r)"

text \<open>The owner, app and project of every listed item but a profile.\<close>

definition item_spaces :: "get_data \<Rightarrow> (string \<times> string \<times> string) list" where
  "item_spaces d = map (\<lambda>x. (ge_user_id x, ge_app_id x, ge_project_id x)) (gd_episodes d)
     @ map (\<lambda>x. (gc_agent_id x, gc_app_id x, gc_project_id x)) (gd_agent_cases d)
     @ map (\<lambda>x. (gs_agent_id x, gs_app_id x, gs_project_id x)) (gd_agent_skills d)"

definition kinds_present :: "get_data \<Rightarrow> get_memory_type set" where
  "kinds_present d = (if gd_episodes d \<noteq> [] then {EPISODE} else {})
     \<union> (if gd_profiles d \<noteq> [] then {PROFILE} else {})
     \<union> (if gd_agent_cases d \<noteq> [] then {AGENT_CASE} else {})
     \<union> (if gd_agent_skills d \<noteq> [] then {AGENT_SKILL} else {})"

definition item_count :: "get_data \<Rightarrow> nat" where
  "item_count d = length (gd_episodes d) + length (gd_profiles d) + length (gd_agent_cases d)
     + length (gd_agent_skills d)"

lemma shaped_spaces [simp]:
  "(ge_user_id (shape_episode e), ge_app_id (shape_episode e), ge_project_id (shape_episode e)) = row_space e"
  "(gc_agent_id (shape_agent_case c), gc_app_id (shape_agent_case c), gc_project_id (shape_agent_case c)) = row_space c"
  "(gs_agent_id (shape_agent_skill s), gs_app_id (shape_agent_skill s), gs_project_id (shape_agent_skill s)) = row_space s"
  by (simp_all add: row_space_def shape_episode_def shape_agent_case_def shape_agent_skill_def)

lemma page_in_space:
  assumes "store_promises tv" and "quote_free isof" and "ot \<in> {''user'', ''agent''}"
    and "compile_filters isof node oid ot app proj = Inr w"
    and "find_where_paginated tv w c d p ps = Inr (rs, n)"
  shows "row_space ` set rs \<subseteq> {(oid, app, proj)}" and "length rs \<le> nat ps"
proof -
  obtain matches rows where q: "scalar_query tv matches rows" and pins: "pins_respected matches"
    using assms(1) by (auto simp: store_promises_def)
  obtain col where "tv_column tv c = Some col"
    using assms(5) by (auto simp: find_where_paginated_def Let_def split: option.splits)
  note page = scalar_query.page_rows [OF q this assms(5)]
  obtain atoms where "read_pins pin_columns w = Some [oid, ot, app, proj]" "set atoms \<subseteq> atom_texts"
    "erase 0 False w = Some (join '' AND '' (pin_atoms ot @ atoms))"
    using compiled_shape [OF assms(2-4)] by blast
  then show "row_space ` set rs \<subseteq> {(oid, app, proj)}"
    using page(3) pins unfolding pins_respected_def row_space_def by blast
  show "length rs \<le> nat ps" by (rule page(2))
qed

lemma validate_request_Inr:
  assumes "validate_request q = Inr q'"
  shows "q' = q" and "1 \<le> gr_page_size q" and "gr_owner_type q \<in> {''user'', ''agent''}"
    and "gr_owner_type q = ''user'' \<longleftrightarrow> gr_memory_type q \<in> {EPISODE, PROFILE}"
    and "gr_owner_type q = ''agent'' \<longleftrightarrow> gr_memory_type q \<in> {AGENT_CASE, AGENT_SKILL}"
    and "gr_owner_id q \<noteq> []"
  using assms
  by (cases "gr_memory_type q"; auto simp: validate_request_def gr_owner_type_def gr_owner_id_def
      split: if_splits option.splits)+

lemma fetch_profile_length: "fetch_profile env i = Inr ps \<Longrightarrow> length ps \<le> 1"
  by (auto simp: fetch_profile_def split: if_splits sum.splits option.splits)


section \<open>Two spaces of one user\<close>

definition demo_matches :: "string \<Rightarrow> 'c lance_row \<Rightarrow> bool" where
  "demo_matches w r \<longleftrightarrow>
     read_pins pin_columns w = Some [l_owner_id r, l_owner_type r, l_app_id r, l_project_id r]
     \<and> l_deprecated_by r = None"

lemma demo_matches_respects: "pins_respected demo_matches"
  by (auto simp: pins_respected_def demo_matches_def)

definition demo_row :: "string \<Rightarrow> episode_cols lance_row" where
  "demo_row proj = \<lparr>l_id = ''u1_e'' @ proj, l_entry_id = ''e'' @ proj, l_owner_id = ''u1'', l_owner_type = ''user'',
     l_app_id = ''default'', l_project_id = proj, l_md_path = proj, l_sha = [], l_deprecated_by = None,
     l_columns = \<lparr>ec_session = ''s'', ec_timestamp = 5, ec_sender_ids = [], ec_summary = None,
       ec_subject = None, ec_episode = ''text''\<rparr>\<rparr>"

definition demo_view :: "'c lance_row list \<Rightarrow> 'c lance_row table_view" where
  "demo_view rows = list_view (\<lambda>c. Some (\<lambda>_. 0)) demo_matches rows"

lemma demo_view_promises: "store_promises (demo_view rows)"
  unfolding store_promises_def demo_view_def
  by (intro exI conjI) (rule list_query.scalar_query_axioms, rule demo_matches_respects)

definition demo_get_env :: "profile_cols lance_row list \<Rightarrow> (unit, profile_cols lance_row list) get_env" where
  "demo_get_env profiles = \<lparr>gv_iso = (\<lambda>_. None), gv_json_loads = (\<lambda>_. None),
     gv_episode = demo_view [demo_row ''p'', demo_row ''q''], gv_case = demo_view [], gv_skill = demo_view [],
     gv_profile_ops = list_ops, gv_profile = profiles\<rparr>"

definition demo_request :: "get_memory_type \<Rightarrow> get_request" where
  "demo_request k = \<lparr>gr_user_id = Some ''u1'', gr_agent_id = None, gr_app_id = ''default'', gr_project_id = ''p'',
     gr_memory_type = k, gr_page = 1, gr_page_size = 20, gr_sort_by = ''timestamp'', gr_descending = True,
     gr_filters = None\<rparr>"



end
