(* ===== verification/Memorize.thy ===== *)
theory Memorize
  imports Prelude "HOL-Library.Multiset" "HOL-Library.Product_Lexorder" "HOL-Library.List_Lexorder" "HOL-Library.Char_ord"
begin

text \<open>
  Adding messages to memory: normalising a request
  (\<open>memory/extract/ingest/service.py\<close>, \<open>id_gen.py\<close>, \<open>multimodal.py\<close>), the boundary stage
  that keeps messages in the session's buffer until they are cut into cells
  (\<open>service/_boundary.py\<close> with the repos \<open>unprocessed_buffer\<close>, \<open>memcell\<close> and
  \<open>conversation_status\<close>), the user and agent pipelines
  (\<open>memory/extract/pipeline/\<close>) and \<open>_memorize_locked\<close> of \<open>service/memorize.py\<close>.

  A call runs under the lock of its session (\<open>service/_session_lock.py\<close>), so a sequence of
  calls is a sequence of these steps.  The boundary detector and the episode extractor of
  the \<open>everalgo\<close> package, the parsing of attachments, time zone conversion, uuids and the
  success of a database commit, an emit and a file append are parameters.  The n-th use of
  a parameter that may answer differently each time is its value at \<open>n\<close>.
\<close>

section \<open>Actions\<close>

datatype mem_error =
    Value_error
  | Index_error
  | Db_error
  | Integrity_error
  | Parse_error
  | Detector_error
  | Extract_error
  | Emit_error
  | Append_error

type_synonym ('a, 's) act = "'s \<Rightarrow> (mem_error + 'a) \<times> 's"

section \<open>Messages\<close>

datatype role = Role_user | Role_assistant | Role_tool

record tool_call =
  tc_id :: string
  tc_name :: string
  tc_arguments :: string

record content_item =
  ci_type :: string
  ci_text :: "string option"
  ci_name :: "string option"
  ci_parsed :: "string option"

record canonical_message =
  m_id :: string
  m_session :: string
  m_sender :: string
  m_sender_name :: "string option"
  m_role :: role
  m_timestamp :: time
  m_content :: "content_item list"
  m_text :: string
  m_tool_calls :: "tool_call list option"
  m_tool_call_id :: "string option"

definition has_tool_calls :: "canonical_message \<Rightarrow> bool" where
  "has_tool_calls m \<longleftrightarrow> (case m_tool_calls m of None \<Rightarrow> False | Some ts \<Rightarrow> ts \<noteq> [])"

definition has_tool_call_id :: "canonical_message \<Rightarrow> bool" where
  "has_tool_call_id m \<longleftrightarrow> (case m_tool_call_id m of None \<Rightarrow> False | Some i \<Rightarrow> i \<noteq> [])"

subsection \<open>Ingest\<close>

record raw_message =
  rm_sender :: string
  rm_sender_name :: "string option"
  rm_role :: role
  rm_timestamp :: nat
  rm_content :: "content_item list"
  rm_tool_calls :: "tool_call list option"
  rm_tool_call_id :: "string option"

record payload =
  pl_session :: string
  pl_app :: "string option"
  pl_project :: "string option"
  pl_messages :: "raw_message list"

record ingest_result =
  in_session :: string
  in_app :: string
  in_project :: string
  in_messages :: "canonical_message list"

definition gen_message_id :: "string \<Rightarrow> nat \<Rightarrow> nat \<Rightarrow> string" where
  "gen_message_id session ts idx =
     ''m_'' @ session @ ''_'' @ dec ts @ ''_'' @ zero_pad 3 (dec idx)"

definition upper_char :: "char \<Rightarrow> char" where
  "upper_char c = (let n = (of_char c :: nat) in if 97 \<le> n \<and> n \<le> 122 then char_of (n - 32) else c)"

definition render_item :: "content_item \<Rightarrow> string option" where
  "render_item i =
     (if ci_type i = ''text''
      then (case ci_text i of None \<Rightarrow> None | Some t \<Rightarrow> if t = [] then None else Some t)
      else (case ci_parsed i of
              None \<Rightarrow> None
            | Some p \<Rightarrow>
                if p = [] then None
                else let k = map upper_char (if ci_type i = [] then ''file'' else ci_type i);
                         n = (case ci_name i of None \<Rightarrow> [] | Some n \<Rightarrow> n);
                         tag = (if n \<noteq> [] then ''['' @ k @ '': '' @ n @ '']'' else ''['' @ k @ '']'')
                     in Some (tag @ [CHR 0x0A] @ p)))"

definition derive_text :: "content_item list \<Rightarrow> string" where
  "derive_text items = join [CHR 0x0A] (List.map_filter render_item items)"

definition or_default :: "string option \<Rightarrow> string" where
  "or_default x = (case x of None \<Rightarrow> ''default'' | Some a \<Rightarrow> if a = [] then ''default'' else a)"

text \<open>
  \<open>parse\<close> is \<open>enrich_content_items\<close>, which fills in the parsed content of attachments or
  raises; a message that needs no parsing comes back as it is.
\<close>

fun ingest_messages ::
  "(content_item list \<Rightarrow> content_item list option) \<Rightarrow> (nat \<Rightarrow> time) \<Rightarrow> string \<Rightarrow> nat \<Rightarrow> raw_message list
   \<Rightarrow> canonical_message list option" where
  "ingest_messages parse from_ms session idx [] = Some []"
| "ingest_messages parse from_ms session idx (r # rs) =
     (case parse (rm_content r) of
        None \<Rightarrow> None
      | Some items \<Rightarrow>
          map_option ((#)
            \<lparr>m_id = gen_message_id session (rm_timestamp r) idx, m_session = session,
             m_sender = rm_sender r, m_sender_name = rm_sender_name r, m_role = rm_role r,
             m_timestamp = from_ms (rm_timestamp r), m_content = items, m_text = derive_text items,
             m_tool_calls = (if rm_tool_calls r = Some [] then None else rm_tool_calls r),
             m_tool_call_id = rm_tool_call_id r\<rparr>)
            (ingest_messages parse from_ms session (Suc idx) rs))"

definition ingest ::
  "(content_item list \<Rightarrow> content_item list option) \<Rightarrow> (nat \<Rightarrow> time) \<Rightarrow> payload \<Rightarrow> ingest_result option" where
  "ingest parse from_ms p = map_option
     (\<lambda>ms. \<lparr>in_session = pl_session p, in_app = or_default (pl_app p),
            in_project = or_default (pl_project p), in_messages = ms\<rparr>)
     (ingest_messages parse from_ms (pl_session p) 0 (pl_messages p))"

section \<open>Tables\<close>

record buffer_row =
  bu_app :: string
  bu_project :: string
  bu_track :: string
  bu_message :: canonical_message

record memcell_row =
  mc_id :: string
  mc_app :: string
  mc_project :: string
  mc_session :: string
  mc_track :: string
  mc_raw_type :: string
  mc_message_ids :: "string list"
  mc_sender_ids :: "string list"
  mc_timestamp :: time

record status_row =
  cs_app :: string
  cs_project :: string
  cs_session :: string
  cs_track :: string
  last_message_ts :: "time option"
  last_memcell_ts :: "time option"

text \<open>What the pipelines leave behind: emitted events and appended episodes, in order.\<close>

datatype effect =
    User_pipeline_started string
  | Agent_pipeline_started string
  | Episode_written string string "string list"
  | Episode_extracted string string

record memory_state =
  ms_buffer :: "buffer_row list"
  ms_memcells :: "memcell_row list"
  ms_status :: "status_row list"
  ms_effects :: "effect list"
  ms_draws :: nat

type_synonym space = "string \<times> string \<times> string"  \<comment> \<open>app, project, session\<close>

definition TRACK :: string where "TRACK = ''memorize''"

definition in_slice :: "space \<Rightarrow> buffer_row \<Rightarrow> bool" where
  "in_slice sp b \<longleftrightarrow> (bu_app b, bu_project b, m_session (bu_message b)) = sp \<and> bu_track b = TRACK"

definition list_for_track :: "space \<Rightarrow> buffer_row list \<Rightarrow> buffer_row list" where
  "list_for_track sp t = sort_key (\<lambda>b. m_timestamp (bu_message b)) (filter (in_slice sp) t)"

definition buffer_key :: "buffer_row \<Rightarrow> string \<times> string \<times> string" where
  "buffer_key b = (m_id (bu_message b), bu_app b, bu_project b)"

text \<open>Delete and insert in one transaction; a primary key that is taken rolls it back.\<close>

definition replace_rows :: "space \<Rightarrow> buffer_row list \<Rightarrow> buffer_row list \<Rightarrow> buffer_row list option" where
  "replace_rows sp rows t =
     (let t' = delete_where (in_slice sp) t @ rows
      in if distinct (map buffer_key t') then Some t' else None)"

definition insert_many :: "memcell_row list \<Rightarrow> memcell_row list \<Rightarrow> memcell_row list option" where
  "insert_many rows t = (if distinct (map mc_id (t @ rows)) then Some (t @ rows) else None)"

abbreviation status_key :: "status_row \<Rightarrow> string \<times> string \<times> string \<times> string" where
  "status_key r \<equiv> (cs_app r, cs_project r, cs_session r, cs_track r)"

definition status_upsert :: "space \<Rightarrow> time option \<Rightarrow> time option \<Rightarrow> status_row list \<Rightarrow> status_row list" where
  "status_upsert sp msg cell t =
     (case sp of (app, proj, session) \<Rightarrow>
        upsert_row status_key
          \<lparr>cs_app = app, cs_project = proj, cs_session = session, cs_track = TRACK,
           last_message_ts = msg, last_memcell_ts = cell\<rparr>
          (\<lambda>r. r\<lparr>last_message_ts := (if msg = None then last_message_ts r else msg),
                last_memcell_ts := (if cell = None then last_memcell_ts r else cell)\<rparr>) t)"

section \<open>The boundary stage\<close>

datatype item =
    Chat_message (it_id: string) (it_role: role) (it_sender: string) (it_text: string) (it_ms: int)
  | Tool_call_request (it_calls: "tool_call list") (it_content: "string option") (it_sender: string) (it_ms: int)
  | Tool_call_result (it_call_id: string) (it_result: string) (it_ms: int)

record cell =
  cl_items :: "item list"
  cl_timestamp :: nat

datatype detection = Detect_value_error | Detect_other_error | Detected "cell list" "item list"

datatype mode = Chat | Agent

record memory_env =
  me_mode :: mode
  me_llm :: bool
  me_parse :: "content_item list \<Rightarrow> content_item list option"
  me_from_ms :: "nat \<Rightarrow> time"
  me_to_ms :: "time \<Rightarrow> int"
  me_detect :: "nat \<Rightarrow> bool \<Rightarrow> item list \<Rightarrow> detection"
  me_extract :: "nat \<Rightarrow> cell \<Rightarrow> bool option"  \<comment> \<open>\<open>Some True\<close> extracted, \<open>Some False\<close> an error that is retried\<close>
  me_uuid :: "nat \<Rightarrow> string"
  me_ok :: "nat \<Rightarrow> bool"

type_synonym 'a step = "('a, memory_state) act"

definition tick :: "memory_state \<Rightarrow> memory_state" where
  "tick s = s\<lparr>ms_draws := Suc (ms_draws s)\<rparr>"

text \<open>One answer of a parameter, and a transaction that may fail to commit.\<close>

definition draw :: "(nat \<Rightarrow> 'a) \<Rightarrow> 'a step" where
  "draw f s = (Inr (f (ms_draws s)), tick s)"

definition commit :: "memory_env \<Rightarrow> (memory_state \<Rightarrow> memory_state option) \<Rightarrow> unit step" where
  "commit e upd s =
     (if me_ok e (ms_draws s)
      then (case upd (tick s) of None \<Rightarrow> (Inl Integrity_error, tick s) | Some s' \<Rightarrow> (Inr (), s'))
      else (Inl Db_error, tick s))"

record boundary_outcome =
  bo_cells :: "cell list"
  bo_memcell_ids :: "string list"
  bo_message_ids :: "string list list"
  bo_senders :: "string list list"
  bo_extracted :: bool
  bo_message_count :: nat

definition empty_outcome :: "nat \<Rightarrow> boundary_outcome" where
  "empty_outcome n = \<lparr>bo_cells = [], bo_memcell_ids = [], bo_message_ids = [], bo_senders = [],
     bo_extracted = False, bo_message_count = n\<rparr>"

definition filter_for_mode :: "mode \<Rightarrow> canonical_message list \<Rightarrow> canonical_message list" where
  "filter_for_mode md ms =
     (case md of
        Chat \<Rightarrow> filter (\<lambda>m. m_role m \<in> {Role_user, Role_assistant} \<and> \<not> has_tool_calls m) ms
      | Agent \<Rightarrow> ms)"

text \<open>\<open>seen\<close> is a dict from the id; of buffered rows with one id the last one counts.\<close>

definition merge_dedupe_sort ::
  "canonical_message list \<Rightarrow> canonical_message list \<Rightarrow> canonical_message list" where
  "merge_dedupe_sort buffered new =
     (let seen = fold (\<lambda>m t. upsert_row m_id m (\<lambda>_. m) t) buffered [];
          all = fold (\<lambda>m t. upsert_row m_id m (\<lambda>x. x) t) new seen
      in sort_key (\<lambda>m. (m_timestamp m, m_id m)) all)"

definition slice_tail :: "'m list \<Rightarrow> 'i list \<Rightarrow> 'm list" where
  "slice_tail merged tail = (if tail = [] then [] else drop (length merged - length tail) merged)"

text \<open>\<open>merged[ptr + i]\<close> past the end raises \<open>IndexError\<close>: \<open>None\<close>.\<close>

fun split_messages_per_cell :: "canonical_message list \<Rightarrow> cell list \<Rightarrow> string list list option" where
  "split_messages_per_cell merged [] = Some []"
| "split_messages_per_cell merged (c # cs) =
     (let n = length (cl_items c)
      in if length merged < n then None
         else map_option ((#) (map m_id (take n merged))) (split_messages_per_cell (drop n merged) cs))"

fun item_sender :: "item \<Rightarrow> string option" where
  "item_sender (Tool_call_result _ _ _) = None"
| "item_sender i = (if it_sender i = [] then None else Some (it_sender i))"

definition first_occurrences :: "'a list \<Rightarrow> 'a list" where
  "first_occurrences xs = fold (\<lambda>x seen. if x \<in> set seen then seen else seen @ [x]) xs []"

definition unique_all_senders :: "cell \<Rightarrow> string list" where
  "unique_all_senders c = first_occurrences (List.map_filter item_sender (cl_items c))"

definition unique_user_senders :: "cell \<Rightarrow> string list" where
  "unique_user_senders c = first_occurrences (List.map_filter item_sender
     (filter (\<lambda>i. case i of Chat_message _ r _ _ _ \<Rightarrow> r = Role_user | _ \<Rightarrow> False) (cl_items c)))"

definition to_chat_message :: "memory_env \<Rightarrow> canonical_message \<Rightarrow> item" where
  "to_chat_message e m = Chat_message (m_id m) (m_role m) (m_sender m) (m_text m) (me_to_ms e (m_timestamp m))"

text \<open>\<open>None\<close> is the \<open>ValueError\<close> for a row no item stands for.\<close>

definition to_conversation_item :: "memory_env \<Rightarrow> canonical_message \<Rightarrow> item option" where
  "to_conversation_item e m =
     (let ms = me_to_ms e (m_timestamp m)
      in if m_role m = Role_tool \<and> has_tool_call_id m
         then Some (Tool_call_result (case m_tool_call_id m of Some i \<Rightarrow> i | None \<Rightarrow> []) (m_text m) ms)
         else if m_role m = Role_assistant \<and> has_tool_calls m
         then Some (Tool_call_request (case m_tool_calls m of Some ts \<Rightarrow> ts | None \<Rightarrow> [])
                     (if m_text m = [] then None else Some (m_text m)) (m_sender m) ms)
         else if m_role m \<in> {Role_user, Role_assistant} then Some (to_chat_message e m)
         else None)"

definition to_items :: "memory_env \<Rightarrow> canonical_message list \<Rightarrow> item list option" where
  "to_items e merged =
     (case me_mode e of
        Chat \<Rightarrow> Some (map (to_chat_message e) merged)
      | Agent \<Rightarrow> if list_all (\<lambda>m. to_conversation_item e m \<noteq> None) merged
                 then Some (map (\<lambda>m. the (to_conversation_item e m)) merged) else None)"

definition BOUNDARY_MAX_ATTEMPTS :: nat where "BOUNDARY_MAX_ATTEMPTS = 3"

primrec detect :: "memory_env \<Rightarrow> bool \<Rightarrow> canonical_message list \<Rightarrow> nat \<Rightarrow> (cell list \<times> item list) step" where
  "detect e final merged 0 = raise Value_error"
| "detect e final merged (Suc left) =
     bindM (case to_items e merged of
              None \<Rightarrow> ret Detect_value_error
            | Some items \<Rightarrow> draw (\<lambda>n. me_detect e n final items))
       (\<lambda>d. case d of
          Detected cells rest \<Rightarrow> ret (cells, rest)
        | Detect_other_error \<Rightarrow> raise Detector_error
        | Detect_value_error \<Rightarrow> detect e final merged left)"

definition canonical_to_row :: "string \<Rightarrow> string \<Rightarrow> canonical_message \<Rightarrow> buffer_row" where
  "canonical_to_row app proj m =
     \<lparr>bu_app = app, bu_project = proj, bu_track = TRACK,
      bu_message = m\<lparr>m_tool_calls := (if has_tool_calls m then m_tool_calls m else None)\<rparr>\<rparr>"

definition replace_buffer :: "memory_env \<Rightarrow> space \<Rightarrow> canonical_message list \<Rightarrow> unit step" where
  "replace_buffer e sp ms =
     commit e (\<lambda>s. map_option (\<lambda>t. s\<lparr>ms_buffer := t\<rparr>)
       (replace_rows sp (map (canonical_to_row (fst sp) (fst (snd sp))) ms) (ms_buffer s)))"

definition touch_last_message_ts :: "memory_env \<Rightarrow> space \<Rightarrow> canonical_message list \<Rightarrow> unit step" where
  "touch_last_message_ts e sp ms =
     commit e (\<lambda>s. Some (s\<lparr>ms_status := status_upsert sp (Some (Max (set (map m_timestamp ms)))) None (ms_status s)\<rparr>))"

definition touch_last_memcell_ts :: "memory_env \<Rightarrow> space \<Rightarrow> time \<Rightarrow> unit step" where
  "touch_last_memcell_ts e sp ts =
     commit e (\<lambda>s. Some (s\<lparr>ms_status := status_upsert sp None (Some ts) (ms_status s)\<rparr>))"

definition load_buffer :: "memory_env \<Rightarrow> space \<Rightarrow> canonical_message list step" where
  "load_buffer e sp s =
     (if me_ok e (ms_draws s)
      then (Inr (map bu_message (list_for_track sp (ms_buffer s))), tick s) else (Inl Db_error, tick s))"

definition in_space :: "ingest_result \<Rightarrow> space" where
  "in_space g = (in_app g, in_project g, in_session g)"

definition park :: "memory_env \<Rightarrow> space \<Rightarrow> canonical_message list \<Rightarrow> nat \<Rightarrow> boundary_outcome step" where
  "park e sp merged n =
     bindM (replace_buffer e sp merged) (\<lambda>_.
     bindM (touch_last_message_ts e sp merged) (\<lambda>_.
     ret (empty_outcome n)))"

definition buffer_messages :: "memory_env \<Rightarrow> ingest_result \<Rightarrow> boundary_outcome step" where
  "buffer_messages e g =
     (let fresh = filter_for_mode (me_mode e) (in_messages g); sp = in_space g
      in if fresh = [] then ret (empty_outcome 0)
         else bindM (load_buffer e sp) (\<lambda>buffered.
              park e sp (merge_dedupe_sort buffered fresh) (length fresh)))"

definition memcell_rows ::
  "memory_env \<Rightarrow> ingest_result \<Rightarrow> (cell \<times> string \<times> string list) list \<Rightarrow> memcell_row list" where
  "memcell_rows e g xs = map (\<lambda>(c, i, mids).
     \<lparr>mc_id = i, mc_app = in_app g, mc_project = in_project g, mc_session = in_session g,
      mc_track = TRACK,
      mc_raw_type = (case me_mode e of Chat \<Rightarrow> ''Conversation'' | Agent \<Rightarrow> ''AgentTrajectory''),
      mc_message_ids = mids, mc_sender_ids = unique_all_senders c,
      mc_timestamp = me_from_ms e (cl_timestamp c)\<rparr>) xs"

primrec mint_ids :: "memory_env \<Rightarrow> nat \<Rightarrow> string list step" where
  "mint_ids e 0 = ret []"
| "mint_ids e (Suc n) = bindM (draw (\<lambda>k. ''mc_'' @ take 12 (me_uuid e k))) (\<lambda>i.
     bindM (mint_ids e n) (\<lambda>is. ret (i # is)))"

definition cut :: "memory_env \<Rightarrow> ingest_result \<Rightarrow> canonical_message list \<Rightarrow> nat
    \<Rightarrow> cell list \<Rightarrow> item list \<Rightarrow> boundary_outcome step" where
  "cut e g merged n cells rest =
     (let sp = in_space g
      in bindM (mint_ids e (length cells)) (\<lambda>mids.
         case split_messages_per_cell merged cells of
           None \<Rightarrow> raise Index_error
         | Some parts \<Rightarrow>
             bindM (commit e (\<lambda>s. map_option (\<lambda>t. s\<lparr>ms_memcells := t\<rparr>)
                 (insert_many (memcell_rows e g (zip cells (zip mids parts))) (ms_memcells s)))) (\<lambda>_.
             bindM (let last = Max (set (map cl_timestamp cells))
                    in if last \<noteq> 0 then touch_last_memcell_ts e sp (me_from_ms e last) else ret ()) (\<lambda>_.
             bindM (replace_buffer e sp (slice_tail merged rest)) (\<lambda>_.
             ret \<lparr>bo_cells = cells, bo_memcell_ids = mids, bo_message_ids = parts,
                  bo_senders = map unique_all_senders cells, bo_extracted = True, bo_message_count = n\<rparr>)))))"

definition prepare_cells :: "memory_env \<Rightarrow> bool \<Rightarrow> ingest_result \<Rightarrow> boundary_outcome step" where
  "prepare_cells e final g =
     (let fresh = filter_for_mode (me_mode e) (in_messages g); sp = in_space g
      in if fresh = [] \<and> \<not> final then ret (empty_outcome 0)
         else bindM (load_buffer e sp) (\<lambda>buffered.
           let merged = merge_dedupe_sort buffered fresh
           in if merged = [] then ret (empty_outcome 0)
              else if \<not> final \<and> \<not> list_ex (\<lambda>m. m_role m = Role_user) merged
              then park e sp merged (length fresh)
              else if \<not> me_llm e
              then bindM (replace_buffer e sp merged) (\<lambda>_. ret (empty_outcome (length fresh)))
              else bindM (detect e final merged BOUNDARY_MAX_ATTEMPTS) (\<lambda>(cells, rest).
                if cells = [] then park e sp merged (length fresh)
                else cut e g merged (length fresh) cells rest)))"

section \<open>Pipelines and the call\<close>

definition emit :: "memory_env \<Rightarrow> mem_error \<Rightarrow> effect \<Rightarrow> unit step" where
  "emit e err x s = (if me_ok e (ms_draws s) then (Inr (), (tick s)\<lparr>ms_effects := ms_effects s @ [x]\<rparr>)
                     else (Inl err, tick s))"

definition EXTRACT_MAX_RETRIES :: nat where "EXTRACT_MAX_RETRIES = 2"

text \<open>\<open>_EXTRACT_MAX_RETRIES\<close> retried attempts and a last one whose error is the caller's.\<close>

primrec extract_with_retry :: "memory_env \<Rightarrow> cell \<Rightarrow> nat \<Rightarrow> unit step" where
  "extract_with_retry e c 0 = bindM (draw (\<lambda>n. me_extract e n c))
     (\<lambda>r. if r = Some True then ret () else raise Extract_error)"
| "extract_with_retry e c (Suc left) = bindM (draw (\<lambda>n. me_extract e n c))
     (\<lambda>r. case r of
        Some True \<Rightarrow> ret ()
      | Some False \<Rightarrow> extract_with_retry e c left
      | None \<Rightarrow> raise Extract_error)"

definition user_pipeline :: "memory_env \<Rightarrow> boundary_outcome \<Rightarrow> unit step" where
  "user_pipeline e b =
     bindM (each (\<lambda>i. emit e Emit_error (User_pipeline_started i)) (bo_memcell_ids b)) (\<lambda>_.
     each (\<lambda>(c, i, senders).
       let users = unique_user_senders c
       in if users = [] then ret ()
          else bindM (extract_with_retry e c EXTRACT_MAX_RETRIES) (\<lambda>_.
            each (\<lambda>u. bindM (emit e Append_error (Episode_written i u senders)) (\<lambda>_.
                       emit e Emit_error (Episode_extracted i u))) users))
       (zip (bo_cells b) (zip (bo_memcell_ids b) (bo_senders b))))"

definition agent_pipeline :: "memory_env \<Rightarrow> boundary_outcome \<Rightarrow> unit step" where
  "agent_pipeline e b = each (\<lambda>i. emit e Emit_error (Agent_pipeline_started i)) (bo_memcell_ids b)"

text \<open>\<open>gather\<close> lets the other task go on when one raises; the first error is the result.\<close>

definition both :: "unit step \<Rightarrow> unit step \<Rightarrow> unit step" where
  "both f g s = (case f s of (r, s1) \<Rightarrow> (case g s1 of (r', s2) \<Rightarrow>
     ((case r of Inl x \<Rightarrow> Inl x | Inr _ \<Rightarrow> r'), s2)))"

datatype status = Accumulated | Extracted

definition memorize_locked ::
  "memory_env \<Rightarrow> bool \<Rightarrow> bool \<Rightarrow> payload \<Rightarrow> (nat \<times> status) step" where
  "memorize_locked e final defer p =
     (case ingest (me_parse e) (me_from_ms e) p of
        None \<Rightarrow> raise Parse_error
      | Some g \<Rightarrow>
          let n = length (pl_messages p)
          in if defer \<and> \<not> final
             then bindM (buffer_messages e g) (\<lambda>_. ret (n, Accumulated))
             else bindM (prepare_cells e final g) (\<lambda>b.
               if bo_cells b = [] then ret (n, Accumulated)
               else bindM (case me_mode e of
                      Agent \<Rightarrow> both (user_pipeline e b) (agent_pipeline e b)
                    | Chat \<Rightarrow> user_pipeline e b)
                 (\<lambda>_. ret (n, Extracted))))"

section \<open>Merging and cutting\<close>

lemma replace_row_eq:
  "upsert_row key r (\<lambda>_. r) t = upsert_row key r (\<lambda>x. if key x = key r then r else x) t"
  by (simp add: upsert_row_def update_where_def cong: if_cong)

lemma fold_upsert:
  assumes "\<And>m x. key (f m x) = key x \<or> key (f m x) = key m"
    and "\<And>m. upsert_row key m (f m) = upsert_row key m (\<lambda>x. if key x = key m then f m x else x)"
    and "distinct (map key t)"
  shows "distinct (map key (fold (\<lambda>m t. upsert_row key m (f m) t) ms t))
    \<and> key ` set (fold (\<lambda>m t. upsert_row key m (f m) t) ms t) = key ` set t \<union> key ` set ms"
  using assms(3)
proof (induction ms arbitrary: t)
  case (Cons m ms)
  let ?g = "\<lambda>x. if key x = key m then f m x else x"
  have key: "key (?g x) = key x" for x using assms(1) [of m x] by auto
  have "distinct (map key (upsert_row key m ?g t))"
    using distinct_upsert_row [of key ?g, OF key Cons.prems] by simp
  moreover have "key ` set (upsert_row key m ?g t) = insert (key m) (key ` set t)"
    using arg_cong [OF keys_upsert_row [of key ?g m t, OF key], of set] by auto
  ultimately show ?case using Cons.IH by (auto simp: assms(2))
qed simp

lemma fold_upsert_from:
  "(\<And>m x. f m x \<in> {m, x}) \<Longrightarrow> set (fold (\<lambda>m t. upsert_row key m (f m) t) ms t) \<subseteq> set t \<union> set ms"
proof (induction ms arbitrary: t)
  case (Cons m ms)
  have "set (upsert_row key m (f m) t) \<subseteq> insert m (set t)"
    using set_upsert_row [of key m "f m" t] Cons.prems by fastforce
  with Cons.IH [OF Cons.prems] show ?case by fastforce
qed simp

lemma merge_facts:
  fixes b n :: "canonical_message list"
  defines "M \<equiv> merge_dedupe_sort b n"
  shows "distinct (map m_id M)" and "m_id ` set M = m_id ` set b \<union> m_id ` set n"
    and "set M \<subseteq> set b \<union> set n"
proof -
  let ?seen = "fold (\<lambda>m t. upsert_row m_id m (\<lambda>_. m) t) b []"
  let ?all = "fold (\<lambda>m t. upsert_row m_id m (\<lambda>x. x) t) n ?seen"
  have eq: "upsert_row m_id m (\<lambda>_. m) = upsert_row m_id m (\<lambda>x. if m_id x = m_id m then m else x)" for m
    by (rule ext) (rule replace_row_eq)
  have seen: "distinct (map m_id ?seen) \<and> m_id ` set ?seen = m_id ` set b"
    using fold_upsert [of m_id "\<lambda>m _. m" "[]" b, OF _ eq] by simp
  have all: "distinct (map m_id ?all) \<and> m_id ` set ?all = m_id ` set ?seen \<union> m_id ` set n"
    using fold_upsert [of m_id "\<lambda>m x. x" ?seen n] seen by simp
  have M: "M = sort_key (\<lambda>m. (m_timestamp m, m_id m)) ?all"
    by (simp add: M_def merge_dedupe_sort_def)
  show "distinct (map m_id M)"
    using conjunct1 [OF all] unfolding M by (simp only: distinct_map distinct_sort set_sort)
  show "m_id ` set M = m_id ` set b \<union> m_id ` set n"
    using all seen by (simp add: M)
  have "set ?seen \<subseteq> set b" using fold_upsert_from [of "\<lambda>m _. m" m_id b "[]"] by simp
  moreover have "set ?all \<subseteq> set ?seen \<union> set n" using fold_upsert_from [of "\<lambda>m x. x" m_id n ?seen] by simp
  ultimately show "set M \<subseteq> set b \<union> set n" by (auto simp: M)
qed

text \<open>Cells and tail are consecutive pieces of what was handed to the detector.\<close>

lemma split_concat:
  assumes "length (concat (map cl_items cells)) \<le> length ms"
  shows "\<exists>parts. split_messages_per_cell ms cells = Some parts
    \<and> concat parts = map m_id (take (length (concat (map cl_items cells))) ms)
    \<and> map length parts = map (length \<circ> cl_items) cells"
  using assms
proof (induction cells arbitrary: ms)
  case (Cons c cs)
  let ?n = "length (cl_items c)"
  have "length (concat (map cl_items cs)) \<le> length (drop ?n ms)" using Cons.prems by simp
  from Cons.IH [OF this] obtain parts where p: "split_messages_per_cell (drop ?n ms) cs = Some parts"
    "concat parts = map m_id (take (length (concat (map cl_items cs))) (drop ?n ms))"
    "map length parts = map (length \<circ> cl_items) cs" by blast
  have "take (?n + k) ms = take ?n ms @ take k (drop ?n ms)" for k by (simp add: take_add)
  then show ?case using p Cons.prems by (simp add: Let_def min_def)
qed simp

lemma cut_pieces:
  assumes "concat (map cl_items cells) @ rest = items" and "length items = length ms"
  shows "\<exists>parts. split_messages_per_cell ms cells = Some parts \<and> length parts = length cells
    \<and> concat parts @ map m_id (slice_tail ms rest) = map m_id ms"
proof -
  let ?k = "length (concat (map cl_items cells))"
  have k: "?k \<le> length ms" "?k = length ms - length rest" "rest = [] \<longleftrightarrow> ?k = length ms"
    using assms by auto
  obtain parts where p: "split_messages_per_cell ms cells = Some parts" "concat parts = map m_id (take ?k ms)"
    "map length parts = map (length \<circ> cl_items) cells" using split_concat [OF k(1)] by blast
  have "slice_tail ms rest = drop ?k ms" using k by (simp add: slice_tail_def)
  then have "concat parts @ map m_id (slice_tail ms rest) = map m_id ms"
    by (simp add: p(2) flip: map_append)
  moreover have "length parts = length cells" using arg_cong [OF p(3), of length] by simp
  ultimately show ?thesis using p(1) by blast
qed

lemma to_items_length: "to_items e ms = Some items \<Longrightarrow> length items = length ms"
  by (auto simp: to_items_def split: mode.splits if_splits)

section \<open>What a step does to the tables\<close>

definition buffer_ids :: "memory_state \<Rightarrow> space \<Rightarrow> string list" where
  "buffer_ids s sp = map (m_id \<circ> bu_message) (filter (in_slice sp) (ms_buffer s))"

definition cell_space :: "memcell_row \<Rightarrow> space" where
  "cell_space r = (mc_app r, mc_project r, mc_session r)"

definition cell_ids :: "memory_state \<Rightarrow> space \<Rightarrow> string list" where
  "cell_ids s sp = concat (map mc_message_ids (filter (\<lambda>r. cell_space r = sp) (ms_memcells s)))"

definition untouched :: "memory_state \<Rightarrow> memory_state \<Rightarrow> bool" where
  "untouched s s' \<longleftrightarrow> ms_buffer s' = ms_buffer s \<and> ms_memcells s' = ms_memcells s"

definition swapped :: "space \<Rightarrow> canonical_message list \<Rightarrow> memory_state \<Rightarrow> memory_state \<Rightarrow> bool" where
  "swapped sp ms s s' \<longleftrightarrow> ms_memcells s' = ms_memcells s
    \<and> replace_rows sp (map (canonical_to_row (fst sp) (fst (snd sp))) ms) (ms_buffer s) = Some (ms_buffer s')"

definition filed :: "space \<Rightarrow> string list list \<Rightarrow> memory_state \<Rightarrow> memory_state \<Rightarrow> bool" where
  "filed sp parts s s' \<longleftrightarrow> ms_buffer s' = ms_buffer s
    \<and> (\<exists>rows. ms_memcells s' = ms_memcells s @ rows \<and> map mc_message_ids rows = parts
         \<and> cell_space ` set rows \<subseteq> {sp})"

lemma untouched_refl [simp]: "untouched s s"
  by (simp add: untouched_def)

lemma tick_tables [simp]: "ms_buffer (tick s) = ms_buffer s" "ms_memcells (tick s) = ms_memcells s"
  "ms_effects (tick s) = ms_effects s" "ms_status (tick s) = ms_status s"
  by (simp_all add: tick_def)

lemma bindM_cases:
  assumes "bindM m f s = (r, s')"
  obtains e where "m s = (Inl e, s')" "r = Inl e"
    | x s1 where "m s = (Inr x, s1)" "f x s1 = (r, s')"
  using assms by (auto simp: bindM_def split: prod.splits sum.splits)

lemma commit_cases:
  assumes "commit e upd s = (r, s')"
  obtains x where "r = Inl x" "s' = tick s" | "r = Inr ()" "upd (tick s) = Some s'"
  using assms by (auto simp: commit_def split: if_splits option.splits)

lemma replace_buffer_cases:
  assumes "replace_buffer e sp ms s = (r, s')"
  obtains x where "r = Inl x" "untouched s s'" | "r = Inr ()" "swapped sp ms s s'"
  using assms unfolding replace_buffer_def
  by (elim commit_cases) (auto simp: untouched_def swapped_def)

lemma touch_untouched:
  "touch_last_message_ts e sp ms s = (r, s') \<Longrightarrow> untouched s s'"
  "touch_last_memcell_ts e sp ts s = (r, s') \<Longrightarrow> untouched s s'"
  unfolding touch_last_message_ts_def touch_last_memcell_ts_def
  by (erule commit_cases; auto simp: untouched_def)+

lemma swapped_untouched [dest]: "swapped sp ms s s1 \<Longrightarrow> untouched s1 s2 \<Longrightarrow> swapped sp ms s s2"
  and untouched_swapped [dest]: "untouched s s1 \<Longrightarrow> swapped sp ms s1 s2 \<Longrightarrow> swapped sp ms s s2"
  and filed_untouched [dest]: "filed sp parts s s1 \<Longrightarrow> untouched s1 s2 \<Longrightarrow> filed sp parts s s2"
  and untouched_filed [dest]: "untouched s s1 \<Longrightarrow> filed sp parts s1 s2 \<Longrightarrow> filed sp parts s s2"
  and untouched_trans [dest]: "untouched s s1 \<Longrightarrow> untouched s1 s2 \<Longrightarrow> untouched s s2"
  by (auto simp: untouched_def swapped_def filed_def)

lemma park_cases:
  assumes "park e sp ms n s = (r, s')"
  obtains x where "r = Inl x" "untouched s s'" | "swapped sp ms s s'"
  using assms unfolding park_def
  by (elim bindM_cases replace_buffer_cases)
    (auto simp: ret_def dest!: touch_untouched elim: bindM_cases)

lemma mint_ids_untouched:
  "mint_ids e n s = (r, s') \<Longrightarrow> untouched s s' \<and> (\<exists>ids. r = Inr ids \<and> length ids = n)"
proof (induction n arbitrary: r s s')
  case (Suc n)
  from Suc.prems obtain i s1 where "mint_ids e n (tick s) = (r, s') \<or> True"
    and run: "bindM (mint_ids e n) (\<lambda>is. ret (i # is)) (tick s) = (r, s')"
    by (auto simp: draw_def bindM_def)
  from run obtain ids where "mint_ids e n (tick s) = (Inr ids, s')" "r = Inr (i # ids)"
    using Suc.IH by (auto simp: bindM_def ret_def split: prod.splits sum.splits)
  with Suc.IH show ?case by (fastforce simp: untouched_def)
qed (simp add: ret_def)

lemma rows_message_ids:
  assumes "length cells = length ids" and "length ids = length parts"
  shows "map mc_message_ids (memcell_rows e g (zip cells (zip ids parts))) = parts"
  using assms by (induction cells ids parts rule: list_induct3) (simp_all add: memcell_rows_def)

lemma filed_rows:
  assumes "insert_many (memcell_rows e g (zip cells (zip ids parts))) (ms_memcells s) = Some t"
    and "length ids = length cells" and "length parts = length cells"
  shows "filed (in_space g) parts s (s\<lparr>ms_memcells := t\<rparr>)"
proof -
  let ?rows = "memcell_rows e g (zip cells (zip ids parts))"
  have "map mc_message_ids ?rows = parts"
    using assms(2,3) by (intro rows_message_ids) simp_all
  moreover have "cell_space ` set ?rows \<subseteq> {in_space g}"
    by (auto simp: memcell_rows_def cell_space_def in_space_def)
  ultimately show ?thesis
    using assms(1) by (auto simp: filed_def insert_many_def split: if_splits)
qed

text \<open>The detector's contract: its cells and its tail are what it was given, in order.\<close>

definition detector_ok :: "memory_env \<Rightarrow> bool" where
  "detector_ok e \<longleftrightarrow> (\<forall>n final items cells rest.
     me_detect e n final items = Detected cells rest \<longrightarrow> concat (map cl_items cells) @ rest = items)"

lemma detect_cases:
  "detect e final ms k s = (r, s') \<Longrightarrow> detector_ok e \<Longrightarrow> untouched s s'
    \<and> (\<forall>cells rest. r = Inr (cells, rest) \<longrightarrow>
        (\<exists>items. concat (map cl_items cells) @ rest = items \<and> length items = length ms))"
proof (induction k arbitrary: s)
  case (Suc k)
  show ?case
  proof (cases "to_items e ms")
    case None
    then have "detect e final ms k s = (r, s')"
      using Suc.prems(1) by (simp add: bindM_def ret_def)
    then show ?thesis using Suc.IH Suc.prems(2) by blast
  next
    case (Some items)
    then have run: "(case me_detect e (ms_draws s) final items of
        Detected cells rest \<Rightarrow> (Inr (cells, rest), tick s)
      | Detect_other_error \<Rightarrow> (Inl Detector_error, tick s)
      | Detect_value_error \<Rightarrow> detect e final ms k (tick s)) = (r, s')"
      using Suc.prems(1) by (simp add: bindM_def draw_def ret_def raise_def split: detection.splits)
    show ?thesis
    proof (cases "me_detect e (ms_draws s) final items")
      case Detect_value_error
      then have "detect e final ms k (tick s) = (r, s')" using run by simp
      then show ?thesis using Suc.IH [of "tick s"] Suc.prems(2) by (simp add: untouched_def)
    next
      case Detect_other_error
      then show ?thesis using run by (auto simp: untouched_def)
    next
      case (Detected cells rest)
      then have "concat (map cl_items cells) @ rest = items"
        using Suc.prems(2) by (auto simp: detector_ok_def)
      then show ?thesis using run Detected to_items_length [OF Some] by (auto simp: untouched_def)
    qed
  qed
qed (auto simp: raise_def)

lemma cut_cases:
  assumes "cut e g ms n cells rest s = (r, s')"
    and "concat (map cl_items cells) @ rest = items" and "length items = length ms"
  obtains x where "r = Inl x" "untouched s s'"
    | parts x where "r = Inl x" "concat parts @ map m_id (slice_tail ms rest) = map m_id ms"
        "filed (in_space g) parts s s'"
    | parts t where "concat parts @ map m_id (slice_tail ms rest) = map m_id ms"
        "filed (in_space g) parts s t" "swapped (in_space g) (slice_tail ms rest) t s'"
proof -
  obtain parts where parts: "split_messages_per_cell ms cells = Some parts" "length parts = length cells"
    "concat parts @ map m_id (slice_tail ms rest) = map m_id ms"
    using cut_pieces [OF assms(2,3)] by blast
  obtain ids s1 where mint: "mint_ids e (length cells) s = (Inr ids, s1)"
    using mint_ids_untouched [of e "length cells" s] by (metis prod.collapse)
  have s1: "untouched s s1" and ids: "length ids = length cells"
    using mint_ids_untouched [OF mint] by auto
  let ?insert = "commit e (\<lambda>s. map_option (\<lambda>t. s\<lparr>ms_memcells := t\<rparr>)
      (insert_many (memcell_rows e g (zip cells (zip ids parts))) (ms_memcells s)))"
  let ?touch = "let last = Max (set (map cl_timestamp cells))
      in if last \<noteq> 0 then touch_last_memcell_ts e (in_space g) (me_from_ms e last) else ret ()"
  have run: "bindM ?insert (\<lambda>_. bindM ?touch (\<lambda>_. bindM (replace_buffer e (in_space g) (slice_tail ms rest))
      (\<lambda>_. ret \<lparr>bo_cells = cells, bo_memcell_ids = ids, bo_message_ids = parts,
        bo_senders = map unique_all_senders cells, bo_extracted = True, bo_message_count = n\<rparr>))) s1 = (r, s')"
    using assms(1) by (simp add: cut_def Let_def bindM_def mint parts(1))
  have touch: "untouched a b" if "?touch a = (q, b)" for a b q
    using that by (auto simp: Let_def ret_def split: if_splits dest: touch_untouched)
  from run show thesis
  proof (cases rule: bindM_cases)
    case (1 x)
    from 1(1) show thesis
    proof (cases rule: commit_cases)
      case (1 y)
      then show thesis using that(1) [of x] \<open>r = Inl x\<close> s1 by (auto simp: untouched_def)
    next
      case 2
      then show thesis using 1 by simp
    qed
  next
    case (2 u s2)
    from 2(1) obtain t where "insert_many (memcell_rows e g (zip cells (zip ids parts))) (ms_memcells (tick s1)) = Some t"
      and s2: "s2 = (tick s1)\<lparr>ms_memcells := t\<rparr>" by (cases rule: commit_cases) auto
    then have "filed (in_space g) parts (tick s1) s2" using filed_rows ids parts(2) by blast
    then have filed: "filed (in_space g) parts s s2" using s1 by (auto simp: filed_def untouched_def)
    from 2(2) show thesis
    proof (cases rule: bindM_cases)
      case (1 x)
      then show thesis using that(2) [OF _ parts(3)] filed touch by blast
    next
      case (2 u s3)
      have filed3: "filed (in_space g) parts s s3" using filed touch [OF 2(1)] by blast
      from 2(2) show thesis
      proof (cases rule: bindM_cases)
        case (1 x)
        then show thesis using that(2) [OF _ parts(3)] filed3 by (auto elim: replace_buffer_cases)
      next
        case (2 u s4)
        from 2(1) have "swapped (in_space g) (slice_tail ms rest) s3 s4"
          by (cases rule: replace_buffer_cases) auto
        then show thesis using that(3) [OF parts(3) filed3] 2(2) by (auto simp: ret_def)
      qed
    qed
  qed
qed

lemma load_buffer_cases:
  assumes "load_buffer e sp s = (r, s')"
  obtains x where "r = Inl x" "untouched s s'"
    | "r = Inr (map bu_message (list_for_track sp (ms_buffer s)))" "untouched s s'"
  using assms by (auto simp: load_buffer_def untouched_def split: if_splits)

text \<open>What the call would keep: buffered and fresh messages together.\<close>

definition merged_of :: "memory_env \<Rightarrow> ingest_result \<Rightarrow> memory_state \<Rightarrow> canonical_message list" where
  "merged_of e g s = merge_dedupe_sort (map bu_message (list_for_track (in_space g) (ms_buffer s)))
     (filter_for_mode (me_mode e) (in_messages g))"

text \<open>
  The ways a boundary step ends: nothing stored, everything parked, or the merged messages
  split between filed cells and the new buffer; an error may also come after filing.
\<close>

inductive boundary_end :: "space \<Rightarrow> canonical_message list \<Rightarrow> bool \<Rightarrow> memory_state \<Rightarrow> memory_state \<Rightarrow> bool"
  for sp merged where
  unstored: "untouched s s' \<Longrightarrow> ok = False \<or> merged = [] \<Longrightarrow> boundary_end sp merged ok s s'"
| parked: "swapped sp merged s s' \<Longrightarrow> boundary_end sp merged ok s s'"
| filed_only: "filed sp parts s s' \<Longrightarrow> 
    concat parts @ map m_id (kept :: canonical_message list) = map m_id merged \<Longrightarrow>
    boundary_end sp merged False s s'"
| cut_off: "filed sp parts s t \<Longrightarrow> swapped sp kept t s' \<Longrightarrow> concat parts @ map m_id kept = map m_id merged \<Longrightarrow>
    set kept \<subseteq> set merged \<Longrightarrow> boundary_end sp merged ok s s'"

lemma boundary_end_untouched:
  "untouched s s1 \<Longrightarrow> boundary_end sp merged ok s1 s' \<Longrightarrow> boundary_end sp merged ok s s'"
  by (erule boundary_end.cases) (auto intro: boundary_end.intros)

lemma prepare_end:
  assumes "detector_ok e" and "prepare_cells e final g s = (r, s')"
  shows "boundary_end (in_space g) (merged_of e g s) (\<not> isl r) s s'
    \<or> untouched s s' \<and> filter_for_mode (me_mode e) (in_messages g) = []"
proof (cases "filter_for_mode (me_mode e) (in_messages g) = [] \<and> \<not> final")
  case True
  then show ?thesis using assms(2) by (auto simp: prepare_cells_def ret_def Let_def)
next
  case False
  let ?M = "merged_of e g s" and ?sp = "in_space g" and ?n = "length (filter_for_mode (me_mode e) (in_messages g))"
  let ?rest = "\<lambda>M. if M = [] then ret (empty_outcome 0)
     else if \<not> final \<and> \<not> list_ex (\<lambda>m. m_role m = Role_user) M then park e ?sp M ?n
     else if \<not> me_llm e then bindM (replace_buffer e ?sp M) (\<lambda>_. ret (empty_outcome ?n))
     else bindM (detect e final M BOUNDARY_MAX_ATTEMPTS) (\<lambda>(cells, rest).
       if cells = [] then park e ?sp M ?n else cut e g M ?n cells rest)"
  have "bindM (load_buffer e ?sp) (\<lambda>b. ?rest (merge_dedupe_sort b (filter_for_mode (me_mode e) (in_messages g)))) s
      = (r, s')"
    using assms(2) False by (auto simp: prepare_cells_def Let_def)
  then show ?thesis
  proof (cases rule: bindM_cases)
    case (1 x)
    then have "untouched s s'" by (auto elim: load_buffer_cases)
    with 1 show ?thesis by (intro disjI1 boundary_end.unstored) simp_all
  next
    case (2 b s1)
    from 2(1) have s1: "untouched s s1" and b: "b = map bu_message (list_for_track ?sp (ms_buffer s))"
      by (auto elim: load_buffer_cases)
    have run: "?rest ?M s1 = (r, s')" using 2(2) unfolding b merged_of_def .
    have "boundary_end ?sp ?M (\<not> isl r) s1 s'"
    proof (cases "?M = [] \<or> \<not> final \<and> \<not> list_ex (\<lambda>m. m_role m = Role_user) ?M \<or> \<not> me_llm e")
      case True
      then show ?thesis using run
        by (auto simp: ret_def split: if_splits elim!: park_cases bindM_cases replace_buffer_cases
            intro: boundary_end.unstored boundary_end.parked)
    next
      case False
      then have "bindM (detect e final ?M BOUNDARY_MAX_ATTEMPTS) (\<lambda>(cells, rest).
          if cells = [] then park e ?sp ?M ?n else cut e g ?M ?n cells rest) s1 = (r, s')"
        using run by auto
      then show ?thesis
      proof (cases rule: bindM_cases)
        case (1 x)
        then show ?thesis using detect_cases [OF 1(1) assms(1)] by (auto intro: boundary_end.unstored)
      next
        case (2 d s2)
        obtain cells rest where d: "d = (cells, rest)" by (cases d)
        have s2: "untouched s1 s2" and items: "\<exists>items. concat (map cl_items cells) @ rest = items
            \<and> length items = length ?M"
          using detect_cases [OF 2(1) assms(1)] d by auto
        have "boundary_end ?sp ?M (\<not> isl r) s2 s'"
        proof (cases "cells = []")
          case True
          then show ?thesis using 2(2) d by (auto elim!: park_cases intro: boundary_end.unstored boundary_end.parked)
        next
          case False
          then have run: "cut e g ?M ?n cells rest s2 = (r, s')" using 2(2) d by simp
          have sub: "set (slice_tail ?M rest) \<subseteq> set ?M" by (auto simp: slice_tail_def dest: in_set_dropD)
          from items obtain items where it: "concat (map cl_items cells) @ rest = items"
            "length items = length ?M" by blast
          from run it show ?thesis
            by (cases rule: cut_cases)
              (auto intro: boundary_end.unstored boundary_end.filed_only boundary_end.cut_off [OF _ _ _ sub])
        qed
        with s2 show ?thesis by (rule boundary_end_untouched)
      qed
    qed
    with s1 show ?thesis using boundary_end_untouched by blast
  qed
qed

lemma buffer_messages_end:
  assumes "buffer_messages e g s = (r, s')"
  shows "boundary_end (in_space g) (merged_of e g s) (\<not> isl r) s s'
    \<or> untouched s s' \<and> filter_for_mode (me_mode e) (in_messages g) = []"
proof (cases "filter_for_mode (me_mode e) (in_messages g) = []")
  case True
  then show ?thesis using assms by (auto simp: buffer_messages_def ret_def Let_def)
next
  case False
  then have "bindM (load_buffer e (in_space g)) (\<lambda>b. park e (in_space g)
      (merge_dedupe_sort b (filter_for_mode (me_mode e) (in_messages g)))
      (length (filter_for_mode (me_mode e) (in_messages g)))) s = (r, s')"
    using assms by (simp add: buffer_messages_def Let_def)
  then show ?thesis
  proof (cases rule: bindM_cases)
    case (1 x)
    then have "untouched s s'" by (auto elim: load_buffer_cases)
    with 1 show ?thesis by (intro disjI1 boundary_end.unstored) simp_all
  next
    case (2 b s1)
    from 2(1) have s1: "untouched s s1" and b: "b = map bu_message (list_for_track (in_space g) (ms_buffer s))"
      by (auto elim: load_buffer_cases)
    have "park e (in_space g) (merged_of e g s) (length (filter_for_mode (me_mode e) (in_messages g))) s1 = (r, s')"
      using 2(2) b by (simp add: merged_of_def)
    then have "boundary_end (in_space g) (merged_of e g s) (\<not> isl r) s1 s'"
      by (auto elim!: park_cases intro: boundary_end.unstored boundary_end.parked)
    with s1 show ?thesis using boundary_end_untouched by blast
  qed
qed

section \<open>Accounting for messages\<close>

definition held :: "memory_state \<Rightarrow> space \<Rightarrow> string set" where
  "held s sp = set (cell_ids s sp) \<union> set (buffer_ids s sp)"

definition keyed :: "memory_state \<Rightarrow> bool" where
  "keyed s \<longleftrightarrow> distinct (map buffer_key (ms_buffer s))"

lemma keyed_ids: "keyed s \<Longrightarrow> distinct (buffer_ids s sp)"
proof -
  assume "keyed s"
  then have "distinct (map buffer_key (filter (in_slice sp) (ms_buffer s)))"
    by (auto simp: keyed_def distinct_map inj_on_def)
  then show ?thesis
    by (auto simp: buffer_ids_def distinct_map inj_on_def buffer_key_def in_slice_def)
qed

lemma ingest_messages_session:
  "ingest_messages parse from_ms session i rs = Some ms \<Longrightarrow> m \<in> set ms \<Longrightarrow> m_session m = session"
  by (induction rs arbitrary: i ms) (auto split: option.splits)

lemma ingest_session:
  "ingest parse from_ms p = Some g \<Longrightarrow> m \<in> set (in_messages g) \<Longrightarrow> m_session m = in_session g"
  by (auto simp: ingest_def dest: ingest_messages_session)

abbreviation fresh_of :: "memory_env \<Rightarrow> ingest_result \<Rightarrow> canonical_message list" where
  "fresh_of e g \<equiv> filter_for_mode (me_mode e) (in_messages g)"

lemma filter_for_mode_sub: "set (filter_for_mode md ms) \<subseteq> set ms"
  by (auto simp: filter_for_mode_def split: mode.splits)

lemma merged_facts:
  assumes "ingest parse from_ms p = Some g"
  shows "distinct (map m_id (merged_of e g s))"
    and "m_id ` set (merged_of e g s) = set (buffer_ids s (in_space g)) \<union> m_id ` set (fresh_of e g)"
    and "\<forall>m \<in> set (merged_of e g s). m_session m = in_session g"
proof -
  let ?b = "map bu_message (list_for_track (in_space g) (ms_buffer s))"
  note merge = merge_facts [of ?b "fresh_of e g"]
  show "distinct (map m_id (merged_of e g s))" using merge(1) by (simp add: merged_of_def)
  have "m_id ` set ?b = set (buffer_ids s (in_space g))"
    by (simp add: buffer_ids_def list_for_track_def image_image)
  then show "m_id ` set (merged_of e g s) = set (buffer_ids s (in_space g)) \<union> m_id ` set (fresh_of e g)"
    using merge(2) by (simp add: merged_of_def)
  have "m_session m = in_session g" if "m \<in> set ?b" for m
    using that by (auto simp: list_for_track_def in_slice_def in_space_def)
  then show "\<forall>m \<in> set (merged_of e g s). m_session m = in_session g"
    using merge(3) ingest_session [OF assms] filter_for_mode_sub
    by (fastforce simp: merged_of_def)
qed

lemma swapped_ids:
  assumes "swapped sp ms s s'" and "\<forall>m \<in> set ms. m_session m = snd (snd sp)"
  shows "buffer_ids s' sp = map m_id ms" and "sp' \<noteq> sp \<Longrightarrow> buffer_ids s' sp' = buffer_ids s sp'"
    and "cell_ids s' = cell_ids s" and "keyed s'"
proof -
  let ?rows = "map (canonical_to_row (fst sp) (fst (snd sp))) ms"
  have rep: "replace_rows sp ?rows (ms_buffer s) = Some (ms_buffer s')" and cells: "ms_memcells s' = ms_memcells s"
    using assms(1) by (simp_all add: swapped_def)
  from rep have buf: "ms_buffer s' = delete_where (in_slice sp) (ms_buffer s) @ ?rows"
    and dist: "distinct (map buffer_key (ms_buffer s'))"
    unfolding replace_rows_def Let_def by (metis option.distinct(1) option.inject)+
  show "keyed s'" by (simp add: keyed_def dist)
  show "cell_ids s' = cell_ids s" by (simp add: cell_ids_def [abs_def] cells)
  have in_sp: "in_slice sp'' (canonical_to_row (fst sp) (fst (snd sp)) m) \<longleftrightarrow> sp'' = sp" if "m \<in> set ms" for m sp''
    using assms(2) that by (auto simp: in_slice_def canonical_to_row_def)
  have none: "filter (in_slice sp) (delete_where (in_slice sp) t) = []" for t
    by (simp add: delete_where_def filter_empty_conv)
  have "filter (in_slice sp) ?rows = ?rows"
    using in_sp by (auto intro!: filter_True)
  then show "buffer_ids s' sp = map m_id ms"
    by (simp add: buffer_ids_def buf none) (simp add: canonical_to_row_def)
  assume "sp' \<noteq> sp"
  then have "filter (in_slice sp') ?rows = []" using in_sp by (auto simp: filter_empty_conv)
  moreover have "filter (in_slice sp') (delete_where (in_slice sp) (ms_buffer s)) = filter (in_slice sp') (ms_buffer s)"
    using \<open>sp' \<noteq> sp\<close> by (auto simp: delete_where_def in_slice_def intro!: filter_cong)
  ultimately show "buffer_ids s' sp' = buffer_ids s sp'" by (simp add: buffer_ids_def buf)
qed

lemma filed_ids:
  assumes "filed sp parts s s'"
  shows "cell_ids s' sp = cell_ids s sp @ concat parts" and "sp' \<noteq> sp \<Longrightarrow> cell_ids s' sp' = cell_ids s sp'"
    and "buffer_ids s' = buffer_ids s" and "keyed s \<Longrightarrow> keyed s'"
proof -
  obtain rows where rows: "ms_memcells s' = ms_memcells s @ rows" "map mc_message_ids rows = parts"
    "cell_space ` set rows \<subseteq> {sp}" and buf: "ms_buffer s' = ms_buffer s"
    using assms by (auto simp: filed_def)
  have "filter (\<lambda>r. cell_space r = sp) rows = rows" using rows(3) by (auto intro!: filter_True)
  then show "cell_ids s' sp = cell_ids s sp @ concat parts" by (simp add: cell_ids_def rows(1) rows(2) [symmetric])
  show "buffer_ids s' = buffer_ids s" by (simp add: buffer_ids_def [abs_def] buf)
  show "keyed s \<Longrightarrow> keyed s'" by (simp add: keyed_def buf)
  assume "sp' \<noteq> sp"
  then have "filter (\<lambda>r. cell_space r = sp') rows = []" using rows(3) by (auto simp: filter_empty_conv)
  then show "cell_ids s' sp' = cell_ids s sp'" by (simp add: cell_ids_def rows(1))
qed

lemma untouched_ids:
  assumes "untouched s s'"
  shows "cell_ids s' = cell_ids s" and "buffer_ids s' = buffer_ids s" and "keyed s' = keyed s"
  using assms by (simp_all add: untouched_def cell_ids_def [abs_def] buffer_ids_def [abs_def] keyed_def)

text \<open>The books of one call: where the ids of a space are before and after.\<close>

definition accounted :: "space \<Rightarrow> string set \<Rightarrow> memory_state \<Rightarrow> memory_state \<Rightarrow> bool" where
  "accounted sp fresh s s' \<longleftrightarrow>
     mset (cell_ids s' sp) + mset (buffer_ids s' sp)
     = mset (cell_ids s sp) + mset_set (set (buffer_ids s sp) \<union> fresh)"

definition elsewhere_same :: "space \<Rightarrow> memory_state \<Rightarrow> memory_state \<Rightarrow> bool" where
  "elsewhere_same sp s s' \<longleftrightarrow>
     (\<forall>sp'. sp' \<noteq> sp \<longrightarrow> cell_ids s' sp' = cell_ids s sp' \<and> buffer_ids s' sp' = buffer_ids s sp')"

lemma boundary_end_books:
  assumes "boundary_end (in_space g) (merged_of e g s) ok s s'" and "ingest parse from_ms p = Some g"
    and "keyed s"
  shows "keyed s'" and "elsewhere_same (in_space g) s s'" and "held s sp \<subseteq> held s' sp"
    and "ok \<Longrightarrow> accounted (in_space g) (m_id ` set (fresh_of e g)) s s'"
proof -
  let ?sp = "in_space g" and ?M = "merged_of e g s" and ?F = "m_id ` set (fresh_of e g)"
  note M = merged_facts [OF assms(2), of e s]
  have msM: "mset (map m_id ?M) = mset_set (set (buffer_ids s ?sp) \<union> ?F)"
    by (metis M(1,2) list.set_map mset_set_set)
  have session: "\<forall>m \<in> set ?M. m_session m = snd (snd ?sp)" using M(3) by (simp add: in_space_def)
  have "keyed s' \<and> elsewhere_same ?sp s s' \<and> held s ?sp \<subseteq> held s' ?sp \<and> (ok \<longrightarrow> accounted ?sp ?F s s')"
    using assms(1)
  proof (cases rule: boundary_end.cases)
    case unstored
    note same = untouched_ids [OF unstored(1)]
    have "accounted ?sp ?F s s'" if "?M = []"
    proof -
      have "set (buffer_ids s ?sp) \<union> ?F = {}" using M(2) that by simp
      then show ?thesis by (auto simp: accounted_def same)
    qed
    with unstored(2) show ?thesis by (auto simp: same elsewhere_same_def held_def assms(3))
  next
    case parked
    note ids = swapped_ids [OF parked session]
    have "held s ?sp \<subseteq> held s' ?sp" using M(2) by (auto simp: held_def ids(1,3))
    moreover have "accounted ?sp ?F s s'" using msM by (simp add: accounted_def ids(1,3))
    ultimately show ?thesis by (simp add: elsewhere_same_def ids)
  next
    case (filed_only parts kept)
    note ids = filed_ids [OF filed_only(2)]
    show ?thesis using filed_only(1) by (auto simp: elsewhere_same_def held_def ids assms(3))
  next
    case (cut_off parts t kept)
    have kept: "\<forall>m \<in> set kept. m_session m = snd (snd ?sp)" using session cut_off(4) by blast
    note f = filed_ids [OF cut_off(1)] and w = swapped_ids [OF cut_off(2) kept]
    have "mset (concat parts) + mset (map m_id kept) = mset (map m_id ?M)"
      by (metis cut_off(3) mset_append)
    then have "accounted ?sp ?F s s'" unfolding accounted_def w(1,3) f(1) msM [symmetric]
      by (simp add: add.assoc)
    moreover have "set (concat parts) \<union> m_id ` set kept = m_id ` set ?M"
      using arg_cong [OF cut_off(3), of set] by simp
    then have "held s ?sp \<subseteq> held s' ?sp" using M(2) by (auto simp: held_def w(1,3) f(1))
    ultimately show ?thesis by (simp add: elsewhere_same_def w f)
  qed
  then have all: "keyed s'" "elsewhere_same ?sp s s'" "held s ?sp \<subseteq> held s' ?sp"
    "ok \<Longrightarrow> accounted ?sp ?F s s'" by auto
  show "keyed s'" "elsewhere_same ?sp s s'" by (rule all)+
  show "ok \<Longrightarrow> accounted ?sp ?F s s'" by (rule all(4))
  show "held s sp \<subseteq> held s' sp"
  proof (cases "sp = ?sp")
    case False
    then have "held s' sp = held s sp" using all(2) unfolding elsewhere_same_def held_def by metis
    then show ?thesis by simp
  qed (use all(3) in simp)
qed

section \<open>One call\<close>

text \<open>Steps that store nothing.\<close>

named_theorems quiet_intros \<open>steps that leave the tables of messages alone\<close>

definition quiet :: "'a step \<Rightarrow> bool" where
  "quiet m \<longleftrightarrow> (\<forall>s. untouched s (snd (m s)))"

lemma quietD: "quiet m \<Longrightarrow> m s = (r, s') \<Longrightarrow> untouched s s'"
  unfolding quiet_def by (metis snd_conv)

lemma quiet_basic [quiet_intros]:
  "quiet (ret x)" "quiet (raise y)" "quiet (draw f)" "quiet (emit e err eff)"
  by (simp_all add: quiet_def ret_def raise_def draw_def emit_def untouched_def)

lemma quiet_bindM [quiet_intros]: "quiet m \<Longrightarrow> (\<And>x. quiet (f x)) \<Longrightarrow> quiet (bindM m f)"
  unfolding quiet_def by (auto simp: bindM_def split: prod.splits sum.splits) (metis snd_conv untouched_trans)+

lemma quiet_each [quiet_intros]: "(\<And>x. quiet (f x)) \<Longrightarrow> quiet (each f xs)"
  by (induction xs) (simp_all add: quiet_intros)

lemma quiet_both [quiet_intros]: "quiet f \<Longrightarrow> quiet g \<Longrightarrow> quiet (both f g)"
  unfolding quiet_def by (auto simp: both_def split: prod.splits) (metis snd_conv untouched_trans)

lemma quiet_extract [quiet_intros]: "quiet (extract_with_retry e c k)"
  by (induction k) (auto intro!: quiet_intros split: option.splits bool.splits)

lemma quiet_user_pipeline [quiet_intros]: "quiet (user_pipeline e b)"
  unfolding user_pipeline_def Let_def case_prod_unfold by (intro quiet_intros) (auto intro!: quiet_intros)

lemma quiet_agent_pipeline [quiet_intros]: "quiet (agent_pipeline e b)"
  unfolding agent_pipeline_def by (intro quiet_intros)

lemma quiet_pipelines:
  "quiet (if bo_cells b = [] then ret x
          else bindM (case me_mode e of Agent \<Rightarrow> both (user_pipeline e b) (agent_pipeline e b)
                      | Chat \<Rightarrow> user_pipeline e b) (\<lambda>_. ret y))"
  by (auto intro!: quiet_intros split: mode.splits)

text \<open>A call stores what its boundary step stores; the pipelines come after.\<close>

lemma memorize_end:
  assumes "detector_ok e" and "ingest (me_parse e) (me_from_ms e) p = Some g"
    and "memorize_locked e final defer p s = (r, s')"
  shows "\<exists>t ok. untouched t s' \<and> (\<not> isl r \<longrightarrow> ok) \<and>
     (boundary_end (in_space g) (merged_of e g s) ok s t \<or> untouched s t \<and> fresh_of e g = [])"
proof (cases "defer \<and> \<not> final")
  case True
  then have "bindM (buffer_messages e g) (\<lambda>_. ret (length (pl_messages p), Accumulated)) s = (r, s')"
    using assms(2,3) by (simp add: memorize_locked_def Let_def)
  then obtain r1 where "buffer_messages e g s = (r1, s')" "isl r1 \<longleftrightarrow> isl r"
    by (auto simp: bindM_def ret_def split: prod.splits sum.splits)
  then show ?thesis using buffer_messages_end [of e g s r1 s'] by (metis untouched_refl)
next
  case False
  let ?k = "\<lambda>b. if bo_cells b = [] then ret (length (pl_messages p), Accumulated)
    else bindM (case me_mode e of Agent \<Rightarrow> both (user_pipeline e b) (agent_pipeline e b)
                | Chat \<Rightarrow> user_pipeline e b) (\<lambda>_. ret (length (pl_messages p), Extracted))"
  have "bindM (prepare_cells e final g) ?k s = (r, s')"
    using False assms(2,3) by (auto simp: memorize_locked_def Let_def)
  then show ?thesis
  proof (cases rule: bindM_cases)
    case (1 x)
    then show ?thesis using prepare_end [OF assms(1) 1(1)] by (intro exI [of _ s'] exI [of _ False]) auto
  next
    case (2 b t)
    have "untouched t s'" by (rule quietD [OF quiet_pipelines 2(2)])
    then show ?thesis using prepare_end [OF assms(1) 2(1)] by auto
  qed
qed

lemma memorize_books:
  assumes "detector_ok e" and "keyed s" and "ingest (me_parse e) (me_from_ms e) p = Some g"
    and "memorize_locked e final defer p s = (r, s')"
  shows "keyed s'" and "elsewhere_same (in_space g) s s'" and "held s sp \<subseteq> held s' sp"
    and "\<not> isl r \<Longrightarrow> accounted (in_space g) (m_id ` set (fresh_of e g)) s s'"
proof -
  obtain t ok where t: "untouched t s'" "\<not> isl r \<longrightarrow> ok"
    and e: "boundary_end (in_space g) (merged_of e g s) ok s t \<or> untouched s t \<and> fresh_of e g = []"
    using memorize_end [OF assms(1,3,4)] by blast
  note same = untouched_ids [OF t(1)]
  have "keyed t \<and> elsewhere_same (in_space g) s t \<and> held s sp \<subseteq> held t sp
      \<and> (\<not> isl r \<longrightarrow> accounted (in_space g) (m_id ` set (fresh_of e g)) s t)"
    using e
  proof
    assume "boundary_end (in_space g) (merged_of e g s) ok s t"
    from boundary_end_books [OF this assms(3,2)] t(2) show ?thesis by blast
  next
    assume u: "untouched s t \<and> fresh_of e g = []"
    then have "untouched s t" by simp
    note ids = untouched_ids [OF this]
    show ?thesis
      using u keyed_ids [OF assms(2), of "in_space g"] assms(2)
      by (simp add: elsewhere_same_def held_def accounted_def ids mset_set_set)
  qed
  then show "keyed s'" "elsewhere_same (in_space g) s s'" "held s sp \<subseteq> held s' sp"
    "\<not> isl r \<Longrightarrow> accounted (in_space g) (m_id ` set (fresh_of e g)) s s'"
    by (simp_all add: elsewhere_same_def held_def accounted_def same)
qed

section \<open>Message ids\<close>

lemma last_separator:
  "xs @ c # ds = ys @ c # es \<Longrightarrow> c \<notin> set ds \<Longrightarrow> c \<notin> set es \<Longrightarrow> xs = ys \<and> ds = es"
proof (induction xs arbitrary: ys)
  case Nil
  then show ?case by (cases ys) auto
next
  case (Cons x xs)
  then show ?case by (cases ys) auto
qed

lemma separator_not_digit: "list_all is_digit s \<Longrightarrow> CHR ''_'' \<notin> set s"
  by (auto simp: list_all_iff is_digit_def)

lemma gen_message_id_eq:
  "gen_message_id session ts idx = gen_message_id session' ts' idx' \<longleftrightarrow>
     session = session' \<and> ts = ts' \<and> idx = idx'"
proof
  let ?u = "CHR ''_''" and ?p = "\<lambda>i. zero_pad 3 (dec i)"
  assume "gen_message_id session ts idx = gen_message_id session' ts' idx'"
  then have eq: "(session @ ?u # dec ts) @ ?u # ?p idx = (session' @ ?u # dec ts') @ ?u # ?p idx'"
    by (simp add: gen_message_id_def)
  have no: "?u \<notin> set (dec n)" "?u \<notin> set (?p n)" for n
    by (intro separator_not_digit zero_pad_digits dec_digits)+
  from last_separator [OF eq no(2) no(2)] have 1: "session @ ?u # dec ts = session' @ ?u # dec ts'"
    and "?p idx = ?p idx'" by auto
  then have "undec (?p idx) = undec (?p idx')" by simp
  moreover from last_separator [OF 1 no(1) no(1)] have "session = session'" "dec ts = dec ts'" by auto
  ultimately show "session = session' \<and> ts = ts' \<and> idx = idx'" by simp
qed simp

section \<open>The properties\<close>


text \<open>Calls one after the other, as the session locks order them; what was accepted.\<close>

type_synonym call = "bool \<times> bool \<times> payload"

definition accepted :: "memory_env \<Rightarrow> payload \<Rightarrow> (space \<times> string) list" where
  "accepted e p = (case ingest (me_parse e) (me_from_ms e) p of
     None \<Rightarrow> [] | Some g \<Rightarrow> map (\<lambda>m. (in_space g, m_id m)) (fresh_of e g))"

fun memorize_all :: "memory_env \<Rightarrow> call list \<Rightarrow> memory_state \<Rightarrow> (space \<times> string) list \<times> memory_state" where
  "memorize_all e [] s = ([], s)"
| "memorize_all e ((final, defer, p) # cs) s =
     (case memorize_locked e final defer p s of (r, s1) \<Rightarrow>
        case memorize_all e cs s1 of (acc, s2) \<Rightarrow>
          ((if isl r then acc else accepted e p @ acc), s2))"

lemma memorize_keeps:
  assumes "detector_ok e" and "keyed s" and "memorize_locked e final defer p s = (r, s')"
  shows "keyed s' \<and> held s sp \<subseteq> held s' sp
    \<and> (\<not> isl r \<longrightarrow> (sp, i) \<in> set (accepted e p) \<longrightarrow> i \<in> held s' sp)"
proof (cases "ingest (me_parse e) (me_from_ms e) p")
  case None
  then show ?thesis using assms(2,3) by (auto simp: memorize_locked_def raise_def)
next
  case (Some g)
  note books = memorize_books [OF assms(1,2) Some assms(3)]
  have "i \<in> held s' (in_space g)" if "\<not> isl r" "i \<in> m_id ` set (fresh_of e g)"
  proof -
    have "set_mset (mset (cell_ids s' (in_space g)) + mset (buffer_ids s' (in_space g)))
        = set_mset (mset (cell_ids s (in_space g))
            + mset_set (set (buffer_ids s (in_space g)) \<union> m_id ` set (fresh_of e g)))"
      using books(4) [OF that(1)] by (simp add: accounted_def)
    then have "held s' (in_space g) = set (cell_ids s (in_space g))
        \<union> (set (buffer_ids s (in_space g)) \<union> m_id ` set (fresh_of e g))"
      by (simp add: held_def)
    then show ?thesis using that(2) by simp
  qed
  then show ?thesis using books(1,3) by (auto simp: accepted_def Some)
qed

lemma accepted_is_held:
  assumes "detector_ok e" and "keyed s" and "memorize_all e calls s = (acc, s')"
    and "(sp, i) \<in> set acc"
  shows "i \<in> held s' sp"
proof -
  have "keyed s \<Longrightarrow> memorize_all e calls s = (acc, s') \<Longrightarrow>
      held s sp \<subseteq> held s' sp \<and> ((sp, i) \<in> set acc \<longrightarrow> i \<in> held s' sp)" for s acc
  proof (induction calls arbitrary: s acc)
    case (Cons c cs)
    obtain final df p where c: "c = (final, df, p)" by (cases c)
    obtain r s1 where run: "memorize_locked e final df p s = (r, s1)" by (metis surj_pair)
    obtain acc1 where rest: "memorize_all e cs s1 = (acc1, s')"
      and acc: "acc = (if isl r then acc1 else accepted e p @ acc1)"
      using Cons.prems(2) by (auto simp: c run split: prod.splits)
    note keeps = memorize_keeps [OF assms(1) Cons.prems(1) run, of sp i]
    have "keyed s1" using keeps by blast
    from Cons.IH [OF this rest] keeps show ?case by (auto simp: acc split: if_splits)
  qed simp
  then show ?thesis using assms(2-4) by blast
qed


section \<open>A row that blocks its session\<close>

lemma fold_replace_distinct:
  "distinct (map key (t @ ms)) \<Longrightarrow> fold (\<lambda>m t. upsert_row key m (\<lambda>_. m) t) ms t = t @ ms"
proof (induction ms arbitrary: t)
  case (Cons m ms)
  have "key m \<notin> key ` set t" using Cons.prems by auto
  then have "upsert_row key m (\<lambda>_. m) t = t @ [m]" by (simp add: upsert_row_def)
  then show ?case using Cons.IH [of "t @ [m]"] Cons.prems by simp
qed simp

lemma fold_setdefault_keeps: "set t \<subseteq> set (fold (\<lambda>m t. upsert_row key m (\<lambda>x. x) t) ms t)"
proof (induction ms arbitrary: t)
  case (Cons m ms)
  have "set t \<subseteq> set (upsert_row key m (\<lambda>x. x) t)" by (auto simp: upsert_row_def set_update_where)
  then show ?case using Cons.IH [of "upsert_row key m (\<lambda>x. x) t"] by simp
qed simp

lemma merge_keeps_buffered:
  assumes "distinct (map m_id b)"
  shows "set b \<subseteq> set (merge_dedupe_sort b n)"
  using fold_replace_distinct [of m_id "[]" b] fold_setdefault_keeps [of b m_id n] assms
  by (simp add: merge_dedupe_sort_def)

lemma detect_unmappable:
  "to_items e ms = None \<Longrightarrow> detect e final ms k s = (Inl Value_error, s)"
  by (induction k arbitrary: s) (simp_all add: raise_def bindM_def ret_def)

text \<open>
  C37: in agent mode a tool message without a tool call id cannot be mapped for the detector.
  Once such a message is in a session's buffer, every later flush of the session, and every
  add that reaches the detector, ends with an error and stores nothing: the session takes
  no message and its buffer can no longer be cut.
\<close>

theorem orphan_tool_row_blocks_session:
  assumes "me_mode e = Agent" and "me_llm e" and "keyed s"
    and "ingest (me_parse e) (me_from_ms e) p = Some g"
    and "b \<in> set (ms_buffer s)" and "in_slice (in_space g) b"
    and "m_role (bu_message b) = Role_tool" and "\<not> has_tool_call_id (bu_message b)"
    and "final \<or> \<not> defer \<and> fresh_of e g \<noteq> [] \<and> list_ex (\<lambda>m. m_role m = Role_user) (merged_of e g s)"
    and "memorize_locked e final defer p s = (r, s')"
  shows "isl r \<and> untouched s s'"
proof -
  let ?b = "map bu_message (list_for_track (in_space g) (ms_buffer s))" and ?M = "merged_of e g s"
  have "distinct (map m_id (map bu_message (filter (in_slice (in_space g)) (ms_buffer s))))"
    using keyed_ids [OF assms(3), of "in_space g"] by (simp add: buffer_ids_def)
  then have "distinct (map m_id ?b)"
    by (simp add: list_for_track_def distinct_map)
  moreover have "bu_message b \<in> set ?b" using assms(5,6) by (simp add: list_for_track_def)
  ultimately have m: "bu_message b \<in> set ?M"
    using merge_keeps_buffered unfolding merged_of_def by blast
  have "to_conversation_item e (bu_message b) = None"
    using assms(7,8) by (simp add: to_conversation_item_def Let_def)
  then have items: "to_items e ?M = None" using m assms(1) by (auto simp: to_items_def list_all_iff)
  have "fresh_of e g \<noteq> [] \<or> final" and "\<not> (defer \<and> \<not> final)" using assms(9) by auto
  then have "memorize_locked e final defer p s = bindM (prepare_cells e final g)
      (\<lambda>b. if bo_cells b = [] then ret (length (pl_messages p), Accumulated)
           else bindM (both (user_pipeline e b) (agent_pipeline e b)) (\<lambda>_. ret (length (pl_messages p), Extracted))) s"
    using assms(1,4) by (auto simp: memorize_locked_def Let_def cong: if_cong)
  moreover have "isl (fst (prepare_cells e final g s)) \<and> untouched s (snd (prepare_cells e final g s))"
  proof (cases "me_ok e (ms_draws s)")
    case True
    have "prepare_cells e final g s = (Inl Value_error, tick s)"
      using True m assms(2,9) items
      by (auto simp: prepare_cells_def Let_def bindM_def load_buffer_def merged_of_def detect_unmappable)
    then show ?thesis by (simp add: untouched_def)
  next
    case False
    then have "prepare_cells e final g s = (Inl Db_error, tick s)"
      using \<open>fresh_of e g \<noteq> [] \<or> final\<close> by (auto simp: prepare_cells_def Let_def bindM_def load_buffer_def)
    then show ?thesis by (simp add: untouched_def)
  qed
  ultimately show ?thesis
    using assms(10) by (auto simp: bindM_def split: prod.splits sum.splits)
qed

section \<open>Examples\<close>

text \<open>A detector that cuts everything into one cell when asked to finish.\<close>

definition demo_memory :: "mode \<Rightarrow> memory_env" where
  "demo_memory md = \<lparr>me_mode = md, me_llm = True, me_parse = Some, me_from_ms = int, me_to_ms = (\<lambda>t. t),
     me_detect = (\<lambda>_ final items. if final then Detected [\<lparr>cl_items = items, cl_timestamp = 7\<rparr>] []
                                   else Detected [] items),
     me_extract = (\<lambda>_ _. Some True), me_uuid = (\<lambda>n. dec n), me_ok = (\<lambda>_. True)\<rparr>"

definition no_memory :: memory_state where
  "no_memory = \<lparr>ms_buffer = [], ms_memcells = [], ms_status = [], ms_effects = [], ms_draws = 0\<rparr>"

definition demo_message :: "role \<Rightarrow> nat \<Rightarrow> string \<Rightarrow> raw_message" where
  "demo_message r ts txt = \<lparr>rm_sender = ''u1'', rm_sender_name = None, rm_role = r, rm_timestamp = ts,
     rm_content = [\<lparr>ci_type = ''text'', ci_text = Some txt, ci_name = None, ci_parsed = None\<rparr>],
     rm_tool_calls = None, rm_tool_call_id = None\<rparr>"

definition demo_payload :: "raw_message list \<Rightarrow> payload" where
  "demo_payload ms = \<lparr>pl_session = ''s'', pl_app = None, pl_project = None, pl_messages = ms\<rparr>"

abbreviation demo_space :: space where
  "demo_space \<equiv> (''default'', ''default'', ''s'')"

lemma demo_detector: "detector_ok (demo_memory md)"
  by (auto simp: detector_ok_def demo_memory_def split: if_splits)

lemma no_memory_keyed: "keyed no_memory"
  by (simp add: keyed_def no_memory_def)

lemma demo_ingest:
  "\<exists>g. ingest (me_parse (demo_memory md)) (me_from_ms (demo_memory md)) (demo_payload [demo_message r t x]) = Some g
     \<and> in_space g = demo_space \<and> map m_id (in_messages g) = [gen_message_id ''s'' t 0]
     \<and> map m_role (in_messages g) = [r] \<and> map m_tool_call_id (in_messages g) = [None]
     \<and> map has_tool_calls (in_messages g) = [False]"
  by (simp add: ingest_def demo_payload_def demo_memory_def demo_message_def or_default_def in_space_def
      has_tool_calls_def)

lemma demo_fresh:
  assumes "map m_role (in_messages g) = [Role_user]" and "map has_tool_calls (in_messages g) = [False]"
  shows "filter_for_mode md (in_messages g) = in_messages g"
  using assms by (cases "in_messages g") (auto simp: filter_for_mode_def split: mode.splits)



text \<open>A deferred add lets a tool message without a call id into the buffer.\<close>

definition demo_blocked :: memory_state where
  "demo_blocked = snd (memorize_locked (demo_memory Agent) False True
     (demo_payload [demo_message Role_tool 5 ''result'']) no_memory)"

theorem orphan_tool_row_blocks_session_witness:
  "\<exists>r s'. memorize_locked (demo_memory Agent) True False (demo_payload [demo_message Role_user 6 ''hi'']) demo_blocked
       = (r, s') \<and> isl r \<and> ms_buffer s' = ms_buffer demo_blocked"
proof -
  let ?e = "demo_memory Agent" and ?p = "demo_payload [demo_message Role_user 6 ''hi'']"
  obtain r s' where run: "memorize_locked ?e True False ?p demo_blocked = (r, s')" by (metis surj_pair)
  have "list_ex (\<lambda>b. in_slice demo_space b \<and> m_role (bu_message b) = Role_tool
      \<and> \<not> has_tool_call_id (bu_message b)) (ms_buffer demo_blocked)" by code_simp
  then obtain b where b: "b \<in> set (ms_buffer demo_blocked)" "in_slice demo_space b"
    "m_role (bu_message b) = Role_tool" "\<not> has_tool_call_id (bu_message b)"
    by (auto simp: list_ex_iff)
  obtain g where g: "ingest (me_parse ?e) (me_from_ms ?e) ?p = Some g" "in_space g = demo_space"
    using demo_ingest [of Agent Role_user 6 "''hi''"] by (elim exE conjE) (rule that)
  have k: "keyed demo_blocked" unfolding keyed_def by code_simp
  have md: "me_mode ?e = Agent" "me_llm ?e" by (simp_all add: demo_memory_def)
  show ?thesis
    using orphan_tool_row_blocks_session [OF md k g(1) b(1) _ b(3,4) _ run] b(2) run
    by (auto simp: g(2) untouched_def)
qed


text \<open>
  Message ids name the session, the time stamp and the position in the request.  Two
  messages sent in two requests with one time stamp therefore share an id, and the second
  is dropped although its request succeeds; and a request repeated after its messages were
  cut is not recognised, so that its messages are filed a second time.
\<close>

lemma message_ids_collide:
  "let e = demo_memory Chat;
       s1 = snd (memorize_locked e False True (demo_payload [demo_message Role_user 5 ''first'']) no_memory);
       (r2, s2) = memorize_locked e False True (demo_payload [demo_message Role_user 5 ''second'']) s1
   in r2 = Inr (1, Accumulated) \<and> map (m_text \<circ> bu_message) (ms_buffer s2) = [''first'']"
  by code_simp

lemma repeated_request_is_filed_twice:
  "let e = demo_memory Chat; call = memorize_locked e True False (demo_payload [demo_message Role_user 5 ''hi'']);
       s2 = snd (call (snd (call no_memory)))
   in cell_ids s2 demo_space = [''m_s_5_000'', ''m_s_5_000'']"
  by code_simp

end
