(* ===== verification/Structured_Entries.thy ===== *)
theory Structured_Entries
  imports Markdown_Entries "HOL-Library.AList"
begin

text \<open>
  The audit form of an entry body (\<open>render_structured_entry\<close> and \<open>parse_structured_entry\<close> of
  \<open>core/persistence/markdown/entries.py\<close>): an optional H2 line, inline \<open>**key**: value\<close>
  lines and H3 sections. The three patterns of the parser are run by a small backtracking
  matcher with the order of preference of Python's \<open>re\<close>, so that the places where \<open>\s\<close>
  crosses a line end are those of the code.
\<close>

section \<open>Patterns\<close>

text \<open>
  \<open>Bol\<close> and \<open>Eol\<close> are \<open>^\<close> and \<open>$\<close> under \<open>re.MULTILINE\<close>, \<open>One\<close> is a character of a class
  and \<open>Many\<close> a repetition of one, greedy or lazy. A match lists the text each element took.
  The flag says whether the position is at the start of a line.
\<close>

datatype elem = Bol | Eol | One "char \<Rightarrow> bool" | Many bool "char \<Rightarrow> bool"

definition first_match :: "'a option \<Rightarrow> 'a option \<Rightarrow> 'a option" where
  "first_match a b = (case a of None \<Rightarrow> b | Some x \<Rightarrow> Some x)"

lemma first_match_simps [simp]: "first_match None b = b" "first_match (Some x) b = Some x"
  by (simp_all add: first_match_def)

lemma first_match_Some: "first_match a b = Some m \<Longrightarrow> a = Some m \<or> b = Some m"
  by (cases a) auto

lemma first_match_None [simp]: "first_match a b = None \<longleftrightarrow> a = None \<and> b = None"
  by (cases a) auto

fun match_here :: "elem list \<Rightarrow> bool \<Rightarrow> string \<Rightarrow> string list option" where
  "match_here [] b s = Some []"
| "match_here (Bol # p) b s = (if b then map_option ((#) []) (match_here p b s) else None)"
| "match_here (Eol # p) b s =
     (if s = [] \<or> hd s = newline then map_option ((#) []) (match_here p b s) else None)"
| "match_here (One q # p) b [] = None"
| "match_here (One q # p) b (c # s) =
     (if q c then map_option ((#) [c]) (match_here p (c = newline) s) else None)"
| "match_here (Many g q # p) b [] = map_option ((#) []) (match_here p b [])"
| "match_here (Many g q # p) b (c # s) =
     (let stop = map_option ((#) []) (match_here p b (c # s));
          longer = (if q c
                    then map_option (\<lambda>xs. (c # hd xs) # tl xs)
                           (match_here (Many g q # p) (c = newline) s)
                    else None)
      in if g then first_match longer stop else first_match stop longer)"

text \<open>\<open>search\<close>: the text before the first match, the match and the text after it.\<close>

fun search_pat :: "elem list \<Rightarrow> bool \<Rightarrow> string \<Rightarrow> (string \<times> string list \<times> string) option" where
  "search_pat p b [] = map_option (\<lambda>m. ([], m, [])) (match_here p b [])"
| "search_pat p b (c # s) =
     (case match_here p b (c # s) of
        Some m \<Rightarrow> Some ([], m, drop (length (concat m)) (c # s))
      | None \<Rightarrow> map_option (\<lambda>(x, m, r). (c # x, m, r)) (search_pat p (c = newline) s))"

lemma match_here_pieces:
  "match_here p b s = Some m \<Longrightarrow> length m = length p \<and> (\<exists>r. s = concat m @ r)"
proof (induction p b s arbitrary: m rule: match_here.induct)
  case (7 g q p b c s)
  have stop: "length m = Suc (length p) \<and> (\<exists>r. c # s = concat m @ r)"
    if "map_option ((#) []) (match_here p b (c # s)) = Some m" for m
    using that 7(1) by auto
  have longer: "length m = Suc (length p) \<and> (\<exists>r. c # s = concat m @ r)"
    if "map_option (\<lambda>xs. (c # hd xs) # tl xs) (match_here (Many g q # p) (c = newline) s) = Some m"
      and "q c" for m
  proof -
    from that obtain xs where xs: "match_here (Many g q # p) (c = newline) s = Some xs"
      and m: "m = (c # hd xs) # tl xs" by auto
    from 7(2) [OF _ that(2) xs] obtain r where "length xs = Suc (length p)" "s = concat xs @ r" by auto
    then show ?thesis using m by (cases xs) auto
  qed
  let ?stop = "map_option ((#) []) (match_here p b (c # s))"
  let ?longer = "if q c then map_option (\<lambda>xs. (c # hd xs) # tl xs)
    (match_here (Many g q # p) (c = newline) s) else None"
  have "(if g then first_match ?longer ?stop else first_match ?stop ?longer) = Some m"
    using 7(3) by (simp only: match_here.simps Let_def)
  then have "?stop = Some m \<or> ?longer = Some m" by (auto dest!: first_match_Some split: if_splits)
  then have "length m = Suc (length p) \<and> (\<exists>r. c # s = concat m @ r)"
  proof
    assume "?stop = Some m"
    then show ?thesis by (rule stop)
  next
    assume *: "?longer = Some m"
    show ?thesis
    proof (cases "q c")
      case True
      with * show ?thesis by (intro longer) (simp_all only: if_True)
    next
      case False
      with * show ?thesis by simp
    qed
  qed
  then show ?case by simp
qed (auto split: if_splits)

lemma search_pat_pieces:
  "search_pat p b s = Some (x, m, r) \<Longrightarrow> s = x @ concat m @ r"
proof (induction p b s arbitrary: x m r rule: search_pat.induct)
  case (1 p b)
  then show ?case using match_here_pieces [of p b "[]"] by auto
next
  case (2 p b c s)
  show ?case
  proof (cases "match_here p b (c # s)")
    case None
    with 2 show ?thesis by auto
  next
    case (Some m')
    then obtain r' where "c # s = concat m' @ r'" using match_here_pieces by blast
    moreover have "x = []" "m = m'" "r = drop (length (concat m')) (c # s)"
      using Some 2(2) by auto
    ultimately show ?thesis by simp
  qed
qed

lemma search_pat_progress:
  "search_pat p b s = Some (x, m, r) \<Longrightarrow> concat m \<noteq> [] \<Longrightarrow> length r < length s"
  using search_pat_pieces [of p b s x m r] by (cases "concat m") auto

text \<open>
  \<open>split\<close> and \<open>finditer\<close>: the text before the first match and the matches with the text up to
  the next one. The patterns below never match the empty text, which would end the scan.
\<close>

function split_pat :: "elem list \<Rightarrow> bool \<Rightarrow> string \<Rightarrow> string \<times> (string list \<times> string) list" where
  "split_pat p b s =
     (case search_pat p b s of
        None \<Rightarrow> (s, [])
      | Some (x, m, r) \<Rightarrow>
          if concat m = [] then (s, [])
          else (case split_pat p (last (concat m) = newline) r of
                  (after, later) \<Rightarrow> (x, (m, after) # later)))"
  by pat_completeness auto
termination
  by (relation "measure (\<lambda>(p, b, s). length s)") (auto dest: search_pat_progress)

declare split_pat.simps [simp del]

definition not_newline :: "char \<Rightarrow> bool" where "not_newline c \<longleftrightarrow> c \<noteq> newline"
definition key_char :: "char \<Rightarrow> bool" where "key_char c \<longleftrightarrow> c \<noteq> CHR ''*'' \<and> c \<noteq> newline"

definition literal :: "string \<Rightarrow> elem list" where "literal s = map (\<lambda>c. One ((=) c)) s"

text \<open>\<open>^##\s+(.+?)\s*$\<close>, \<open>^###\s+(.+?)\s*$\<close> and the inline pattern.\<close>

definition heading_pat :: "string \<Rightarrow> elem list" where
  "heading_pat hashes =
     [Bol] @ literal hashes @ [One is_space, Many True is_space, One not_newline,
      Many False not_newline, Many True is_space, Eol]"

definition inline_pat :: "elem list" where
  "inline_pat =
     [Bol] @ literal ''**'' @ [One key_char, Many False key_char] @ literal ''**:''
     @ [Many True is_space, Many False not_newline, Many True is_space, Eol]"

text \<open>The captured groups.\<close>

definition heading_title :: "string \<Rightarrow> string list \<Rightarrow> string" where
  "heading_title hashes m = (let n = length hashes in m ! (n + 3) @ m ! (n + 4))"

definition inline_key :: "string list \<Rightarrow> string" where "inline_key m = m ! 3 @ m ! 4"
definition inline_value :: "string list \<Rightarrow> string" where "inline_value m = m ! 9"

section \<open>Rendering and parsing\<close>

text \<open>An inline value: \<open>None\<close>, a list or anything else, the latter by its \<open>str()\<close> text.\<close>

datatype inline_val = Val_none | Val_list "string list" | Val_str string

fun render_value :: "inline_val \<Rightarrow> string" where
  "render_value Val_none = ''''"
| "render_value (Val_list xs) = ''['' @ join '', '' xs @ '']''"
| "render_value (Val_str s) = s"

definition inline_line :: "string \<times> inline_val \<Rightarrow> string" where
  "inline_line kv = (case kv of (k, v) \<Rightarrow> ''**'' @ k @ ''**: '' @ render_value v)"

definition render_structured_entry ::
  "string option \<Rightarrow> (string \<times> inline_val) list \<Rightarrow> (string \<times> string) list \<Rightarrow> string" where
  "render_structured_entry header inline sections =
     join [newline]
       ((case header of None \<Rightarrow> [] | Some h \<Rightarrow> if h = '''' then [] else [''## '' @ h, ''''])
        @ map inline_line inline
        @ concat (map (\<lambda>(t, b). ['''', ''### '' @ t, rstrip b]) sections))"

text \<open>\<open>strip("\n")\<close>, \<open>strip()\<close>, and a dict filled in order.\<close>

definition strip_newlines :: "string \<Rightarrow> string" where
  "strip_newlines s =
     rev (dropWhile (\<lambda>c. c = newline) (rev (dropWhile (\<lambda>c. c = newline) s)))"

definition strip :: "string \<Rightarrow> string" where
  "strip s = rstrip (dropWhile is_space s)"

definition dict :: "(string \<times> string) list \<Rightarrow> (string \<times> string) list" where
  "dict kvs = fold (\<lambda>(k, v). AList.update k v) kvs []"

record structured_entry = entry +
  se_header :: "string option"
  se_inline :: "(string \<times> string) list"
  se_sections :: "(string \<times> string) list"

definition parse_structured_entry :: "string \<Rightarrow> entry option \<Rightarrow> structured_entry" where
  "parse_structured_entry body origin =
     (let text = strip_newlines body;
          (head, parts) = split_pat (heading_pat ''###'') True text;
          sections = dict (map (\<lambda>(m, content).
            (strip (heading_title ''###'' m), rstrip (strip_newlines content))) parts);
          header = map_option (\<lambda>(x, m, r). strip (heading_title ''##'' m))
                     (search_pat (heading_pat ''##'') True head);
          inline = dict (map (\<lambda>(m, content). (strip (inline_key m), strip (inline_value m)))
                     (snd (split_pat inline_pat True head)));
          e = (case origin of
                 Some e \<Rightarrow> e
               | None \<Rightarrow> \<lparr>e_id = '''', e_body = body, e_start = 0, e_end = length body\<rparr>)
      in \<lparr>e_id = e_id e, e_body = e_body e, e_start = e_start e, e_end = e_end e,
          se_header = header, se_inline = inline, se_sections = sections\<rparr>)"

definition as_structured :: "entry \<Rightarrow> structured_entry" where
  "as_structured e = parse_structured_entry (e_body e) (Some e)"

section \<open>What the patterns match\<close>

lemma match_here_flag: "Bol \<notin> set p \<Longrightarrow> match_here p b s = match_here p b' s"
proof (induction p arbitrary: s)
  case (Cons e p)
  have IH: "match_here p b s = match_here p b' s" for s using Cons by simp
  show ?case
  proof (cases e)
    case (One q)
    then show ?thesis by (cases s) simp_all
  next
    case (Many g q)
    then show ?thesis using IH by (cases s) (simp_all only: match_here.simps)
  qed (use Cons.prems IH in \<open>simp_all\<close>)
qed simp

lemma match_literal:
  "Bol \<notin> set p \<Longrightarrow>
   match_here (literal l @ p) b (l @ s) = map_option ((@) (map (\<lambda>c. [c]) l)) (match_here p b s)"
proof (induction l arbitrary: b)
  case Nil
  then show ?case by (simp add: literal_def option.map_ident)
next
  case (Cons c l)
  have "match_here (literal l @ p) (c = newline) (l @ s) = match_here (literal l @ p) b (l @ s)"
    using Cons.prems by (intro match_here_flag) (auto simp: literal_def)
  then show ?case using Cons by (simp add: literal_def option.map_comp o_def)
qed

lemma match_literal_None: "\<not> starts_with l s \<Longrightarrow> match_here (literal l @ p) b s = None"
proof (induction l arbitrary: b s)
  case Nil
  then show ?case by (simp add: starts_with_def)
next
  case (Cons c l)
  then show ?case by (cases s) (auto simp: literal_def starts_with_def)
qed

abbreviation trail_pat :: "elem list" where "trail_pat \<equiv> [Many True is_space, Eol]"

lemma newline_is_space [simp]: "is_space newline" by (simp add: is_space_def)

lemma trail_None:
  "list_all is_space w \<Longrightarrow> newline \<notin> set w \<Longrightarrow> \<not> is_space x \<Longrightarrow> match_here trail_pat b (w @ x # y) = None"
proof (induction w arbitrary: b)
  case Nil
  then show ?case by auto
next
  case (Cons c w)
  then show ?case by (auto simp: Let_def)
qed

lemma trail_all: "list_all is_space w \<Longrightarrow> match_here trail_pat b w = Some [w, []]"
proof (induction w arbitrary: b)
  case (Cons c w)
  then show ?case by (simp add: Let_def)
qed simp

lemma trail_some:
  assumes "list_all is_space w2" and "newline \<notin> set w2" and "\<not> is_space x"
  shows "list_all is_space w1 \<Longrightarrow>
    match_here trail_pat b (w1 @ newline # w2 @ x # y) = Some [w1, []]"
proof (induction w1 arbitrary: b)
  case Nil
  show ?case using trail_None [OF assms, of True] by (simp add: Let_def)
next
  case (Cons c w)
  then show ?case by (simp add: Let_def)
qed

text \<open>A text of one line with no white space at its ends.\<close>

definition trimmed :: "string \<Rightarrow> bool" where
  "trimmed t \<longleftrightarrow> t \<noteq> [] \<and> newline \<notin> set t \<and> \<not> is_space (hd t) \<and> \<not> is_space (last t)"

lemma first_nonspace:
  assumes "t \<noteq> []" and "\<not> is_space (last t)"
  obtains w x y where "t = w @ x # y" and "list_all is_space w" and "\<not> is_space x"
proof -
  have "dropWhile is_space t \<noteq> []" using assms by (auto simp: dropWhile_eq_Nil_conv)
  then obtain x y where d: "dropWhile is_space t = x # y" by (cases "dropWhile is_space t") auto
  then have "\<not> is_space x" by (metis hd_dropWhile list.distinct(1) list.sel(1))
  moreover have "t = takeWhile is_space t @ x # y" using d by (metis takeWhile_dropWhile_id)
  ultimately show thesis using that set_takeWhileD by (metis list_all_iff)
qed

lemma lazy_line:
  assumes "match_here trail_pat b s = Some m"
  shows "newline \<notin> set t \<Longrightarrow> t = [] \<or> \<not> is_space (last t) \<Longrightarrow>
    match_here (Many False not_newline # trail_pat) b (t @ s) = Some (t # m)"
proof (induction t)
  case Nil
  then show ?case using assms by (cases s) (auto simp: Let_def)
next
  case (Cons c t)
  from Cons.prems obtain w x y where t: "c # t = w @ x # y" "list_all is_space w" "\<not> is_space x"
    using first_nonspace [of "c # t"] by blast
  have "newline \<notin> set w" using Cons.prems t by (metis UnCI set_append)
  then have "match_here trail_pat b (w @ x # (y @ s)) = None" using t by (intro trail_None) auto
  then have stop: "match_here trail_pat b (c # t @ s) = None"
    using t by (metis append_Cons append_assoc)
  have "c = newline \<longleftrightarrow> False" "not_newline c" using Cons.prems by (auto simp: not_newline_def)
  moreover have "match_here (Many False not_newline # trail_pat) False (t @ s) = Some (t # m)"
    using Cons match_here_flag [of "Many False not_newline # trail_pat" False _ b] by (auto split: if_splits)
  ultimately show ?case using stop by (simp add: Let_def del: match_here.simps) (simp only: match_here.simps; simp add: Let_def del: match_here.simps)
qed


lemma match_spaces_one:
  assumes "\<not> is_space c"
  shows "match_here (One is_space # Many True is_space # p) b (CHR '' '' # c # s) =
    map_option (\<lambda>m. '' '' # [] # m) (match_here p False (c # s))"
  using assms by (simp add: is_space_def Let_def option.map_comp o_def)

lemma match_heading:
  assumes "trimmed t" and "match_here trail_pat False s = Some m"
  shows "match_here (heading_pat h) True (h @ '' '' @ t @ s) =
    Some ([] # map (\<lambda>c. [c]) h @ ['' '', [], [hd t], tl t] @ m)"
proof -
  obtain c u where t: "t = c # u" using assms(1) by (cases t) (auto simp: trimmed_def)
  have u: "newline \<notin> set u" "u = [] \<or> \<not> is_space (last u)" "\<not> is_space c" "c \<noteq> newline"
    using assms(1) by (auto simp: trimmed_def t)
  have "match_here (Many False not_newline # trail_pat) False (u @ s) = Some (u # m)"
    using lazy_line [OF assms(2) u(1,2)] .
  then have "match_here (One not_newline # Many False not_newline # trail_pat) False (c # u @ s)
      = Some ([c] # u # m)"
    using u(4) by (subst match_here.simps(5)) (simp add: not_newline_def del: match_here.simps)
  then have "match_here (One is_space # Many True is_space # One not_newline # Many False not_newline # trail_pat)
      True (CHR '' '' # c # u @ s) = Some ('' '' # [] # [c] # u # m)"
    using match_spaces_one [OF u(3), of _ True "u @ s"] by simp
  then show ?thesis
    using match_literal [of "One is_space # Many True is_space # One not_newline # Many False not_newline # trail_pat" h True]
    by (simp add: heading_pat_def t)
qed


definition plain_key :: "string \<Rightarrow> bool" where
  "plain_key k \<longleftrightarrow> trimmed k \<and> CHR ''*'' \<notin> set k"

lemma lazy_key:
  assumes "match_here (literal ''**:'' @ p) False (''**:'' @ s) = Some m"
  shows "list_all key_char u \<Longrightarrow>
    match_here (Many False key_char # literal ''**:'' @ p) False (u @ ''**:'' @ s) = Some (u # m)"
proof (induction u)
  case Nil
  then show ?case using assms by (simp add: Let_def del: match_here.simps) (simp only: match_here.simps Let_def if_False; simp del: match_here.simps)
next
  case (Cons c u)
  have "match_here (literal ''**:'' @ p) False (c # u @ ''**:'' @ s) = None"
    using Cons.prems by (intro match_literal_None) (auto simp: starts_with_def key_char_def)
  moreover have "match_here (Many False key_char # literal ''**:'' @ p) False (u @ ''**:'' @ s) = Some (u # m)"
    using Cons by simp
  moreover have "key_char c" "(c = newline) = False" using Cons.prems by (auto simp: key_char_def)
  ultimately show ?case
    by (simp only: append_Cons match_here.simps Let_def if_False if_True) (simp del: match_here.simps)
qed

lemma match_inline:
  assumes "plain_key k" and "trimmed v" and "match_here trail_pat False s = Some m"
  shows "match_here inline_pat True (''**'' @ k @ ''**: '' @ v @ s) =
    Some ([[], ''*'', ''*'', [hd k], tl k, ''*'', ''*'', '':'', '' '', v] @ m)"
proof -
  obtain c u where k: "k = c # u" using assms(1) by (cases k) (auto simp: trimmed_def plain_key_def)
  have u: "list_all key_char u" "key_char c" "(c = newline) = False"
    using assms(1) by (auto simp: plain_key_def trimmed_def key_char_def k list_all_iff)
  obtain d y where v: "v = d # y" "\<not> is_space d"
    using assms(2) by (cases v) (auto simp: trimmed_def)
  let ?val = "Many False not_newline # trail_pat"
  have val: "match_here ?val False (v @ s) = Some (v # m)"
    using lazy_line [OF assms(3)] assms(2) by (auto simp: trimmed_def)
  have "match_here (Many True is_space # ?val) False (CHR '' '' # v @ s) = Some ('' '' # v # m)"
  proof -
    have "match_here (Many True is_space # ?val) False (v @ s) = Some ([] # v # m)"
      using val v by (simp only: append_Cons match_here.simps Let_def) (simp del: match_here.simps)
    moreover have "is_space CHR '' ''" "(CHR '' '' = newline) = False" by (simp_all add: is_space_def)
    ultimately show ?thesis
      by (simp only: append_Cons match_here.simps Let_def if_True) (simp del: match_here.simps)
  qed
  then have "match_here (literal ''**:'' @ Many True is_space # ?val) False (''**:'' @ CHR '' '' # v @ s)
      = Some ([''*'', ''*'', '':''] @ '' '' # v # m)"
    by (subst match_literal) simp_all
  then have "match_here (Many False key_char # literal ''**:'' @ Many True is_space # ?val) False
      (u @ ''**:'' @ CHR '' '' # v @ s) = Some (u # [''*'', ''*'', '':''] @ '' '' # v # m)"
    by (rule lazy_key) (rule u(1))
  then have "match_here (One key_char # Many False key_char # literal ''**:'' @ Many True is_space # ?val) True
      (c # u @ ''**:'' @ CHR '' '' # v @ s) = Some ([c] # u # [''*'', ''*'', '':''] @ '' '' # v # m)"
    using u by (subst match_here.simps(5)) (simp del: match_here.simps)
  then have "match_here (literal ''**'' @ One key_char # Many False key_char # literal ''**:'' @ Many True is_space # ?val) True
      (''**'' @ c # u @ ''**:'' @ CHR '' '' # v @ s)
      = Some ([''*'', ''*''] @ [c] # u # [''*'', ''*'', '':''] @ '' '' # v # m)"
    by (subst match_literal) (simp_all add: literal_def)
  then show ?thesis by (simp add: inline_pat_def k del: match_here.simps(5-7))
qed


section \<open>Scanning line by line\<close>

text \<open>No line of the text starts with \<open>l\<close>; the flag says whether its start is a line start.\<close>

fun quiet :: "string \<Rightarrow> bool \<Rightarrow> string \<Rightarrow> bool" where
  "quiet l b [] = True"
| "quiet l b (c # s) \<longleftrightarrow> \<not> (b \<and> starts_with l (c # s)) \<and> quiet l (c = newline) s"

lemma quiet_flag: "quiet l True s \<Longrightarrow> quiet l b s"
  by (cases s) auto

lemma starts_with_newline:
  "newline \<notin> set l \<Longrightarrow> starts_with l (x @ newline # s) \<longleftrightarrow> starts_with l x"
proof
  assume nl: "newline \<notin> set l" and "starts_with l (x @ newline # s)"
  then obtain r where "x @ newline # s = l @ r" by (auto simp: starts_with_iff)
  then obtain y where "x = l @ y \<and> y @ newline # s = r \<or> l = x @ y \<and> newline # s = y @ r"
    by (auto simp: append_eq_append_conv2)
  then have "x = l @ y \<or> l = x" using nl by (cases y) auto
  then show "starts_with l x" by (auto simp: starts_with_iff)
qed (auto simp: starts_with_iff)

lemma quiet_newline:
  assumes "newline \<notin> set l" and "l \<noteq> []"
  shows "quiet l b (x @ newline # y) \<longleftrightarrow> quiet l b x \<and> quiet l True y"
proof (induction x arbitrary: b)
  case Nil
  show ?case using assms by (cases l) (auto simp: starts_with_def)
next
  case (Cons c x)
  show ?case using Cons [of "c = newline"] starts_with_newline [OF assms(1), of "c # x" y] by simp
qed

definition line_pat :: "string \<Rightarrow> elem list \<Rightarrow> bool" where
  "line_pat l p \<longleftrightarrow> l \<noteq> [] \<and> newline \<notin> set l \<and> (\<exists>q. p = Bol # literal l @ q)"

lemma line_pat_None: "line_pat l p \<Longrightarrow> \<not> (b \<and> starts_with l s) \<Longrightarrow> match_here p b s = None"
  by (auto simp: line_pat_def match_literal_None)

lemma line_pat_heading: "line_pat ''##'' (heading_pat ''##'')" "line_pat ''###'' (heading_pat ''###'')"
  and line_pat_inline: "line_pat ''**'' inline_pat"
  by (auto simp: line_pat_def heading_pat_def inline_pat_def)

lemma search_quiet_end:
  assumes "line_pat l p"
  shows "quiet l b x \<Longrightarrow> search_pat p b x = None"
proof (induction x arbitrary: b)
  case Nil
  then show ?case using line_pat_None [OF assms, of b "[]"] assms by (auto simp: starts_with_def line_pat_def)
next
  case (Cons c x)
  then show ?case using line_pat_None [OF assms, of b "c # x"] by simp
qed

lemma search_quiet:
  assumes "line_pat l p"
  shows "quiet l b x \<Longrightarrow> search_pat p b (x @ newline # s) =
    map_option (\<lambda>(y, m, r). (x @ newline # y, m, r)) (search_pat p True s)"
proof (induction x arbitrary: b)
  case Nil
  have "\<not> starts_with l (newline # s)" using assms by (cases l) (auto simp: line_pat_def starts_with_def)
  then show ?case using line_pat_None [OF assms, of b "newline # s"] by simp
next
  case (Cons c x)
  have "\<not> (b \<and> starts_with l (c # x @ newline # s))"
    using Cons.prems starts_with_newline [of l "c # x" s] assms by (auto simp: line_pat_def)
  from line_pat_None [OF assms this] Cons show ?case
    by (simp add: option.map_comp o_def case_prod_unfold)
qed

lemma search_at:
  assumes "match_here p b s = Some m" and "s = concat m @ r"
  shows "search_pat p b s = Some ([], m, r)"
proof -
  have "drop (length (concat m)) s = r" using assms(2) by simp
  then show ?thesis using assms(1) by (cases s) simp_all
qed

lemma split_quiet_end: "line_pat l p \<Longrightarrow> quiet l b x \<Longrightarrow> split_pat p b x = (x, [])"
  by (subst split_pat.simps) (simp add: search_quiet_end)

lemma split_quiet:
  assumes "line_pat l p" and "quiet l b x" and "match_here p True s = Some m"
    and "s = concat m @ r" and "concat m \<noteq> []"
  shows "split_pat p b (x @ newline # s) =
    (x @ [newline], (m, fst (split_pat p (last (concat m) = newline) r))
                    # snd (split_pat p (last (concat m) = newline) r))"
  by (subst split_pat.simps)
    (use assms(5) in \<open>simp add: search_quiet [OF assms(1,2)] search_at [OF assms(3,4)]
       case_prod_unfold del: concat_eq_Nil_conv\<close>)


lemma trail_ex:
  assumes "s = [] \<or> hd s = newline"
  obtains w r where "match_here trail_pat b s = Some [w, []]" and "s = w @ r"
proof (cases "list_all is_space s")
  case True
  then show thesis using that [of s "[]"] trail_all by simp
next
  case False
  then have ne: "dropWhile is_space s \<noteq> []" by (auto simp: dropWhile_eq_Nil_conv list_all_iff)
  then obtain x y where x: "dropWhile is_space s = x # y" by (cases "dropWhile is_space s") auto
  then have nx: "\<not> is_space x" by (metis hd_dropWhile list.distinct(1) list.sel(1))
  have s: "s = takeWhile is_space s @ x # y" using x by (metis takeWhile_dropWhile_id)
  have "s \<noteq> []" using ne by auto
  then have "newline \<in> set (takeWhile is_space s)" using assms by (cases s) auto
  then obtain w1 w2 where w: "takeWhile is_space s = w1 @ newline # w2" "newline \<notin> set w2"
    by (meson split_list_last)
  have "list_all is_space (takeWhile is_space s)" by (auto simp: list_all_iff dest: set_takeWhileD)
  then have "list_all is_space w1" "list_all is_space w2" by (simp_all add: w)
  from trail_some [OF this(2) w(2) nx this(1), of b y] s w(1)
  have "match_here trail_pat b s = Some [w1, []]" by simp
  moreover have "s = w1 @ (newline # w2 @ x # y)" using s w(1) by simp
  ultimately show thesis using that by blast
qed

section \<open>Sections are read back\<close>

text \<open>The text of a section after \<open>rstrip\<close>: no white space at its ends and no line like an H3.\<close>

definition plain_content :: "string \<Rightarrow> bool" where
  "plain_content c \<longleftrightarrow>
     c = [] \<or> (\<not> is_space (hd c) \<and> \<not> is_space (last c) \<and> quiet ''###'' True c)"

definition section_line :: "string \<Rightarrow> string" where "section_line t = ''### '' @ t"

fun sections_text :: "(string \<times> string) list \<Rightarrow> string" where
  "sections_text [] = []"
| "sections_text ((t, c) # ss) =
     section_line t @
       (if c = [] then [] else newline # c)
       @ (if ss = [] then []
          else (if c = [] then [newline] else []) @ newline # newline # sections_text ss)"

definition section_of :: "string list \<times> string \<Rightarrow> string \<times> string" where
  "section_of mc = (strip (heading_title ''###'' (fst mc)), rstrip (strip_newlines (snd mc)))"

lemma rstrip_id: "c = [] \<or> \<not> is_space (last c) \<Longrightarrow> rstrip c = c"
  by (cases c rule: rev_cases) (auto simp: rstrip_def)

lemma strip_trimmed: "trimmed t \<Longrightarrow> strip t = t"
  by (cases t) (auto simp: trimmed_def strip_def intro!: rstrip_id)

lemma strip_newlines_pad:
  assumes "c = [] \<or> hd c \<noteq> newline \<and> last c \<noteq> newline"
  shows "strip_newlines (replicate m newline @ c @ replicate n newline) = c"
proof (cases "c = []")
  case True
  have "dropWhile (\<lambda>c. c = newline) (replicate k newline) = []" for k by (induction k) auto
  then show ?thesis by (simp add: strip_newlines_def True flip: replicate_add)
next
  case False
  have drop: "dropWhile (\<lambda>c. c = newline) (replicate k newline @ s) = dropWhile (\<lambda>c. c = newline) s" for k s
    by (induction k) auto
  have "dropWhile (\<lambda>c. c = newline) (c @ u) = c @ u" for u using assms False by (cases c) auto
  moreover have "dropWhile (\<lambda>c. c = newline) (rev c) = rev c"
    using assms False by (cases c rule: rev_cases) auto
  ultimately show ?thesis by (simp add: strip_newlines_def drop)
qed

lemma section_of_content:
  assumes "trimmed t" and "plain_content c"
    and "content = replicate m newline @ c @ replicate n newline"
    and "heading_title ''###'' x = t"
  shows "section_of (x, content) = (t, c)"
proof -
  have "c = [] \<or> hd c \<noteq> newline \<and> last c \<noteq> newline"
    using assms(2) newline_is_space by (auto simp: plain_content_def)
  then have "strip_newlines content = c" using strip_newlines_pad assms(3) by simp
  moreover have "rstrip c = c" using assms(2) by (intro rstrip_id) (auto simp: plain_content_def)
  ultimately show ?thesis by (simp add: section_of_def assms(4) strip_trimmed [OF assms(1)])
qed


lemma trail_one_newline:
  assumes "c \<noteq> []" and "\<not> is_space (hd c)"
  shows "match_here trail_pat b (newline # c @ s) = Some [[], []]"
proof -
  obtain x y where "c = x # y" "\<not> is_space x" using assms by (cases c) auto
  then show ?thesis using trail_some [of "[]" x "[]" b "y @ s"] by simp
qed

lemma heading_title_eq:
  "trimmed t \<Longrightarrow>
   heading_title h ([] # map (\<lambda>c. [c]) h @ ['' '', [], [hd t], tl t] @ m) = t"
  by (auto simp: heading_title_def trimmed_def Let_def nth_append)

definition heading_pieces :: "string \<Rightarrow> string \<Rightarrow> string \<Rightarrow> string list" where
  "heading_pieces h t w = [] # map (\<lambda>c. [c]) h @ ['' '', [], [hd t], tl t, w, []]"

lemma concat_heading_pieces: "trimmed t \<Longrightarrow> concat (heading_pieces h t w) = h @ '' '' @ t @ w"
  by (cases t) (simp_all add: heading_pieces_def trimmed_def concat_map_singleton)

lemma split_heading:
  assumes "trimmed t" and "quiet ''###'' b x" and "match_here trail_pat False (w @ r) = Some [w, []]"
  shows "split_pat (heading_pat ''###'') b (x @ newline # section_line t @ w @ r) =
    (let rest = split_pat (heading_pat ''###'') (last (t @ w) = newline) r
     in (x @ [newline], (heading_pieces ''###'' t w, fst rest) # snd rest))"
proof -
  let ?m = "heading_pieces ''###'' t w"
  have c: "concat ?m = ''### '' @ t @ w" using concat_heading_pieces [OF assms(1)] by simp
  have "t \<noteq> []" using assms(1) by (simp add: trimmed_def)
  then have l: "last (concat ?m) = last (t @ w)" unfolding c by simp
  have "match_here (heading_pat ''###'') True (section_line t @ w @ r) = Some ?m"
    using match_heading [OF assms(1,3), of "''###''"] by (simp add: section_line_def heading_pieces_def)
  then have "split_pat (heading_pat ''###'') b (x @ newline # section_line t @ w @ r) =
     (x @ [newline], (?m, fst (split_pat (heading_pat ''###'') (last (concat ?m) = newline) r))
                    # snd (split_pat (heading_pat ''###'') (last (concat ?m) = newline) r))"
    by (rule split_quiet [OF line_pat_heading(2) assms(2)]) (simp_all add: c section_line_def)
  then show ?thesis by (simp add: l Let_def)
qed

lemma split_sections:
  assumes "quiet ''###'' b x" and "ss \<noteq> []"
    and "list_all (\<lambda>(t, c). trimmed t \<and> plain_content c) ss"
  shows "\<exists>parts. split_pat (heading_pat ''###'') b (x @ newline # sections_text ss) =
      (x @ [newline], parts) \<and> map section_of parts = ss"
  using assms
proof (induction ss arbitrary: b x rule: sections_text.induct)
  case 1
  then show ?case by simp
next
  case (2 t c ss)
  then have tc: "trimmed t" "plain_content c" by simp_all
  let ?split = "split_pat (heading_pat ''###'')"
  have title: "heading_title ''###'' (heading_pieces ''###'' t w) = t" for w
    using heading_title_eq [OF tc(1), of "''###''" "[w, []]"] by (simp add: heading_pieces_def)
  note sec = section_of_content [OF tc _ title]
  consider (a) "c = []" "ss = []" | (b) "c = []" "ss \<noteq> []" | (c) "c \<noteq> []" "ss = []"
    | (d) "c \<noteq> []" "ss \<noteq> []" by blast
  then show ?case
  proof cases
    case a
    have "match_here trail_pat False ([] @ []) = Some [[], []]" by simp
    from split_heading [OF tc(1) 2(2) this] a show ?thesis
      using sec [of "[]" 0 0] by (auto simp: Let_def split_quiet_end [OF line_pat_heading(2)])
  next
    case b
    have hash: "sections_text ss = CHR ''#'' # tl (sections_text ss)"
      using b by (cases ss rule: sections_text.cases) (simp_all add: section_line_def)
    have "match_here trail_pat False ([newline, newline] @ newline # sections_text ss)
        = Some [[newline, newline], []]"
      using trail_some [of "[]" "CHR ''#''" "[newline, newline]" False "tl (sections_text ss)"] hash
      by (simp add: is_space_def)
    from split_heading [OF tc(1) 2(2) this] b
    show ?thesis
      using 2(1) [of "last (t @ [newline, newline]) = newline" "[]"] 2(4) sec [of "[newline]" 0 1]
      by (auto simp: Let_def)
  next
    case c
    then have ns: "\<not> is_space (hd c)" and q: "quiet ''###'' True c" using tc by (auto simp: plain_content_def)
    have "match_here trail_pat False ([] @ newline # c) = Some [[], []]"
      using trail_one_newline [OF c(1) ns, of False "[]"] by simp
    from split_heading [OF tc(1) 2(2) this]
    have "?split b (x @ newline # sections_text ((t, c) # ss)) = (x @ [newline], [(heading_pieces ''###'' t [], newline # c)])"
      using q c by (simp add: Let_def split_quiet_end [OF line_pat_heading(2)] starts_with_def)
    then show ?thesis using sec [of "newline # c" 1 0] c by simp
  next
    case d
    then have ns: "\<not> is_space (hd c)" and q: "quiet ''###'' True c" using tc by (auto simp: plain_content_def)
    have q': "quiet ''###'' b' (newline # c @ [newline])" for b'
      using q by (simp add: starts_with_def quiet_newline [of "''###''" _ c "[]", simplified])
    have "match_here trail_pat False ([] @ newline # c @ [newline] @ newline # sections_text ss) = Some [[], []]"
      using trail_one_newline [OF d(1) ns, of False "newline # newline # sections_text ss"] by simp
    from split_heading [OF tc(1) 2(2) this]
    show ?thesis using 2(1) [OF d(2) q' d(2), of "last (t @ []) = newline"] 2(4) d sec [of "newline # c @ [newline, newline]" 1 2]
      by (auto simp: Let_def numeral_2_eq_2)
  qed
qed


section \<open>Inline fields are read back\<close>

definition field_line :: "string \<times> string \<Rightarrow> string" where
  "field_line kv = ''**'' @ fst kv @ ''**: '' @ snd kv"

definition inline_of :: "string list \<times> string \<Rightarrow> string \<times> string" where
  "inline_of mc = (strip (inline_key (fst mc)), strip (inline_value (fst mc)))"

definition field_pieces :: "string \<Rightarrow> string \<Rightarrow> string \<Rightarrow> string list" where
  "field_pieces k v w = [[], ''*'', ''*'', [hd k], tl k, ''*'', ''*'', '':'', '' '', v, w, []]"

lemma inline_of_pieces: "plain_key k \<Longrightarrow> trimmed v \<Longrightarrow> inline_of (field_pieces k v w, u) = (k, v)"
  by (auto simp: inline_of_def field_pieces_def inline_key_def inline_value_def plain_key_def
        strip_trimmed trimmed_def)

lemma split_field:
  assumes "plain_key k" and "trimmed v" and "quiet ''**'' b x"
    and "match_here trail_pat False (w @ r) = Some [w, []]"
  shows "split_pat inline_pat b (x @ newline # field_line (k, v) @ w @ r) =
    (let rest = split_pat inline_pat (last (v @ w) = newline) r
     in (x @ [newline], (field_pieces k v w, fst rest) # snd rest))"
proof -
  let ?m = "field_pieces k v w"
  have "k \<noteq> []" "v \<noteq> []" using assms by (auto simp: plain_key_def trimmed_def)
  then have c: "concat ?m = field_line (k, v) @ w" and l: "last (concat ?m) = last (v @ w)"
    by (simp_all add: field_pieces_def field_line_def)
  have "match_here inline_pat True (field_line (k, v) @ w @ r) = Some ?m"
    using match_inline [OF assms(1,2,4)] by (simp add: field_line_def field_pieces_def)
  then have "split_pat inline_pat b (x @ newline # field_line (k, v) @ w @ r) =
     (x @ [newline], (?m, fst (split_pat inline_pat (last (concat ?m) = newline) r))
                    # snd (split_pat inline_pat (last (concat ?m) = newline) r))"
    by (rule split_quiet [OF line_pat_inline assms(3)]) (simp_all only: c append_assoc, simp add: field_line_def)
  then show ?thesis by (simp only: l Let_def)
qed

lemma split_fields:
  assumes "quiet ''**'' b x" and "kvs \<noteq> []" and "list_all (\<lambda>(k, v). plain_key k \<and> trimmed v) kvs"
    and "list_all (\<lambda>c. c = newline) z"
  shows "map inline_of (snd (split_pat inline_pat b (x @ newline # join [newline] (map field_line kvs) @ z))) = kvs"
  using assms(1-3)
proof (induction kvs arbitrary: b x)
  case Nil
  then show ?case by simp
next
  case (Cons kv kvs)
  obtain k v where kv: "kv = (k, v)" by fastforce
  with Cons.prems have k: "plain_key k" and v: "trimmed v" by simp_all
  show ?case
  proof (cases "kvs = []")
    case True
    have "list_all is_space z" using assms(4) by (rule list.pred_mono_strong) simp
    then have "match_here trail_pat False (z @ []) = Some [z, []]" using trail_all by simp
    from split_field [OF k v Cons.prems(1) this] show ?thesis
      by (simp add: True kv Let_def inline_of_pieces k v split_quiet_end [OF line_pat_inline])
  next
    case False
    let ?s = "join [newline] (map field_line kvs) @ z"
    have j: "join [newline] (field_line (k, v) # map field_line kvs) = field_line (k, v) @ newline # join [newline] (map field_line kvs)"
      using False by (cases kvs) (simp_all add: kv)
    have "\<exists>y. ?s = CHR ''*'' # y"
      using False by (cases kvs; cases "tl kvs") (auto simp: field_line_def)
    then obtain y where y: "?s = CHR ''*'' # y" by blast
    then have "match_here trail_pat False ([] @ newline # ?s) = Some [[], []]"
      using trail_some [of "[]" "CHR ''*''" "[]" False y] by (simp add: is_space_def)
    note head = split_field [OF k v Cons.prems(1) this]
    have "map inline_of (snd (split_pat inline_pat (last (v @ []) = newline) ([] @ newline # ?s))) = kvs"
      using False Cons.prems(3) by (intro Cons.IH) simp_all
    then show ?thesis
      using head by (simp add: j kv Let_def inline_of_pieces [OF k v] del: join.simps)
  qed
qed

lemma update_new: "k \<notin> fst ` set xs \<Longrightarrow> AList.update k v xs = xs @ [(k, v)]"
  by (induction xs) auto

lemma dict_distinct:
  assumes "distinct (map fst kvs)"
  shows "dict kvs = kvs"
proof -
  have "fold (\<lambda>(k, v). AList.update k v) kvs xs = xs @ kvs" if "distinct (map fst (xs @ kvs))" for xs
    using that by (induction kvs arbitrary: xs) (auto simp: update_new image_Un)
  from this [of "[]"] assms show ?thesis by (simp add: dict_def)
qed

section \<open>The round trip\<close>

lemma join_Cons: "ys \<noteq> [] \<Longrightarrow> join sep (x # ys) = x @ sep @ join sep ys"
  by (cases ys) auto

lemma join_append:
  "xs \<noteq> [] \<Longrightarrow> ys \<noteq> [] \<Longrightarrow> join sep (xs @ ys) = join sep xs @ sep @ join sep ys"
proof (induction xs)
  case (Cons x xs)
  then show ?case by (cases "xs = []") (simp_all add: join_Cons del: join.simps(3))
qed simp

definition section_lines :: "string \<times> string \<Rightarrow> string list" where
  "section_lines tc = [[], section_line (fst tc), snd tc]"

definition end_pad :: "(string \<times> string) list \<Rightarrow> string" where
  "end_pad ss = (if snd (last ss) = [] then [newline] else [])"

lemma join_sections:
  "ss \<noteq> [] \<Longrightarrow> join [newline] (concat (map section_lines ss)) = newline # sections_text ss @ end_pad ss"
proof (induction ss rule: sections_text.induct)
  case (2 t c ss)
  show ?case
  proof (cases "ss = []")
    case True
    then show ?thesis by (simp add: section_lines_def end_pad_def)
  next
    case False
    then have "concat (map section_lines ss) \<noteq> []" by (cases ss) (auto simp: section_lines_def)
    then show ?thesis
      using 2(1) False
      by (simp add: section_lines_def [of "(t, c)"] end_pad_def join_Cons del: join.simps(3))
  qed
qed simp

definition core_text :: "string \<Rightarrow> (string \<times> string) list \<Rightarrow> (string \<times> string) list \<Rightarrow> string" where
  "core_text h kvs ss = ''## '' @ h
     @ (if kvs = [] then [] else newline # newline # join [newline] (map field_line kvs))
     @ (if ss = [] then []
        else (if kvs = [] then [newline] else []) @ newline # newline # sections_text ss)"

definition rendered :: "(string \<times> inline_val) list \<Rightarrow> (string \<times> string) list" where
  "rendered inline = map (\<lambda>(k, v). (k, render_value v)) inline"

definition stripped :: "(string \<times> string) list \<Rightarrow> (string \<times> string) list" where
  "stripped sections = map (\<lambda>(t, b). (t, rstrip b)) sections"

lemma render_core:
  assumes "h \<noteq> []"
  shows "\<exists>n. render_structured_entry (Some h) inline sections
     = core_text h (rendered inline) (stripped sections) @ replicate n newline"
proof -
  let ?kvs = "rendered inline" and ?ss = "stripped sections"
  have il: "map inline_line inline = map field_line ?kvs"
    by (simp add: rendered_def inline_line_def field_line_def case_prod_unfold)
  have sl: "concat (map (\<lambda>(t, b). [[], ''### '' @ t, rstrip b]) sections) = concat (map section_lines ?ss)"
    by (simp add: stripped_def section_lines_def section_line_def case_prod_unfold o_def)
  have pad: "end_pad ss = replicate (length (end_pad ss)) newline" for ss by (simp add: end_pad_def)
  have sne: "concat (map section_lines ?ss) \<noteq> [] \<longleftrightarrow> ?ss \<noteq> []"
    by (cases ?ss) (auto simp: section_lines_def)
  have r: "render_structured_entry (Some h) inline sections
     = join [newline] ([''## '' @ h, []] @ map field_line ?kvs @ concat (map section_lines ?ss))"
    unfolding render_structured_entry_def il sl using assms by simp
  consider "?kvs = []" "?ss = []" | "?kvs \<noteq> []" "?ss = []" | "?kvs = []" "?ss \<noteq> []" | "?kvs \<noteq> []" "?ss \<noteq> []"
    by blast
  then show ?thesis
  proof cases
    case 1
    then show ?thesis by (intro exI [of _ 1]) (simp add: r core_text_def)
  next
    case 2
    have "join [newline] ([''## '' @ h, []] @ map field_line ?kvs)
        = ''## '' @ h @ newline # newline # join [newline] (map field_line ?kvs)"
      using 2 by (subst join_append) (simp_all add: join_Cons)
    then show ?thesis using 2 by (intro exI [of _ 0]) (simp add: r core_text_def)
  next
    case 3
    have "join [newline] ([''## '' @ h, []] @ concat (map section_lines ?ss))
        = (''## '' @ h @ [newline]) @ newline # newline # sections_text ?ss @ end_pad ?ss"
      using 3 sne by (subst join_append) (simp_all add: join_Cons join_sections)
    then show ?thesis using 3 pad [of ?ss]
      by (intro exI [of _ "length (end_pad ?ss)"]) (simp add: r core_text_def)
  next
    case 4
    have "join [newline] (([''## '' @ h, []] @ map field_line ?kvs) @ concat (map section_lines ?ss))
        = (''## '' @ h @ newline # newline # join [newline] (map field_line ?kvs)) @ newline # newline # sections_text ?ss @ end_pad ?ss"
      using 4 sne by (subst join_append) (simp_all add: join_append join_Cons join_sections)
    then show ?thesis using 4 pad [of ?ss]
      by (intro exI [of _ "length (end_pad ?ss)"]) (simp add: r core_text_def)
  qed
qed

lemma quiet_line: "newline \<notin> set x \<Longrightarrow> l \<noteq> [] \<Longrightarrow> quiet l b x \<longleftrightarrow> \<not> (b \<and> starts_with l x)"
proof (induction x arbitrary: b)
  case Nil
  then show ?case by (cases l) (auto simp: starts_with_def)
next
  case (Cons c x)
  then show ?case by (cases "c = newline") auto
qed

lemma quiet_newlines: "newline \<notin> set l \<Longrightarrow> l \<noteq> [] \<Longrightarrow> quiet l b x \<Longrightarrow> quiet l b (x @ replicate n newline)"
proof (induction n)
  case (Suc n)
  then show ?case
    using quiet_newline [of l b "x @ replicate n newline" "[]"] by (simp flip: replicate_append_same)
qed simp

lemma quiet_fields:
  "list_all (\<lambda>(k, v). plain_key k \<and> trimmed v) kvs \<Longrightarrow>
   quiet ''###'' b (join [newline] (map field_line kvs))"
proof (induction kvs arbitrary: b)
  case (Cons kv kvs)
  have "newline \<notin> set (field_line kv)"
    using Cons.prems by (auto simp: field_line_def plain_key_def trimmed_def)
  then have "quiet ''###'' b (field_line kv)" for b
    by (subst quiet_line) (auto simp: starts_with_def field_line_def)
  then show ?case using Cons quiet_newline [of "''###''" b "field_line kv"]
    by (cases "kvs = []") (simp_all add: join_Cons del: join.simps(3))
qed simp

lemma last_fields:
  "kvs \<noteq> [] \<Longrightarrow> list_all (\<lambda>(k, v). trimmed v) kvs \<Longrightarrow>
   join [newline] (map field_line kvs) \<noteq> [] \<and> last (join [newline] (map field_line kvs)) \<noteq> newline"
proof (induction kvs)
  case (Cons kv kvs)
  have "snd kv \<noteq> []" "last (snd kv) \<noteq> newline"
    using Cons.prems newline_is_space by (auto simp: trimmed_def)
  then show ?case
    using Cons by (cases "kvs = []") (auto simp: join_Cons field_line_def simp del: join.simps(3))
qed simp

lemma last_sections:
  "ss \<noteq> [] \<Longrightarrow> list_all (\<lambda>(t, c). trimmed t \<and> plain_content c) ss \<Longrightarrow>
   sections_text ss \<noteq> [] \<and> last (sections_text ss) \<noteq> newline"
proof (induction ss rule: sections_text.induct)
  case (2 t c ss)
  have "t \<noteq> []" "last t \<noteq> newline" "c \<noteq> [] \<longrightarrow> last c \<noteq> newline"
    using 2(3) newline_is_space by (auto simp: trimmed_def plain_content_def)
  then show ?case using 2 by (cases "ss = []") (auto simp: section_line_def)
qed simp

definition head_text :: "string \<Rightarrow> (string \<times> string) list \<Rightarrow> string" where
  "head_text h kvs = ''## '' @ h
     @ (if kvs = [] then [] else newline # newline # join [newline] (map field_line kvs))"

definition readable :: "string \<Rightarrow> (string \<times> string) list \<Rightarrow> (string \<times> string) list \<Rightarrow> bool" where
  "readable h kvs ss \<longleftrightarrow> trimmed h
     \<and> list_all (\<lambda>(k, v). plain_key k \<and> trimmed v) kvs \<and> distinct (map fst kvs)
     \<and> list_all (\<lambda>(t, c). trimmed t \<and> plain_content c) ss \<and> distinct (map fst ss)"

lemma core_text_split:
  "core_text h kvs ss = (if ss = [] then head_text h kvs
     else (head_text h kvs @ (if kvs = [] then [newline, newline] else [newline])) @ newline # sections_text ss)"
  by (simp add: core_text_def head_text_def)

lemma core_text_ends:
  assumes "readable h kvs ss"
  shows "core_text h kvs ss \<noteq> []" and "hd (core_text h kvs ss) \<noteq> newline"
    and "last (core_text h kvs ss) \<noteq> newline"
proof -
  have h: "h \<noteq> []" "last h \<noteq> newline" using assms newline_is_space by (auto simp: readable_def trimmed_def)
  show "core_text h kvs ss \<noteq> []" "hd (core_text h kvs ss) \<noteq> newline" by (simp_all add: core_text_def)
  have "list_all (\<lambda>(k, v). trimmed v) kvs" using assms by (auto simp: readable_def list_all_iff)
  then show "last (core_text h kvs ss) \<noteq> newline"
    using assms last_fields [of kvs] last_sections [of ss] h
    by (simp add: core_text_split head_text_def readable_def)
qed

lemma quiet_head: "readable h kvs ss \<Longrightarrow> quiet ''###'' True (head_text h kvs)"
proof -
  assume r: "readable h kvs ss"
  then have "newline \<notin> set (''## '' @ h)" by (simp add: readable_def trimmed_def)
  then have 1: "quiet ''###'' True (''## '' @ h)" by (subst quiet_line) (auto simp: starts_with_def)
  have 2: "quiet ''###'' True (newline # join [newline] (map field_line kvs))"
    using quiet_fields r by (simp add: readable_def starts_with_def)
  show ?thesis using 1 2 quiet_newline [of "''###''" True "''## '' @ h"] by (simp add: head_text_def)
qed

lemma head_header:
  assumes "trimmed h" and "list_all (\<lambda>c. c = newline) z"
  shows "map_option (\<lambda>(x, m, r). strip (heading_title ''##'' m))
    (search_pat (heading_pat ''##'') True (head_text h kvs @ z)) = Some h"
proof -
  let ?s = "(if kvs = [] then [] else newline # newline # join [newline] (map field_line kvs)) @ z"
  have "?s = [] \<or> hd ?s = newline" using assms(2) by (cases z) auto
  then obtain w r where m: "match_here trail_pat False ?s = Some [w, []]" and s: "?s = w @ r"
    by (rule trail_ex)
  have t: "head_text h kvs @ z = ''##'' @ '' '' @ h @ ?s" by (simp add: head_text_def)
  have "match_here (heading_pat ''##'') True (head_text h kvs @ z) = Some (heading_pieces ''##'' h w)"
    using match_heading [OF assms(1) m, of "''##''"] unfolding t heading_pieces_def by simp
  moreover have "head_text h kvs @ z = concat (heading_pieces ''##'' h w) @ r"
    unfolding t concat_heading_pieces [OF assms(1)] s by simp
  ultimately have "search_pat (heading_pat ''##'') True (head_text h kvs @ z) = Some ([], heading_pieces ''##'' h w, r)"
    by (rule search_at)
  moreover have "heading_title ''##'' (heading_pieces ''##'' h w) = h"
    using heading_title_eq [OF assms(1), of "''##''" "[w, []]"] by (simp add: heading_pieces_def)
  ultimately show ?thesis by (simp add: strip_trimmed [OF assms(1)])
qed

lemma head_inline:
  assumes "readable h kvs ss" and "z = replicate n newline"
  shows "map inline_of (snd (split_pat inline_pat True (head_text h kvs @ z))) = kvs"
proof -
  have q: "quiet ''**'' True (''## '' @ h)"
    using assms(1) by (subst quiet_line) (auto simp: starts_with_def readable_def trimmed_def)
  show ?thesis
  proof (cases "kvs = []")
    case True
    then have "quiet ''**'' True (head_text h kvs @ z)"
      using quiet_newlines [OF _ _ q, of n] by (simp add: head_text_def assms(2))
    then show ?thesis by (simp add: True split_quiet_end [OF line_pat_inline])
  next
    case False
    have "quiet ''**'' True (''## '' @ h @ [newline])" using quiet_newlines [OF _ _ q, of 1] by simp
    from split_fields [OF this False, of z] assms False show ?thesis
      by (simp add: head_text_def readable_def list_all_iff)
  qed
qed

lemma render_parse:
  assumes "readable h (rendered inline) (stripped sections)"
  shows "let p = parse_structured_entry (render_structured_entry (Some h) inline sections) origin
         in se_header p = Some h \<and> se_inline p = rendered inline \<and> se_sections p = stripped sections"
proof -
  let ?kvs = "rendered inline" and ?ss = "stripped sections"
  let ?core = "core_text h ?kvs ?ss"
  have "h \<noteq> []" using assms by (simp add: readable_def trimmed_def)
  from render_core [OF this] obtain n where
    r: "render_structured_entry (Some h) inline sections = ?core @ replicate n newline" by blast
  have body: "strip_newlines (render_structured_entry (Some h) inline sections) = ?core"
    using strip_newlines_pad [of ?core 0 n] core_text_ends [OF assms] by (simp add: r)
  have "\<exists>parts k. split_pat (heading_pat ''###'') True ?core = (head_text h ?kvs @ replicate k newline, parts)
      \<and> map section_of parts = ?ss"
  proof (cases "?ss = []")
    case True
    then show ?thesis
      using split_quiet_end [OF line_pat_heading(2) quiet_head [OF assms]]
      by (intro exI [of _ "[]"] exI [of _ 0]) (simp add: core_text_split)
  next
    case False
    let ?k = "if ?kvs = [] then 2 else 1"
    have x: "(if ?kvs = [] then [newline, newline] else [newline]) = replicate ?k newline"
      by (simp add: numeral_2_eq_2)
    have "quiet ''###'' True (head_text h ?kvs @ replicate ?k newline)"
      using quiet_head [OF assms] by (intro quiet_newlines) auto
    from split_sections [OF this False] assms obtain parts where
      "split_pat (heading_pat ''###'') True ?core = ((head_text h ?kvs @ replicate ?k newline) @ [newline], parts)"
      "map section_of parts = ?ss"
      using False by (auto simp: core_text_split x readable_def)
    then show ?thesis by (intro exI [of _ parts] exI [of _ "Suc ?k"]) (simp add: replicate_append_same)
  qed
  then obtain parts k where
    s: "split_pat (heading_pat ''###'') True ?core = (head_text h ?kvs @ replicate k newline, parts)"
    and ss: "map section_of parts = ?ss" by blast
  have "trimmed h" using assms by (simp add: readable_def)
  note hd = head_header [OF this, of "replicate k newline" ?kvs]
  have ss': "map (\<lambda>(m, content). (strip (heading_title ''###'' m), rstrip (strip_newlines content))) parts = ?ss"
    using ss unfolding section_of_def [abs_def] case_prod_unfold .
  have il': "map (\<lambda>(m, content). (strip (inline_key m), strip (inline_value m)))
      (snd (split_pat inline_pat True (head_text h ?kvs @ replicate k newline))) = ?kvs"
    using head_inline [OF assms refl, of k] unfolding inline_of_def [abs_def] case_prod_unfold .
  have "dict ?kvs = ?kvs" "dict ?ss = ?ss" using assms by (auto simp: readable_def intro: dict_distinct)
  then show ?thesis
    using hd by (simp add: parse_structured_entry_def Let_def body s ss' il' list_all_iff)
qed

text \<open>
  C39: an entry written in audit form is read back: header, inline fields and sections, when
  header, keys and titles are single trimmed lines, inline values are not empty and no line
  of a section starts like an H3.
\<close>

theorem rendered_entry_is_read_back:
  assumes "readable h (rendered inline) (stripped sections)"
  shows "let p = parse_structured_entry (render_structured_entry (Some h) inline sections) origin
         in se_header p = Some h \<and> se_inline p = rendered inline \<and> se_sections p = stripped sections"
  by (rule render_parse [OF assms])

theorem rendered_entry_is_read_back_witness:
  "se_inline (parse_structured_entry
     (render_structured_entry (Some ''ep_1'') [(''owner_id'', Val_str ''u1''), (''sender_ids'', Val_list [''u1'', ''u2''])]
        [(''Content'', ''hi '')]) None) = [(''owner_id'', ''u1''), (''sender_ids'', ''[u1, u2]'')]"
proof -
  let ?inline = "[(''owner_id'', Val_str ''u1''), (''sender_ids'', Val_list [''u1'', ''u2''])]"
  have "readable ''ep_1'' (rendered ?inline) (stripped [(''Content'', ''hi '')])" by code_simp
  from rendered_entry_is_read_back [OF this, of None] have
    "se_inline (parse_structured_entry (render_structured_entry (Some ''ep_1'') ?inline [(''Content'', ''hi '')]) None)
      = rendered ?inline" by (simp add: Let_def)
  moreover have "rendered ?inline = [(''owner_id'', ''u1''), (''sender_ids'', ''[u1, u2]'')]" by code_simp
  ultimately show ?thesis by simp
qed

section \<open>Two texts that are not read back\<close>

lemma rendered_heading_inside:
  assumes "c2 \<noteq> []" and "\<not> is_space (last c2)" and "rstrip c = c"
  shows "render_structured_entry header inline [(t, c @ [newline, newline] @ ''### '' @ t2 @ newline # c2)] =
         render_structured_entry header inline [(t, c), (t2, c2)]"
proof -
  let ?pre = "(case header of None \<Rightarrow> [] | Some h \<Rightarrow> if h = [] then [] else [''## '' @ h, []]) @ map inline_line inline"
  have r: "rstrip (c @ [newline, newline] @ ''### '' @ t2 @ newline # c2) = c @ [newline, newline] @ ''### '' @ t2 @ newline # c2"
    "rstrip c2 = c2"
    using assms by (auto intro!: rstrip_id)
  have "join [newline] (xs @ [[], ''### '' @ t, c @ [newline, newline] @ ''### '' @ t2 @ newline # c2])
      = join [newline] (xs @ [[], ''### '' @ t, c, [], ''### '' @ t2, c2])" for xs
    by (cases "xs = []") (simp_all add: join_append)
  from this [of ?pre] show ?thesis
    unfolding render_structured_entry_def list.map concat.simps prod.case r assms(3) by simp
qed

text \<open>
  A section whose text contains an H3 line of its own, which Markdown written by a
  language model often does, is cut there when it is read back: the rest of the text becomes
  a section named after that line.
\<close>

lemma heading_in_section_cuts_it:
  assumes "readable h (rendered inline) [(t, c), (t2, c2)]" and "c2 \<noteq> []"
  shows "se_sections (parse_structured_entry
           (render_structured_entry (Some h) inline [(t, c @ [newline, newline] @ ''### '' @ t2 @ newline # c2)])
           origin) = [(t, c), (t2, c2)]"
proof -
  have c: "rstrip c = c" "rstrip c2 = c2" "\<not> is_space (last c2)"
    using assms by (auto simp: readable_def plain_content_def intro: rstrip_id)
  then have "stripped [(t, c), (t2, c2)] = [(t, c), (t2, c2)]" by (simp add: stripped_def)
  then show ?thesis
    using render_parse [of h inline "[(t, c), (t2, c2)]" origin]
      rendered_heading_inside [OF assms(2) c(3,1)] assms(1) by (simp add: Let_def)
qed

lemma heading_in_section_cuts_it_witness:
  "se_sections (parse_structured_entry
     (render_structured_entry (Some ''ac_1'') []
        [(''Approach'', ''plan'' @ [newline, newline] @ ''### '' @ ''Step 1'' @ newline # ''build'')]) None)
   = [(''Approach'', ''plan''), (''Step 1'', ''build'')]"
  by (rule heading_in_section_cuts_it) code_simp+

text \<open>An inline value that is empty takes the next field as its value.\<close>

lemma empty_value_takes_next_field:
  "se_inline (parse_structured_entry
     (render_structured_entry (Some ''ep_1'')
        [(''session_id'', Val_none), (''parent_id'', Val_str ''mc_7'')] []) None)
   = [(''session_id'', ''**parent_id**: mc_7'')]"
  by code_simp

end
