(* ===== verification/Frontmatter.thy ===== *)
theory Frontmatter
  imports Structured_Entries Kind_Registry
begin

text \<open>
  Markdown documents: the frontmatter block (\<open>core/persistence/markdown/frontmatter.py\<close>), the
  reader that splits a document (\<open>reader.py\<close>, \<open>parsed.py\<close>) and the directory names made
  from free text (\<open>path_safety.py\<close>). PyYAML is a parameter with the laws of the locale
  \<open>yaml_codec\<close>.
\<close>

section \<open>YAML\<close>

text \<open>Frontmatter values: integers, texts, lists of texts, mappings of texts and \<open>None\<close>.\<close>

datatype fm_value =
  Fm_none | Fm_int int | Fm_text string | Fm_list "string list" | Fm_dict "(string \<times> string) list"

type_synonym meta = "(string \<times> fm_value) list"

text \<open>What \<open>yaml.safe_load\<close> gives: it may raise, give \<open>None\<close>, a mapping or another value.\<close>

datatype yaml_result = Yaml_raises | Yaml_null | Yaml_mapping meta | Yaml_other

record yaml =
  y_load :: "string \<Rightarrow> yaml_result"
  y_dump :: "meta \<Rightarrow> string"

datatype md_error =
  Yaml_error | File_not_found_error | Path_traversal | Value_error | Type_error

definition meta_get :: "meta \<Rightarrow> string \<Rightarrow> fm_value option" where
  "meta_get m k = map_of m k"

definition meta_update :: "meta \<Rightarrow> meta \<Rightarrow> meta" where
  "meta_update m updates = fold (\<lambda>(k, v). AList.update k v) updates m"

section \<open>The frontmatter block\<close>

definition delim :: string where "delim = ''---''"

abbreviation carriage_return :: char where "carriage_return \<equiv> CHR 0x0D"

definition rstrip_cr :: "string \<Rightarrow> string" where
  "rstrip_cr s = rev (dropWhile (\<lambda>c. c = carriage_return) (rev s))"

function find_closing_delim :: "nat \<Rightarrow> string \<Rightarrow> nat option" where
  "find_closing_delim pos s =
     (if s = [] then None
      else let line = takeWhile (\<lambda>c. c \<noteq> newline) s
           in if rstrip_cr line = delim then Some pos
              else (case dropWhile (\<lambda>c. c \<noteq> newline) s of
                      [] \<Rightarrow> None
                    | _ # t \<Rightarrow> find_closing_delim (pos + length line + 1) t))"
  by pat_completeness auto
termination
proof (relation "measure (length \<circ> snd)")
  fix pos and s :: string and line c t
  assume "dropWhile (\<lambda>c. c \<noteq> newline) s = c # t"
  then have "Suc (length t) \<le> length s" by (metis length_Cons length_dropWhile_le)
  then show "((pos + length line + 1, t), pos, s) \<in> measure (length \<circ> snd)" by simp
qed simp

declare find_closing_delim.simps [simp del]

definition drop_line_end :: "string \<Rightarrow> string" where
  "drop_line_end s =
     (if starts_with [carriage_return, newline] s then drop 2 s
      else if starts_with [newline] s then drop 1 s else s)"

definition parse_frontmatter :: "yaml \<Rightarrow> string \<Rightarrow> md_error + meta \<times> string" where
  "parse_frontmatter y s =
     (if \<not> starts_with delim s then Inr ([], s)
      else let after = drop (length delim) s
           in if \<not> starts_with [carriage_return, newline] after \<and> \<not> starts_with [newline] after
              then Inr ([], s)
              else let rest = drop_line_end after
                   in case find_closing_delim 0 rest of
                        None \<Rightarrow> Inr ([], s)
                      | Some idx \<Rightarrow>
                          let yaml_block = take idx rest;
                              remainder = drop_line_end (drop (idx + length delim) rest)
                          in case (if strip yaml_block = [] then Yaml_null else y_load y yaml_block) of
                               Yaml_raises \<Rightarrow> Inl Yaml_error
                             | Yaml_null \<Rightarrow> Inr ([], remainder)
                             | Yaml_mapping m \<Rightarrow> Inr (m, remainder)
                             | Yaml_other \<Rightarrow> Inr ([], s))"

definition dump_frontmatter :: "yaml \<Rightarrow> meta \<Rightarrow> string" where
  "dump_frontmatter y m =
     (if m = [] then [] else delim @ [newline] @ y_dump y m @ delim @ [newline])"

section \<open>Reading a document\<close>

record parsed_markdown =
  pm_frontmatter :: meta
  pm_body :: string
  pm_entries :: "entry list"

definition parse_markdown :: "yaml \<Rightarrow> string \<Rightarrow> md_error + parsed_markdown" where
  "parse_markdown y s =
     (case parse_frontmatter y s of
        Inl e \<Rightarrow> Inl e
      | Inr (m, body) \<Rightarrow>
          Inr \<lparr>pm_frontmatter = m, pm_body = body, pm_entries = split_entries body\<rparr>)"

text \<open>Reading text translates line ends, as \<open>open\<close> does in text mode.\<close>

fun universal_newlines :: "string \<Rightarrow> string" where
  "universal_newlines [] = []"
| "universal_newlines [c] = [if c = carriage_return then newline else c]"
| "universal_newlines (c # d # s) =
     (if c = carriage_return
      then newline # (if d = newline then universal_newlines s else universal_newlines (d # s))
      else c # universal_newlines (d # s))"

definition read_markdown :: "yaml \<Rightarrow> string \<Rightarrow> md_error + parsed_markdown" where
  "read_markdown y raw = parse_markdown y (universal_newlines raw)"

section \<open>Directory names from free text\<close>

text \<open>
  \<open>nfc\<close> is \<open>unicodedata.normalize("NFC", _)\<close> and \<open>word_char\<close> the class \<open>\w\<close>.
\<close>

definition MAX_DIRNAME_LEN :: nat where "MAX_DIRNAME_LEN = 50"

definition safe_char :: "(char \<Rightarrow> bool) \<Rightarrow> char \<Rightarrow> bool" where
  "safe_char word_char c \<longleftrightarrow> word_char c \<or> c = CHR ''-'' \<or> c = CHR ''.''"

definition sanitize_dirname ::
  "(string \<Rightarrow> string) \<Rightarrow> (char \<Rightarrow> bool) \<Rightarrow> string \<Rightarrow> string \<Rightarrow> string" where
  "sanitize_dirname nfc word_char raw fallback =
     (let slug = take MAX_DIRNAME_LEN (filter (safe_char word_char)
                   (map (\<lambda>c. if c = CHR '' '' then CHR ''_'' else c) (nfc raw)))
      in if slug \<in> {'''', ''.'', ''..''} then fallback else slug)"

section \<open>What YAML promises\<close>

text \<open>
  The documented behaviour of PyYAML on a non-empty mapping with distinct keys: it reads its
  own dump back; a dump ends with a line end, is not blank, has no carriage return (texts
  holding one are escaped) and no line that is \<open>---\<close>.
\<close>

definition delim_free :: "string \<Rightarrow> bool" where
  "delim_free s \<longleftrightarrow> delim \<notin> rstrip_cr ` set (split_on newline s)"

locale yaml_codec =
  fixes y :: yaml
  assumes load_dump: "m \<noteq> [] \<Longrightarrow> distinct (map fst m) \<Longrightarrow> y_load y (y_dump y m) = Yaml_mapping m"
    and dump_closed: "m \<noteq> [] \<Longrightarrow> distinct (map fst m) \<Longrightarrow> last (y_dump y m) = newline"
    and dump_not_blank: "m \<noteq> [] \<Longrightarrow> distinct (map fst m) \<Longrightarrow> strip (y_dump y m) \<noteq> []"
    and dump_no_cr: "m \<noteq> [] \<Longrightarrow> distinct (map fst m) \<Longrightarrow> carriage_return \<notin> set (y_dump y m)"
    and dump_delim_free: "m \<noteq> [] \<Longrightarrow> distinct (map fst m) \<Longrightarrow> delim_free (y_dump y m)"

lemma split_on_nl:
  "newline \<notin> set l \<Longrightarrow> split_on newline (l @ newline # t) = l # split_on newline t"
  "newline \<notin> set l \<Longrightarrow> split_on newline l = [l]"
  by (induction l) auto

lemma takeWhile_line:
  assumes "newline \<notin> set l"
  shows "takeWhile (\<lambda>c. c \<noteq> newline) (l @ newline # t) = l"
    and "dropWhile (\<lambda>c. c \<noteq> newline) (l @ newline # t) = newline # t"
    and "takeWhile (\<lambda>c. c \<noteq> newline) l = l" and "dropWhile (\<lambda>c. c \<noteq> newline) l = []"
  using assms by (induction l) auto

lemma find_closing_line:
  assumes "newline \<notin> set l"
  shows "find_closing_delim pos (l @ newline # t) =
      (if rstrip_cr l = delim then Some pos else find_closing_delim (pos + length l + 1) t)"
    and "find_closing_delim pos l = (if l \<noteq> [] \<and> rstrip_cr l = delim then Some pos else None)"
  by (subst find_closing_delim.simps, simp only: takeWhile_line [OF assms] Let_def, simp)+

lemma line_cases:
  obtains (one) "newline \<notin> set s" | (first) l t where "s = l @ newline # t" and "newline \<notin> set l"
  by (meson split_list_first)

lemma find_closing_append:
  "line_closed s \<Longrightarrow> delim_free s \<Longrightarrow> find_closing_delim pos (s @ u) = find_closing_delim (pos + length s) u"
proof (induction s arbitrary: pos rule: length_induct)
  case (1 s)
  show ?case
  proof (cases s rule: line_cases)
    case one
    then have "s = []" using 1(2) by (metis last_in_set line_closed_def)
    then show ?thesis by simp
  next
    case (first l t)
    have "line_closed t" using 1(2) first by (cases t) (auto simp: line_closed_def)
    moreover have "rstrip_cr l \<noteq> delim" "delim_free t"
      using 1(3) first by (auto simp: delim_free_def split_on_nl)
    moreover have "length t < length s" using first by simp
    ultimately show ?thesis
      using 1(1) first by (simp add: find_closing_line add_ac)
  qed
qed

lemma find_closing_here: "find_closing_delim pos (delim @ newline # u) = Some pos"
  using find_closing_line(1) [of delim pos u] by (simp add: delim_def rstrip_cr_def)

lemma universal_newlines_id: "carriage_return \<notin> set s \<Longrightarrow> universal_newlines s = s"
  by (induction s rule: universal_newlines.induct) auto

context yaml_codec
begin

lemma parse_dump:
  assumes "m \<noteq> []" and "distinct (map fst m)"
  shows "parse_frontmatter y (dump_frontmatter y m @ body) = Inr (m, body)"
proof -
  let ?d = "y_dump y m"
  have "line_closed ?d" using dump_closed [OF assms] by (simp add: line_closed_def)
  then have f: "find_closing_delim 0 (?d @ delim @ newline # body) = Some (length ?d)"
    using find_closing_append [OF _ dump_delim_free [OF assms]] find_closing_here by simp
  show ?thesis
    using assms f dump_not_blank [OF assms] load_dump [OF assms]
    by (simp add: parse_frontmatter_def dump_frontmatter_def starts_with_def drop_line_end_def delim_def Let_def)
qed

lemma read_dump:
  assumes "m \<noteq> []" and "distinct (map fst m)" and "carriage_return \<notin> set body"
  shows "read_markdown y (dump_frontmatter y m @ body) =
    Inr \<lparr>pm_frontmatter = m, pm_body = body, pm_entries = split_entries body\<rparr>"
proof -
  have "carriage_return \<notin> set (dump_frontmatter y m @ body)"
    using assms dump_no_cr [OF assms(1,2)] by (auto simp: dump_frontmatter_def delim_def)
  then show ?thesis
    by (simp add: read_markdown_def parse_markdown_def universal_newlines_id parse_dump [OF assms(1,2)])
qed

end

section \<open>A codec that keeps the promises\<close>

text \<open>
  A mapping as a list of numbers, each text preceded by its length, written in decimal with
  commas on one line.
\<close>

definition put_text :: "string \<Rightarrow> nat list" where
  "put_text s = length s # map of_char s"

fun get_text :: "nat list \<Rightarrow> string \<times> nat list" where
  "get_text [] = ([], [])"
| "get_text (n # r) = (map char_of (take n r), drop n r)"

definition put_many :: "('a \<Rightarrow> nat list) \<Rightarrow> 'a list \<Rightarrow> nat list" where
  "put_many put xs = length xs # concat (map put xs)"

fun get_upto :: "(nat list \<Rightarrow> 'a \<times> nat list) \<Rightarrow> nat \<Rightarrow> nat list \<Rightarrow> 'a list \<times> nat list" where
  "get_upto get 0 r = ([], r)"
| "get_upto get (Suc n) r =
     (case get r of (x, r1) \<Rightarrow> case get_upto get n r1 of (xs, r2) \<Rightarrow> (x # xs, r2))"

fun get_many :: "(nat list \<Rightarrow> 'a \<times> nat list) \<Rightarrow> nat list \<Rightarrow> 'a list \<times> nat list" where
  "get_many get [] = ([], [])"
| "get_many get (n # r) = get_upto get n r"

definition put_pair :: "('a \<Rightarrow> nat list) \<Rightarrow> ('b \<Rightarrow> nat list) \<Rightarrow> 'a \<times> 'b \<Rightarrow> nat list" where
  "put_pair f g p = f (fst p) @ g (snd p)"

definition get_pair ::
  "(nat list \<Rightarrow> 'a \<times> nat list) \<Rightarrow> (nat list \<Rightarrow> 'b \<times> nat list) \<Rightarrow> nat list \<Rightarrow> ('a \<times> 'b) \<times> nat list" where
  "get_pair f g r = (case f r of (a, r1) \<Rightarrow> case g r1 of (b, r2) \<Rightarrow> ((a, b), r2))"

fun put_value :: "fm_value \<Rightarrow> nat list" where
  "put_value Fm_none = [0]"
| "put_value (Fm_int i) = [1, (if i < 0 then 1 else 0), nat \<bar>i\<bar>]"
| "put_value (Fm_text s) = 2 # put_text s"
| "put_value (Fm_list xs) = 3 # put_many put_text xs"
| "put_value (Fm_dict kvs) = 4 # put_many (put_pair put_text put_text) kvs"

fun get_value :: "nat list \<Rightarrow> fm_value \<times> nat list" where
  "get_value (k # r) =
     (if k = 1 then (Fm_int (if r ! 0 = 1 then - int (r ! 1) else int (r ! 1)), drop 2 r)
      else if k = 2 then (case get_text r of (s, r1) \<Rightarrow> (Fm_text s, r1))
      else if k = 3 then (case get_many get_text r of (xs, r1) \<Rightarrow> (Fm_list xs, r1))
      else if k = 4 then (case get_many (get_pair get_text get_text) r of (kvs, r1) \<Rightarrow> (Fm_dict kvs, r1))
      else (Fm_none, r))"
| "get_value [] = (Fm_none, [])"

definition restores :: "('a \<Rightarrow> nat list) \<Rightarrow> (nat list \<Rightarrow> 'a \<times> nat list) \<Rightarrow> bool" where
  "restores put get \<longleftrightarrow> (\<forall>x r. get (put x @ r) = (x, r))"

lemma restores_text: "restores put_text get_text"
  by (simp add: restores_def put_text_def o_def)

lemma restores_many: "restores put get \<Longrightarrow> restores (put_many put) (get_many get)"
proof -
  assume r: "restores put get"
  have "get_upto get (length xs) (concat (map put xs) @ s) = (xs, s)" for xs s
    using r by (induction xs) (simp_all add: restores_def)
  then show ?thesis by (simp add: restores_def put_many_def)
qed

lemma restores_pair: "restores p g \<Longrightarrow> restores p' g' \<Longrightarrow> restores (put_pair p p') (get_pair g g')"
  by (simp add: restores_def put_pair_def get_pair_def)

lemma restores_value: "restores put_value get_value"
proof -
  note many = restores_many [OF restores_text] restores_many [OF restores_pair [OF restores_text restores_text]]
  have "get_value (put_value v @ r) = (v, r)" for v r
    using many restores_text by (cases v) (auto simp: restores_def)
  then show ?thesis by (simp add: restores_def)
qed

definition put_meta :: "meta \<Rightarrow> nat list" where
  "put_meta = put_many (put_pair put_text put_value)"

definition get_meta_value :: "nat list \<Rightarrow> meta \<times> nat list" where
  "get_meta_value = get_many (get_pair get_text get_value)"

lemma restores_meta: "restores put_meta get_meta_value"
  unfolding put_meta_def get_meta_value_def
  by (intro restores_many restores_pair restores_text restores_value)

definition number_line :: "nat list \<Rightarrow> string" where
  "number_line ns = concat (map (\<lambda>n. dec n @ '','') ns)"

definition write_numbers :: "nat list \<Rightarrow> string" where
  "write_numbers ns = number_line ns @ [newline]"

fun read_numbers :: "nat \<Rightarrow> string \<Rightarrow> nat list" where
  "read_numbers a [] = []"
| "read_numbers a (c # s) =
     (if c = CHR '','' then a # read_numbers 0 s else read_numbers (a * 10 + (of_char c - 48)) s)"

lemma read_digits:
  "CHR '','' \<notin> set ds \<Longrightarrow>
   read_numbers a (ds @ CHR '','' # r) = foldl (\<lambda>n c. n * 10 + (of_char c - 48)) a ds # read_numbers 0 r"
  by (induction ds arbitrary: a) auto

lemma dec_chars: "c \<in> set (dec n) \<Longrightarrow> is_digit c"
  using dec_digits [of n] by (simp add: list_all_iff)

lemma read_write_numbers: "read_numbers 0 (write_numbers ns) = ns"
proof -
  have "CHR '','' \<notin> set (dec n)" for n using dec_chars by (fastforce simp: is_digit_def)
  then have "read_numbers 0 (dec n @ CHR '','' # r) = n # read_numbers 0 r" for n r
    using read_digits [of "dec n" 0 r] undec_dec [of n] by (simp add: undec_def)
  then show ?thesis unfolding write_numbers_def number_line_def by (induction ns) auto
qed

definition number_yaml :: yaml where
  "number_yaml =
     \<lparr>y_load = (\<lambda>s. Yaml_mapping (fst (get_meta_value (read_numbers 0 s)))),
      y_dump = (\<lambda>m. write_numbers (put_meta m))\<rparr>"

lemma number_line_chars: "c \<in> set (number_line ns) \<Longrightarrow> is_digit c \<or> c = CHR '',''"
  by (auto simp: number_line_def dest: dec_chars split: if_splits)

lemma write_numbers_delim_free: "delim_free (write_numbers ns)"
proof -
  let ?l = "number_line ns"
  have "newline \<notin> set ?l" using number_line_chars [of newline ns] by (auto simp: is_digit_def)
  then have "split_on newline (write_numbers ns) = [?l, []]"
    using split_on_nl(1) [of ?l "[]"] by (simp add: write_numbers_def)
  moreover have "CHR ''-'' \<notin> set ?l" using number_line_chars [of "CHR ''-''" ns] by (auto simp: is_digit_def)
  then have "rstrip_cr ?l \<noteq> delim"
    by (metis delim_def list.set_intros(1) rstrip_cr_def set_dropWhileD set_rev)
  moreover have "rstrip_cr [] \<noteq> delim" by (simp add: rstrip_cr_def delim_def)
  ultimately show ?thesis by (auto simp: delim_free_def)
qed

lemma strip_eq_Nil: "strip s = [] \<Longrightarrow> list_all is_space s"
proof -
  assume "strip s = []"
  then have "list_all is_space (dropWhile is_space s)"
    by (simp add: strip_def rstrip_def dropWhile_eq_Nil_conv list_all_iff)
  moreover have "list_all is_space (takeWhile is_space s)" by (auto simp: list_all_iff dest: set_takeWhileD)
  ultimately show ?thesis by (metis list_all_append takeWhile_dropWhile_id)
qed

interpretation number_codec: yaml_codec number_yaml
proof
  fix m :: meta
  assume "m \<noteq> []" "distinct (map fst m)"
  let ?d = "y_dump number_yaml m"
  have d: "?d = number_line (put_meta m) @ [newline]" by (simp add: number_yaml_def write_numbers_def)
  show "y_load number_yaml ?d = Yaml_mapping m"
    using restores_meta by (simp add: number_yaml_def read_write_numbers restores_def)
      (metis append_Nil2 fst_conv)
  show "last ?d = newline" by (simp add: d)
  show "carriage_return \<notin> set ?d"
    using number_line_chars [of carriage_return "put_meta m"] by (auto simp: d is_digit_def)
  show "delim_free ?d" using write_numbers_delim_free by (simp add: number_yaml_def)
  have "CHR '','' \<in> set ?d" by (simp add: d number_line_def put_meta_def put_many_def)
  moreover have "\<not> is_space CHR '',''" by (simp add: is_space_def)
  ultimately show "strip ?d \<noteq> []" using strip_eq_Nil [of ?d] by (auto simp only: list_all_iff)
qed

end
