(* ===== verification/Daily_Writer.thy ===== *)
theory Daily_Writer
  imports Frontmatter Daily_Handler
begin

text \<open>
  Writing and reading the daily-log files: \<open>MarkdownWriter\<close>
  (\<open>core/persistence/markdown/writer.py\<close>), the business writer and reader over it
  (\<open>infra/persistence/markdown/writers/base.py\<close>, \<open>readers/base.py\<close> and the four schemas with
  their writers), and the parsing of entry ids. Files are a map from resolved absolute paths
  to raw text; there are no symbolic links, and the only error of the disk is a missing file.
\<close>

section \<open>Paths\<close>

text \<open>An absolute path is the list of its segments; \<open>path_join\<close> is pathlib's \<open>/\<close>.\<close>

type_synonym path = "string list"

definition path_join :: "path \<Rightarrow> string \<Rightarrow> path" where
  "path_join p s = (if starts_with ''/'' s then path_parts s else p @ path_parts s)"

definition resolve_path :: "path \<Rightarrow> path" where
  "resolve_path p = rev (fold (\<lambda>seg acc. if seg = ''..'' then tl acc else seg # acc) p [])"

definition within_root :: "path \<Rightarrow> path \<Rightarrow> bool" where
  "within_root base target \<longleftrightarrow> take (length base) (resolve_path target) = base"

type_synonym files = "path \<Rightarrow> string option"

record md_store =
  ms_yaml :: yaml
  ms_root :: path

definition file_at :: "files \<Rightarrow> path \<Rightarrow> string option" where
  "file_at fs p = fs (resolve_path p)"

definition read_file :: "md_store \<Rightarrow> files \<Rightarrow> path \<Rightarrow> md_error + parsed_markdown" where
  "read_file st fs p =
     (case file_at fs p of
        None \<Rightarrow> Inl File_not_found_error
      | Some raw \<Rightarrow> read_markdown (ms_yaml st) raw)"

section \<open>The Markdown writer\<close>

definition write_file :: "md_store \<Rightarrow> files \<Rightarrow> path \<Rightarrow> string \<Rightarrow> md_error + files" where
  "write_file st fs p content =
     (if within_root (ms_root st) p then Inr (fs(resolve_path p \<mapsto> content)) else Inl Path_traversal)"

definition write_markdown :: "md_store \<Rightarrow> files \<Rightarrow> path \<Rightarrow> meta \<Rightarrow> string \<Rightarrow> md_error + files" where
  "write_markdown st fs p frontmatter body =
     write_file st fs p (dump_frontmatter (ms_yaml st) frontmatter @ body)"

text \<open>Dict fields are merged, everything else is replaced.\<close>

definition patch_field :: "string \<times> fm_value \<Rightarrow> meta \<Rightarrow> meta" where
  "patch_field kv fm =
     (case kv of (k, v) \<Rightarrow>
        case (v, meta_get fm k) of
          (Fm_dict new, Some (Fm_dict old)) \<Rightarrow>
            AList.update k (Fm_dict (fold (\<lambda>(a, b). AList.update a b) new old)) fm
        | _ \<Rightarrow> AList.update k v fm)"

definition patch_frontmatter :: "md_store \<Rightarrow> files \<Rightarrow> path \<Rightarrow> meta \<Rightarrow> md_error + files" where
  "patch_frontmatter st fs p updates =
     (case file_at fs p of
        None \<Rightarrow> Inl File_not_found_error
      | Some raw \<Rightarrow>
          (case parse_frontmatter (ms_yaml st) (universal_newlines raw) of
             Inl e \<Rightarrow> Inl e
           | Inr (fm, remainder) \<Rightarrow>
               write_file st fs p
                 (dump_frontmatter (ms_yaml st) (fold patch_field updates fm) @ remainder)))"

definition append_entries_unlocked ::
  "md_store \<Rightarrow> files \<Rightarrow> path \<Rightarrow> (string \<times> entry_id) list \<Rightarrow> meta option \<Rightarrow> md_error + files" where
  "append_entries_unlocked st fs p entries updates =
     (if \<not> within_root (ms_root st) p then Inl Path_traversal
      else case (case file_at fs p of
                   None \<Rightarrow> Inr ([], [])
                 | Some _ \<Rightarrow> (case read_file st fs p of
                                Inl e \<Rightarrow> Inl e
                              | Inr parsed \<Rightarrow> Inr (pm_frontmatter parsed, pm_body parsed))) of
             Inl e \<Rightarrow> Inl e
           | Inr (old_meta, body) \<Rightarrow>
               let new_meta = (case updates of None \<Rightarrow> old_meta | Some u \<Rightarrow> meta_update old_meta u)
               in write_markdown st fs p new_meta
                    (append_blocks body (map (\<lambda>(b, i). (b, entry_id_format i)) entries)))"

section \<open>Days and entry ids\<close>

record day =
  d_year :: nat
  d_month :: nat
  d_day :: nat

definition ymd :: "day \<Rightarrow> string" where
  "ymd d = dec (d_year d) @ zero_pad 2 (dec (d_month d)) @ zero_pad 2 (dec (d_day d))"

definition iso_date :: "day \<Rightarrow> string" where
  "iso_date d = zero_pad 4 (dec (d_year d)) @ ''-'' @ zero_pad 2 (dec (d_month d))
     @ ''-'' @ zero_pad 2 (dec (d_day d))"

definition days_in_month :: "nat \<Rightarrow> nat \<Rightarrow> nat" where
  "days_in_month y m =
     (if m = 2 then (if y mod 4 = 0 \<and> (y mod 100 \<noteq> 0 \<or> y mod 400 = 0) then 29 else 28)
      else if m \<in> {4, 6, 9, 11} then 30 else 31)"

definition valid_day :: "day \<Rightarrow> bool" where
  "valid_day d \<longleftrightarrow> 1 \<le> d_year d \<and> d_year d \<le> 9999 \<and> 1 \<le> d_month d \<and> d_month d \<le> 12
     \<and> 1 \<le> d_day d \<and> d_day d \<le> days_in_month (d_year d) (d_month d)"

text \<open>
  \<open>strptime(_, "%Y%m%d")\<close>: four digits, a month of two digits if they make one, else of one,
  a day likewise (a blank may stand for its first digit), and nothing after it.
\<close>

definition take_month :: "string \<Rightarrow> (nat \<times> string) option" where
  "take_month s =
     (let two = take 2 s; n = undec two
      in if length two = 2 \<and> list_all is_digit two \<and> 1 \<le> n \<and> n \<le> 12 then Some (n, drop 2 s)
         else case s of
                [] \<Rightarrow> None
              | c # r \<Rightarrow> if is_digit c \<and> c \<noteq> CHR ''0'' then Some (undec [c], r) else None)"

definition take_day :: "string \<Rightarrow> (nat \<times> string) option" where
  "take_day s =
     (let two = take 2 s; n = undec two
      in if length two = 2 \<and> list_all is_digit two \<and> 1 \<le> n \<and> n \<le> 31 then Some (n, drop 2 s)
         else case s of
                [] \<Rightarrow> None
              | c # r \<Rightarrow>
                  if is_digit c \<and> c \<noteq> CHR ''0'' then Some (undec [c], r)
                  else if c = CHR '' '' \<and> r \<noteq> [] \<and> is_digit (hd r) \<and> hd r \<noteq> CHR ''0''
                       then Some (undec [hd r], tl r) else None)"

definition strptime_ymd :: "string \<Rightarrow> day option" where
  "strptime_ymd s =
     (let y = take 4 s
      in if length y < 4 \<or> \<not> list_all is_digit y then None
         else case take_month (drop 4 s) of
                None \<Rightarrow> None
              | Some (m, r) \<Rightarrow>
                  (case take_day r of
                     None \<Rightarrow> None
                   | Some (d, r') \<Rightarrow>
                       let date = \<lparr>d_year = undec y, d_month = m, d_day = d\<rparr>
                       in if r' = [] \<and> valid_day date then Some date else None))"

text \<open>\<open>int(_)\<close> of a text without underscores.\<close>

definition py_int :: "string \<Rightarrow> int option" where
  "py_int s =
     (let t = strip s;
          digits = (if starts_with ''-'' t \<or> starts_with ''+'' t then tl t else t)
      in if digits = [] \<or> \<not> list_all is_digit digits then None
         else Some (if starts_with ''-'' t then - int (undec digits) else int (undec digits)))"

text \<open>\<open>EntryId.parse\<close>; the date comes back beside the id, which holds its text.\<close>

definition parse_entry_id :: "string \<Rightarrow> md_error + entry_id \<times> day" where
  "parse_entry_id s =
     (let parts = split_on CHR ''_'' s; n = length parts
      in if n < 3 then Inl Value_error
         else let prefix = join ''_'' (take (n - 2) parts)
              in if prefix = [] then Inl Value_error
                 else case strptime_ymd (parts ! (n - 2)) of
                        None \<Rightarrow> Inl Value_error
                      | Some d \<Rightarrow>
                          (case py_int (parts ! (n - 1)) of
                             None \<Rightarrow> Inl Value_error
                           | Some q \<Rightarrow>
                               if q < 0 then Inl Value_error
                               else Inr (\<lparr>ei_prefix = prefix, ei_date = ymd d, ei_seq = nat q\<rparr>, d)))"

section \<open>Schemas of the daily logs\<close>

text \<open>
  The class variables of the four schemas; the type of a file is its kind with \<open>_daily\<close>.
\<close>

record daily_schema =
  sc_scope_dir :: string
  sc_prefix :: string
  sc_dir_name :: string
  sc_file_prefix :: string
  sc_kind :: string
  sc_owner_key :: string
  sc_track :: string

definition episode_schema :: daily_schema where
  "episode_schema = \<lparr>sc_scope_dir = ''users'', sc_prefix = ''ep'', sc_dir_name = ''episodes'',
     sc_file_prefix = ''episode'', sc_kind = ''episode'', sc_owner_key = ''user_id'', sc_track = ''user''\<rparr>"

definition atomic_fact_schema :: daily_schema where
  "atomic_fact_schema = \<lparr>sc_scope_dir = ''users'', sc_prefix = ''af'', sc_dir_name = ''.atomic_facts'',
     sc_file_prefix = ''atomic_fact'', sc_kind = ''atomic_fact'', sc_owner_key = ''user_id'',
     sc_track = ''user''\<rparr>"

definition foresight_schema :: daily_schema where
  "foresight_schema = \<lparr>sc_scope_dir = ''users'', sc_prefix = ''fs'', sc_dir_name = ''.foresights'',
     sc_file_prefix = ''foresight'', sc_kind = ''foresight'', sc_owner_key = ''user_id'',
     sc_track = ''user''\<rparr>"

definition agent_case_schema :: daily_schema where
  "agent_case_schema = \<lparr>sc_scope_dir = ''agents'', sc_prefix = ''ac'', sc_dir_name = ''.cases'',
     sc_file_prefix = ''agent_case'', sc_kind = ''agent_case'', sc_owner_key = ''agent_id'',
     sc_track = ''agent''\<rparr>"

text \<open>\<open>_frontmatter_updates\<close>; \<open>now\<close> is the display time in ISO form.\<close>

definition frontmatter_updates :: "daily_schema \<Rightarrow> string \<Rightarrow> string \<Rightarrow> day \<Rightarrow> int \<Rightarrow> meta" where
  "frontmatter_updates sc now scope_id d next_count =
     [(''id'', Fm_text (sc_kind sc @ ''_log_'' @ scope_id @ ''_'' @ iso_date d)),
      (''type'', Fm_text (sc_kind sc @ ''_daily'')),
      (''file_type'', Fm_text (sc_kind sc @ ''_daily'')),
      (''schema_version'', Fm_int 1),
      (sc_owner_key sc, Fm_text scope_id),
      (''track'', Fm_text (sc_track sc)),
      (''date'', Fm_text (iso_date d)),
      (''entry_count'', Fm_int next_count),
      (''last_appended_at'', Fm_text now)]"

section \<open>The daily writer\<close>

definition scope_dir :: "path \<Rightarrow> string \<Rightarrow> string \<Rightarrow> string \<Rightarrow> path" where
  "scope_dir base dir app_id project_id =
     path_join (path_join (path_join base (app_dir_name app_id)) (project_dir_name project_id)) dir"

definition daily_path :: "md_store \<Rightarrow> daily_schema \<Rightarrow> string \<Rightarrow> day \<Rightarrow> string \<Rightarrow> string \<Rightarrow> path" where
  "daily_path st sc scope_id d app_id project_id =
     path_join
       (path_join (path_join (scope_dir (ms_root st) (sc_scope_dir sc) app_id project_id) scope_id)
         (sc_dir_name sc))
       (sc_file_prefix sc @ ''-'' @ iso_date d @ ''.md'')"

text \<open>\<open>_current_count\<close> of the four writers trusts the frontmatter field.\<close>

definition current_count :: "md_store \<Rightarrow> files \<Rightarrow> path \<Rightarrow> md_error + fm_value" where
  "current_count st fs p =
     (case file_at fs p of
        None \<Rightarrow> Inr (Fm_int 0)
      | Some _ \<Rightarrow>
          (case read_file st fs p of
             Inl e \<Rightarrow> Inl e
           | Inr parsed \<Rightarrow>
               Inr (case meta_get (pm_frontmatter parsed) ''entry_count'' of
                      None \<Rightarrow> Fm_int 0 | Some v \<Rightarrow> v)))"

text \<open>The ids of \<open>n\<close> entries: adding to a count that is no number, or a negative one, raises.\<close>

fun allocate_ids :: "string \<Rightarrow> string \<Rightarrow> fm_value \<Rightarrow> nat \<Rightarrow> md_error + int \<times> entry_id list" where
  "allocate_ids prefix date (Fm_int base_count) n =
     (if base_count < 0 then Inl Value_error
      else Inr (base_count, map (\<lambda>i. next_for prefix date (nat base_count + i)) [0..<n]))"
| "allocate_ids prefix date _ n = Inl Type_error"

type_synonym daily_item = "(string \<times> inline_val) list \<times> (string \<times> string) list"

definition daily_text :: "entry_id \<Rightarrow> daily_item \<Rightarrow> string" where
  "daily_text i item = render_structured_entry (Some (entry_id_format i)) (fst item) (snd item)"

definition append_entries ::
  "md_store \<Rightarrow> daily_schema \<Rightarrow> string \<Rightarrow> string \<Rightarrow> string \<Rightarrow> string \<Rightarrow> day \<Rightarrow> daily_item list \<Rightarrow> files \<Rightarrow>
   (md_error + entry_id list) \<times> files" where
  "append_entries st sc now app_id project_id scope_id d items fs =
     (let p = daily_path st sc scope_id d app_id project_id
      in if items = [] then (Inr [], fs)
         else case current_count st fs p of
                Inl e \<Rightarrow> (Inl e, fs)
              | Inr count \<Rightarrow>
                  (case allocate_ids (sc_prefix sc) (ymd d) count (length items) of
                     Inl e \<Rightarrow> (Inl e, fs)
                   | Inr (base_count, eids) \<Rightarrow>
                       let entries = map (\<lambda>(i, item). (daily_text i item, i)) (zip eids items);
                           updates = frontmatter_updates sc now scope_id d (base_count + int (length items))
                       in case append_entries_unlocked st fs p entries (Some updates) of
                            Inl e \<Rightarrow> (Inl e, fs)
                          | Inr fs' \<Rightarrow> (Inr eids, fs')))"

definition append_entry ::
  "md_store \<Rightarrow> daily_schema \<Rightarrow> string \<Rightarrow> string \<Rightarrow> string \<Rightarrow> string \<Rightarrow> day \<Rightarrow> daily_item \<Rightarrow> files \<Rightarrow>
   (md_error + entry_id) \<times> files" where
  "append_entry st sc now app_id project_id scope_id d item fs =
     (case append_entries st sc now app_id project_id scope_id d [item] fs of
        (Inl e, fs') \<Rightarrow> (Inl e, fs')
      | (Inr eids, fs') \<Rightarrow> (Inr (eids ! 0), fs'))"

text \<open>\<open>append\<close>: one body that is already rendered, with the caller's updates or the default ones.\<close>

definition append_body ::
  "md_store \<Rightarrow> daily_schema \<Rightarrow> string \<Rightarrow> string \<Rightarrow> string \<Rightarrow> string \<Rightarrow> day \<Rightarrow> string \<Rightarrow> meta option \<Rightarrow>
   files \<Rightarrow> (md_error + entry_id) \<times> files" where
  "append_body st sc now app_id project_id scope_id d entry_body updates fs =
     (let p = daily_path st sc scope_id d app_id project_id
      in case current_count st fs p of
           Inl e \<Rightarrow> (Inl e, fs)
         | Inr count \<Rightarrow>
             (case allocate_ids (sc_prefix sc) (ymd d) count 1 of
                Inl e \<Rightarrow> (Inl e, fs)
              | Inr (base_count, eids) \<Rightarrow>
                  let u = (case updates of
                             Some u \<Rightarrow> u
                           | None \<Rightarrow> frontmatter_updates sc now scope_id d (base_count + 1))
                  in case append_entries_unlocked st fs p [(entry_body, eids ! 0)] (Some u) of
                       Inl e \<Rightarrow> (Inl e, fs)
                     | Inr fs' \<Rightarrow> (Inr (eids ! 0), fs')))"

section \<open>The daily reader\<close>

definition read_for ::
  "md_store \<Rightarrow> daily_schema \<Rightarrow> files \<Rightarrow> string \<Rightarrow> day \<Rightarrow> string \<Rightarrow> string \<Rightarrow>
   md_error + parsed_markdown option" where
  "read_for st sc fs scope_id d app_id project_id =
     (let p = daily_path st sc scope_id d app_id project_id
      in case file_at fs p of
           None \<Rightarrow> Inr None
         | Some _ \<Rightarrow> (case read_file st fs p of Inl e \<Rightarrow> Inl e | Inr parsed \<Rightarrow> Inr (Some parsed)))"

definition find_entry_for ::
  "md_store \<Rightarrow> daily_schema \<Rightarrow> files \<Rightarrow> string \<Rightarrow> string \<Rightarrow> string \<Rightarrow> string \<Rightarrow> md_error + entry option" where
  "find_entry_for st sc fs scope_id entry_id app_id project_id =
     (case parse_entry_id entry_id of
        Inl e \<Rightarrow> Inl e
      | Inr (eid, d) \<Rightarrow>
          (case read_for st sc fs scope_id d app_id project_id of
             Inl e \<Rightarrow> Inl e
           | Inr None \<Rightarrow> Inr None
           | Inr (Some parsed) \<Rightarrow> Inr (find_entry (pm_body parsed) (entry_id_format eid))))"

definition find_structured ::
  "md_store \<Rightarrow> daily_schema \<Rightarrow> files \<Rightarrow> string \<Rightarrow> string \<Rightarrow> string \<Rightarrow> string \<Rightarrow>
   md_error + structured_entry option" where
  "find_structured st sc fs scope_id entry_id app_id project_id =
     (case find_entry_for st sc fs scope_id entry_id app_id project_id of
        Inl e \<Rightarrow> Inl e
      | Inr found \<Rightarrow> Inr (map_option as_structured found))"

end
