(* ===== verification/Daily_Log.thy ===== *)
theory Daily_Log
  imports Daily_Writer
begin

text \<open>
  What the daily writer and reader guarantee: entry ids are read back, an appended entry is
  found under its fresh id with the fields written, writes stay inside the memory root, and
  what happens to a file that lost its frontmatter count.
\<close>

section \<open>Entry ids are read back\<close>

lemma dec_length: "10 ^ k \<le> n \<Longrightarrow> n < 10 ^ Suc k \<Longrightarrow> length (dec n) = Suc k"
proof (induction k arbitrary: n)
  case 0
  then show ?case by (subst dec.simps) simp
next
  case (Suc k)
  have "10 ^ k \<le> n div 10" "n div 10 < 10 ^ Suc k" using Suc.prems by auto
  moreover have "1 \<le> (10 :: nat) ^ k" by (rule one_le_power) simp
  then have "10 \<le> n" using Suc.prems(1) unfolding power_Suc by linarith
  ultimately show ?case using Suc.IH [of "n div 10"] by (subst dec.simps) simp
qed

lemma zero_pad_length: "length s \<le> w \<Longrightarrow> length (zero_pad w s) = w"
  by (simp add: zero_pad_def)

lemma dec_two: "n < 100 \<Longrightarrow> length (dec n) \<le> 2"
  using dec_length [of 0 n] dec_length [of 1 n] by (cases "n < 10"; cases "n = 0") (auto simp: dec.simps [of 0])

lemma two_digits:
  "n < 100 \<Longrightarrow> length (zero_pad 2 (dec n)) = 2 \<and> list_all is_digit (zero_pad 2 (dec n))
     \<and> undec (zero_pad 2 (dec n)) = n"
  by (simp add: zero_pad_length dec_two zero_pad_digits dec_digits)

lemma ymd_read_back:
  assumes "valid_day d" and "1000 \<le> d_year d"
  shows "strptime_ymd (ymd d) = Some d"
proof -
  have "length (dec (d_year d)) = 4" using dec_length [of 3 "d_year d"] assms by (simp add: valid_day_def)
  moreover have "d_month d < 100" "d_day d < 100" using assms
    by (auto simp: valid_day_def days_in_month_def split: if_splits)
  moreover have "1 \<le> d_month d" "d_month d \<le> 12" "1 \<le> d_day d" "d_day d \<le> 31"
    using assms by (auto simp: valid_day_def days_in_month_def split: if_splits)
  ultimately show ?thesis
    using two_digits [of "d_month d"] two_digits [of "d_day d"] assms
    by (cases d) (simp add: strptime_ymd_def ymd_def take_month_def take_day_def dec_digits Let_def)
qed

lemma split_on_last:
  "c \<notin> set t \<Longrightarrow> split_on c (s @ c # t) = split_on c s @ [t]"
proof (induction s)
  case Nil
  have "split_on c t = [t]" if "c \<notin> set t" for t
    using that by (induction t) auto
  then show ?case using Nil by simp
next
  case (Cons a s)
  have "split_on c s \<noteq> []" by (cases s) (auto split: list.splits)
  then show ?case using Cons by (auto split: list.splits)
qed

lemma join_split_on: "join [c] (split_on c s) = s"
proof (induction s)
  case (Cons a s)
  have "split_on c s \<noteq> []" by (cases s) (auto split: list.splits)
  then obtain y ys where "split_on c s = y # ys" by (cases "split_on c s") auto
  then show ?case using Cons by (cases ys) auto
qed simp

lemma digit_not_underscore: "list_all is_digit s \<Longrightarrow> CHR ''_'' \<notin> set s"
  by (auto simp: list_all_iff is_digit_def)

lemma ymd_digits: "list_all is_digit (ymd d)"
  by (simp add: ymd_def dec_digits zero_pad_digits)

lemma py_int_digits:
  assumes "s \<noteq> []" and "list_all is_digit s"
  shows "py_int s = Some (int (undec s))"
proof -
  have "\<not> is_space c" if "is_digit c" for c using that by (auto simp: is_digit_def is_space_def)
  then have "strip s = s"
    using assms by (cases s) (auto simp: strip_def list_all_iff last_in_set intro!: rstrip_id)
  moreover have "\<not> starts_with ''-'' s" "\<not> starts_with ''+'' s"
    using assms by (cases s; auto simp: starts_with_def is_digit_def)+
  ultimately show ?thesis using assms by (simp add: py_int_def)
qed

lemma entry_id_read_back:
  assumes "ei_prefix e \<noteq> []" and "ei_date e = ymd d" and "valid_day d" and "1000 \<le> d_year d"
  shows "parse_entry_id (entry_id_format e) = Inr (e, d)"
proof -
  let ?seq = "zero_pad SEQ_DIGITS (dec (ei_seq e))"
  have dig: "list_all is_digit ?seq" by (simp add: zero_pad_digits dec_digits)
  have ne: "?seq \<noteq> []" by (simp add: zero_pad_def dec.simps [of "ei_seq e"])
  have "split_on CHR ''_'' (entry_id_format e) = split_on CHR ''_'' (ei_prefix e) @ [ymd d, ?seq]"
    using split_on_last [of "CHR ''_''" ?seq "ei_prefix e @ CHR ''_'' # ymd d"]
      split_on_last [of "CHR ''_''" "ymd d" "ei_prefix e"]
      digit_not_underscore [OF dig] digit_not_underscore [OF ymd_digits [of d]]
    by (simp add: entry_id_format_def assms(2))
  moreover have "split_on CHR ''_'' (ei_prefix e) \<noteq> []"
    using join_split_on [of "CHR ''_''" "ei_prefix e"] assms(1) by auto
  ultimately show ?thesis
    using assms(1,2) ymd_read_back [OF assms(3,4)] py_int_digits [OF ne dig] join_split_on [of "CHR ''_''" "ei_prefix e"]
    by (cases e) (auto simp: parse_entry_id_def Let_def nth_append)
qed


section \<open>Finding an appended entry\<close>

lemma search_text_prefix: "search_text p s = None \<Longrightarrow> search_text (p @ q) s = None"
proof (induction s)
  case (Cons c s)
  have "\<not> starts_with p (c # s)" using Cons.prems by (auto split: if_splits)
  then have "\<not> starts_with (p @ q) (c # s)" by (auto simp: starts_with_iff)
  then show ?case using Cons by (auto split: if_splits)
qed (auto split: if_splits)

lemma search_text_lead:
  "c \<notin> set s \<Longrightarrow> search_text (c # p) s = None"
  by (induction s) (auto simp: starts_with_def)

lemma open_marker_Cons: "open_marker i = CHR ''<'' # drop 1 open_head @ i @ marker_tail"
  by (simp add: open_marker_def open_head_def)

lemma lead_not_id: "valid_id i \<Longrightarrow> CHR ''<'' \<notin> set (i @ marker_tail)"
  by (auto simp: valid_id_def list_all_iff id_char_def marker_tail_def)

lemma open_marker_inj:
  assumes "valid_id i" and "valid_id j" and "starts_with (open_marker j) (open_marker i @ x)"
  shows "i = j"
proof -
  have "open_at (open_marker i @ x) = Some i" "open_at (open_marker i @ x) = Some j"
    using assms by (auto simp: open_at_Some_iff starts_with_iff)
  then show ?thesis by simp
qed

lemma search_open_other:
  assumes "valid_id i" and "valid_id j" and "i \<noteq> j"
  shows "search_text (open_marker j) (open_marker i) = None"
    and "search_text (open_marker j) (close_marker i) = None"
proof -
  note lead = search_text_lead [of "CHR ''<''" _ "drop 1 open_head @ j @ marker_tail", folded open_marker_Cons]
  have "\<not> starts_with (open_marker j) (open_marker i)"
    using open_marker_inj [OF assms(1,2), of "[]"] assms(3) by auto
  moreover have "search_text (open_marker j) (drop 1 open_head @ i @ marker_tail) = None"
    using lead_not_id [OF assms(1)] by (intro lead) (auto simp: open_head_def)
  ultimately show "search_text (open_marker j) (open_marker i) = None"
    unfolding open_marker_Cons [of i] by simp
  have "\<not> starts_with (open_marker j) (close_marker i)"
    by (simp add: starts_with_def open_marker_def open_head_def close_marker_def)
  moreover have "search_text (open_marker j) (tl (close_marker i)) = None"
    using lead_not_id [OF assms(1)] by (intro lead) (auto simp: close_marker_def)
  ultimately show "search_text (open_marker j) (close_marker i) = None"
    by (cases "close_marker i") (auto simp: close_marker_def)
qed

definition marker_free :: "string \<Rightarrow> bool" where
  "marker_free b \<longleftrightarrow> search_text open_head b = None"

lemma search_open_lines:
  assumes "valid_id j"
  shows "line_closed s \<Longrightarrow> search_text (open_marker j) s = None \<Longrightarrow>
    search_text (open_marker j) (s @ u) = map_option (\<lambda>n. n + length s) (search_text (open_marker j) u)"
  using search_text_append [OF newline_not_open [OF assms], of s u]
  by (simp add: open_marker_def open_head_def)

lemma search_open_end:
  "valid_id j \<Longrightarrow> search_text (open_marker j) (s @ [newline]) = search_text (open_marker j) s"
  using search_text_snoc [OF newline_not_open] by (simp add: open_marker_def open_head_def)

lemma line_closed_snoc [simp]: "line_closed (s @ [newline])"
  by (simp add: line_closed_def)

lemma search_open_block:
  assumes "valid_id i" and "valid_id j" and "i \<noteq> j" and "marker_free b"
  shows "search_text (open_marker j) (entry_block (b, i)) = None"
proof -
  have "search_text (open_marker j) b = None"
    using search_text_prefix [of open_head b "j @ marker_tail"] assms(4)
    by (simp add: marker_free_def open_marker_def)
  then have "search_text (open_marker j) (b @ [newline]) = None" by (simp add: search_open_end [OF assms(2)])
  moreover have "search_text (open_marker j) (open_marker i @ [newline]) = None"
    "search_text (open_marker j) (close_marker i @ [newline]) = None"
    using search_open_other [OF assms(1-3)] by (simp_all add: search_open_end [OF assms(2)])
  moreover have "entry_block (b, i) = (open_marker i @ [newline]) @ (b @ [newline]) @ (close_marker i @ [newline])"
    by (simp add: entry_block_def)
  ultimately show ?thesis by (simp add: search_open_lines [OF assms(2)] del: append_assoc)
qed

lemma line_closed_block: "line_closed (entry_block (b, i))"
  by (simp add: line_closed_def entry_block_def)

lemma line_closed_append: "line_closed s \<Longrightarrow> line_closed t \<Longrightarrow> line_closed (s @ t)"
  by (cases t rule: rev_cases) (auto simp: line_closed_def)

lemma line_closed_blocks: "line_closed (concat (map entry_block es))"
  by (induction es) (auto simp: line_closed_def entry_block_def split: prod.splits if_splits)

lemma search_open_blocks:
  assumes "valid_id j"
  shows "list_all (\<lambda>(b, i). valid_id i \<and> i \<noteq> j \<and> marker_free b) es \<Longrightarrow>
    search_text (open_marker j) (concat (map entry_block es)) = None"
proof (induction es)
  case Nil
  then show ?case by (simp add: open_marker_def open_head_def)
next
  case (Cons e es)
  obtain b i where e: "e = (b, i)" by fastforce
  then show ?case
    using Cons search_open_lines [OF assms line_closed_block search_open_block [of i j b], of "concat (map entry_block es)"] assms
    by auto
qed

lemma find_in_block:
  assumes "ok_block (b, i)" and "line_closed x" and "search_text (open_marker i) x = None"
  obtains e where "find_entry (x @ entry_block (b, i) @ u) i = Some e" and "e_id e = i" and "e_body e = b"
proof -
  have v: "valid_id i" and none: "search_text (close_marker i) b = None"
    and cr: "\<not> starts_with [CHR 0x0D] (rev b)"
    using assms by (simp_all add: ok_block_def)
  note nl = newline_not_close [OF v]
  have ne: "close_marker i \<noteq> []" by (simp add: close_marker_def)
  let ?mid = "newline # b @ [newline]" and ?rest = "close_marker i @ newline # u"
  have blk: "entry_block (b, i) @ u = open_marker i @ ?mid @ ?rest" by (simp add: entry_block_def)
  have "search_text (open_marker i) (open_marker i @ y) = Some 0" for y
    by (cases "open_marker i") (auto simp: starts_with_def open_marker_def open_head_def)
  then have o: "search_text (open_marker i) (x @ entry_block (b, i) @ u) = Some (length x)"
    using search_open_lines [OF v assms(2,3)] by (simp add: blk)
  have "search_text (close_marker i) ?mid = None"
    using search_text_snoc [OF nl ne, of b] none by (simp add: starts_with_def close_marker_def)
  moreover have "line_closed ?mid" by (simp add: line_closed_def)
  moreover have "search_text (close_marker i) ?rest = Some 0"
    by (cases "close_marker i") (use ne in \<open>auto simp: starts_with_def\<close>)
  ultimately have k: "search_text (close_marker i) (?mid @ ?rest) = Some (length ?mid)"
    using search_text_append [OF nl ne, of ?mid ?rest] by simp
  have "drop (length x + length (open_marker i)) (x @ entry_block (b, i) @ u) = ?mid @ ?rest"
    unfolding blk by simp
  then have "find_entry (x @ entry_block (b, i) @ u) i =
      Some \<lparr>e_id = i, e_body = strip_one_newline (take (length ?mid) (?mid @ ?rest)), e_start = length x,
        e_end = length x + length (open_marker i) + length ?mid + length (close_marker i)\<rparr>"
    unfolding find_entry_def o option.case Let_def using k by (simp only: option.map)
  moreover have "take (length ?mid) (?mid @ ?rest) = ?mid" by simp
  ultimately show thesis using strip_block [OF cr] that by (simp del: append_Cons)
qed


section \<open>What the daily files keep\<close>

text \<open>A document on disk: absent, or a frontmatter written by the store and a body.\<close>

definition doc_at :: "md_store \<Rightarrow> files \<Rightarrow> path \<Rightarrow> meta \<Rightarrow> string \<Rightarrow> bool" where
  "doc_at st fs p m body \<longleftrightarrow>
     (file_at fs p = None \<and> m = [] \<and> body = []) \<or>
     (file_at fs p = Some (dump_frontmatter (ms_yaml st) m @ body) \<and> m \<noteq> []
      \<and> distinct (map fst m) \<and> carriage_return \<notin> set body)"

definition log_id :: "daily_schema \<Rightarrow> day \<Rightarrow> nat \<Rightarrow> string" where
  "log_id sc d k = entry_id_format \<lparr>ei_prefix = sc_prefix sc, ei_date = ymd d, ei_seq = k\<rparr>"

text \<open>
  A daily file with \<open>n\<close> entries counted: every open marker is closed and no id beyond the
  count occurs in a marker. Deleting whole entries by hand keeps this.
\<close>

definition log_file :: "md_store \<Rightarrow> daily_schema \<Rightarrow> day \<Rightarrow> files \<Rightarrow> path \<Rightarrow> nat \<Rightarrow> string \<Rightarrow> bool" where
  "log_file st sc d fs p n body \<longleftrightarrow>
     (\<exists>m. doc_at st fs p m body \<and>
          (if m = [] then n = 0 else meta_get m ''entry_count'' = Some (Fm_int (int n)))) \<and>
     well_closed body \<and> (\<forall>k>n. search_text (open_marker (log_id sc d k)) body = None)"

lemma doc_at_reads:
  assumes "yaml_codec (ms_yaml st)" and "doc_at st fs p m body" and "file_at fs p = Some raw"
  shows "read_file st fs p = Inr \<lparr>pm_frontmatter = m, pm_body = body, pm_entries = split_entries body\<rparr>"
  using assms(2,3) yaml_codec.read_dump [OF assms(1)] by (auto simp: doc_at_def read_file_def)

lemma distinct_meta_update: "distinct (map fst m) \<Longrightarrow> distinct (map fst (meta_update m u))"
  unfolding meta_update_def
  by (induction u arbitrary: m) (auto simp: distinct_update)

lemma meta_update_ne: "u \<noteq> [] \<Longrightarrow> meta_update m u \<noteq> []"
proof (induction u rule: rev_induct)
  case (snoc kv u)
  have "AList.update k v xs \<noteq> []" for k :: string and v :: fm_value and xs by (cases xs) auto
  then show ?case by (auto simp: meta_update_def split: prod.split)
qed simp

lemma unlocked_append:
  assumes "yaml_codec (ms_yaml st)" and "doc_at st fs p m body" and "within_root (ms_root st) p"
  shows "append_entries_unlocked st fs p entries (Some u) =
    Inr (fs(resolve_path p \<mapsto> dump_frontmatter (ms_yaml st) (meta_update m u)
          @ append_blocks body (map (\<lambda>(b, i). (b, entry_id_format i)) entries)))"
proof (cases "file_at fs p")
  case None
  then show ?thesis using assms(2,3)
    by (auto simp: append_entries_unlocked_def doc_at_def write_markdown_def write_file_def Let_def)
next
  case (Some raw)
  from doc_at_reads [OF assms(1,2) this] Some assms(3) show ?thesis
    by (simp add: append_entries_unlocked_def write_markdown_def write_file_def Let_def)
qed

lemma doc_at_written:
  "m \<noteq> [] \<Longrightarrow> distinct (map fst m) \<Longrightarrow> carriage_return \<notin> set body \<Longrightarrow>
   doc_at st (fs(resolve_path p \<mapsto> dump_frontmatter (ms_yaml st) m @ body)) p m body"
  by (simp add: doc_at_def file_at_def)

lemma counted:
  assumes "yaml_codec (ms_yaml st)" and "doc_at st fs p m body"
    and "if m = [] then n = 0 else meta_get m ''entry_count'' = Some (Fm_int (int n))"
  shows "current_count st fs p = Inr (Fm_int (int n))"
proof (cases "file_at fs p")
  case None
  then show ?thesis using assms(2,3) by (auto simp: current_count_def doc_at_def)
next
  case (Some raw)
  then have "m \<noteq> []" using assms(2) by (auto simp: doc_at_def)
  then show ?thesis using doc_at_reads [OF assms(1,2) Some] Some assms(3) by (simp add: current_count_def)
qed

lemma updated_count:
  "meta_get (meta_update m (frontmatter_updates sc now scope_id d c)) ''entry_count'' = Some (Fm_int c)"
  by (simp add: meta_get_def meta_update_def frontmatter_updates_def update_conv')

lemma valid_log_id: "list_all id_char (sc_prefix sc) \<Longrightarrow> valid_id (log_id sc d k)"
proof -
  assume "list_all id_char (sc_prefix sc)"
  moreover have "list_all id_char s" if "list_all is_digit s" for s
    using that by (auto simp: list_all_iff is_digit_def id_char_def)
  moreover have "list_all is_digit (zero_pad SEQ_DIGITS (dec k))" by (simp add: zero_pad_digits dec_digits)
  moreover have "id_char CHR ''_''" by (simp add: id_char_def)
  ultimately show ?thesis using ymd_digits [of d]
    by (simp add: log_id_def entry_id_format_def valid_id_def)
qed

lemma log_id_inj: "log_id sc d j = log_id sc d k \<longleftrightarrow> j = k"
proof -
  have "undec (zero_pad w (dec j)) = j" for w j by simp
  then have "zero_pad w (dec j) = zero_pad w (dec k) \<longleftrightarrow> j = k" for w by metis
  then show ?thesis by (simp add: log_id_def entry_id_format_def)
qed

text \<open>An item that can be stored under an id and read back.\<close>

definition storable :: "entry_id \<Rightarrow> daily_item \<Rightarrow> bool" where
  "storable i item \<longleftrightarrow>
     readable (entry_id_format i) (rendered (fst item)) (stripped (snd item)) \<and>
     marker_free (daily_text i item) \<and> carriage_return \<notin> set (daily_text i item) \<and>
     search_text (close_marker (entry_id_format i)) (daily_text i item) = None"

lemma storable_ok_block:
  assumes "storable i item" and "valid_id (entry_id_format i)"
  shows "ok_block (daily_text i item, entry_id_format i)"
proof -
  have "\<not> starts_with [CHR 0x0D] (rev (daily_text i item))"
    using assms(1) by (auto simp: storable_def starts_with_iff rev_eq_Cons_iff)
  then show ?thesis using assms by (simp add: ok_block_def storable_def)
qed


lemma find_structured_at:
  assumes "yaml_codec (ms_yaml st)" and "valid_day d" and "1000 \<le> d_year d" and "sc_prefix sc \<noteq> []"
    and "doc_at st fs (daily_path st sc scope_id d app_id project_id) m body" and "body \<noteq> []"
    and "find_entry body (log_id sc d k) = Some e"
  shows "find_structured st sc fs scope_id (log_id sc d k) app_id project_id = Inr (Some (as_structured e))"
proof -
  let ?p = "daily_path st sc scope_id d app_id project_id"
  obtain raw where raw: "file_at fs ?p = Some raw" using assms(5,6) by (auto simp: doc_at_def)
  have "parse_entry_id (log_id sc d k) = Inr (\<lparr>ei_prefix = sc_prefix sc, ei_date = ymd d, ei_seq = k\<rparr>, d)"
    unfolding log_id_def by (rule entry_id_read_back) (use assms(2-4) in simp_all)
  then show ?thesis
    using doc_at_reads [OF assms(1,5) raw] raw assms(7)
    by (simp add: find_structured_def find_entry_for_def read_for_def Let_def log_id_def)
qed

lemma found_item:
  assumes "storable i item" and "e_body e = daily_text i item" and "e_id e = entry_id_format i"
  shows "e_id (as_structured e) = entry_id_format i \<and> se_header (as_structured e) = Some (entry_id_format i)
    \<and> se_inline (as_structured e) = rendered (fst item)
    \<and> se_sections (as_structured e) = stripped (snd item)"
proof -
  have "readable (entry_id_format i) (rendered (fst item)) (stripped (snd item))"
    using assms(1) by (simp add: storable_def)
  from render_parse [OF this, of "Some e"] show ?thesis
    by (simp add: as_structured_def assms(2,3) daily_text_def Let_def)
      (simp add: parse_structured_entry_def Let_def assms(3) split: prod.split)
qed

definition minted :: "daily_schema \<Rightarrow> day \<Rightarrow> nat \<Rightarrow> nat \<Rightarrow> entry_id list" where
  "minted sc d n len = map (\<lambda>i. next_for (sc_prefix sc) (ymd d) (n + i)) [0..<len]"

lemma minted_id: "i < len \<Longrightarrow> entry_id_format (minted sc d n len ! i) = log_id sc d (n + i + 1)"
  by (simp add: minted_def next_for_def log_id_def)

definition log_blocks :: "daily_schema \<Rightarrow> day \<Rightarrow> nat \<Rightarrow> daily_item list \<Rightarrow> (string \<times> string) list" where
  "log_blocks sc d n items =
     map (\<lambda>(i, item). (daily_text i item, entry_id_format i)) (zip (minted sc d n (length items)) items)"

lemma append_entries_result:
  assumes "yaml_codec (ms_yaml st)" and "p = daily_path st sc scope_id d app_id project_id"
    and "within_root (ms_root st) p" and "doc_at st fs p m body"
    and "if m = [] then n = 0 else meta_get m ''entry_count'' = Some (Fm_int (int n))"
    and "items \<noteq> []"
  shows "append_entries st sc now app_id project_id scope_id d items fs =
    (Inr (minted sc d n (length items)),
     fs(resolve_path p \<mapsto> dump_frontmatter (ms_yaml st)
         (meta_update m (frontmatter_updates sc now scope_id d (int (n + length items))))
       @ append_blocks body (log_blocks sc d n items)))"
proof -
  have "map (\<lambda>(b, i). (b, entry_id_format i)) (map (\<lambda>(i, item). (daily_text i item, i)) (zip eids items))
      = map (\<lambda>(i, item). (daily_text i item, entry_id_format i)) (zip eids items)" for eids
    by (simp add: case_prod_unfold)
  then show ?thesis
    using unlocked_append [OF assms(1,4,3)] counted [OF assms(1,4,5)] assms(6)
    by (simp add: append_entries_def assms(2) [symmetric] minted_def log_blocks_def Let_def
        del: map_map)
qed

lemma storable_blocks:
  assumes "list_all2 storable (minted sc d n (length items)) items" and "list_all id_char (sc_prefix sc)"
  shows "list_all ok_block (log_blocks sc d n items)"
    and "list_all (\<lambda>(b, i). marker_free b \<and> carriage_return \<notin> set b) (log_blocks sc d n items)"
    and "map snd (log_blocks sc d n items) = map (\<lambda>i. log_id sc d (n + i + 1)) [0..<length items]"
    and "i < length items \<Longrightarrow> log_blocks sc d n items ! i =
          (daily_text (minted sc d n (length items) ! i) (items ! i), log_id sc d (n + i + 1))"
proof -
  let ?eids = "minted sc d n (length items)"
  have len: "length ?eids = length items" by (simp add: minted_def)
  have st: "storable (?eids ! i) (items ! i)" if "i < length items" for i
    using assms(1) that len by (simp add: list_all2_conv_all_nth)
  show nth: "log_blocks sc d n items ! i = (daily_text (?eids ! i) (items ! i), log_id sc d (n + i + 1))"
    if "i < length items" for i
    using that len by (simp add: log_blocks_def minted_id)
  have lb: "length (log_blocks sc d n items) = length items" by (simp add: log_blocks_def len)
  show "list_all ok_block (log_blocks sc d n items)"
    using storable_ok_block [OF st] valid_log_id [OF assms(2)]
    by (simp add: list_all_length lb nth minted_id)
  show "list_all (\<lambda>(b, i). marker_free b \<and> carriage_return \<notin> set b) (log_blocks sc d n items)"
    using st by (auto simp: list_all_length lb nth storable_def)
  show "map snd (log_blocks sc d n items) = map (\<lambda>i. log_id sc d (n + i + 1)) [0..<length items]"
    by (rule nth_equalityI) (simp_all add: lb nth)
qed

definition closed_body :: "string \<Rightarrow> string" where
  "closed_body body = (if body \<noteq> [] \<and> last body \<noteq> newline then body @ [newline] else body)"

lemma closed_body: "line_closed (closed_body body)"
  by (simp add: closed_body_def line_closed_def)

lemma search_closed_body:
  "valid_id j \<Longrightarrow> search_text (open_marker j) (closed_body body) = search_text (open_marker j) body"
  by (simp add: closed_body_def search_open_end)

lemma append_blocks_eq: "es \<noteq> [] \<Longrightarrow> append_blocks body es = closed_body body @ concat (map entry_block es)"
  by (simp add: append_blocks_def closed_body_def)

lemma no_cr_blocks:
  assumes "carriage_return \<notin> set body"
    and "list_all (\<lambda>(b, i). valid_id i \<and> carriage_return \<notin> set b) es"
  shows "carriage_return \<notin> set (append_blocks body es)"
proof -
  have "carriage_return \<notin> set i" if "valid_id i" for i
    using that by (auto simp: valid_id_def list_all_iff id_char_def)
  then have "carriage_return \<notin> set (entry_block (b, i))" if "(b, i) \<in> set es" for b i
    using assms(2) that by (auto simp: list_all_iff entry_block_def open_marker_def open_head_def marker_tail_def close_marker_def)
  then show ?thesis using assms(1) by (auto simp: append_blocks_def)
qed

lemma appended_log:
  assumes "yaml_codec (ms_yaml st)" and "valid_day d" and "1000 \<le> d_year d"
    and "sc_prefix sc \<noteq> []" and "list_all id_char (sc_prefix sc)"
    and "p = daily_path st sc scope_id d app_id project_id" and "within_root (ms_root st) p"
    and "log_file st sc d fs p n body"
    and "list_all2 storable (minted sc d n (length items)) items" and "items \<noteq> []"
  obtains fs' body' where
    "append_entries st sc now app_id project_id scope_id d items fs = (Inr (minted sc d n (length items)), fs')"
    and "\<And>q. q \<noteq> resolve_path p \<Longrightarrow> fs' q = fs q"
    and "log_file st sc d fs' p (n + length items) body'"
    and "map (\<lambda>e. (e_body e, e_id e)) (split_entries body') =
         map (\<lambda>e. (e_body e, e_id e)) (split_entries body) @ log_blocks sc d n items"
    and "\<And>i. i < length items \<Longrightarrow> \<exists>s. find_structured st sc fs' scope_id (log_id sc d (n + i + 1)) app_id project_id
           = Inr (Some s) \<and> e_id s = log_id sc d (n + i + 1) \<and> se_inline s = rendered (fst (items ! i))
             \<and> se_sections s = stripped (snd (items ! i))"
proof -
  let ?es = "log_blocks sc d n items"
  obtain m where m: "doc_at st fs p m body"
      "if m = [] then n = 0 else meta_get m ''entry_count'' = Some (Fm_int (int n))"
    and wc: "well_closed body" and future: "\<And>k. n < k \<Longrightarrow> search_text (open_marker (log_id sc d k)) body = None"
    using assms(8) by (auto simp: log_file_def)
  let ?m = "meta_update m (frontmatter_updates sc now scope_id d (int (n + length items)))"
  let ?body = "append_blocks body ?es"
  let ?fs = "fs(resolve_path p \<mapsto> dump_frontmatter (ms_yaml st) ?m @ ?body)"
  note blocks = storable_blocks [OF assms(9,5)]
  have len: "length ?es = length items" by (simp add: log_blocks_def minted_def)
  then have ne: "?es \<noteq> []" using assms(10) by auto
  have mne: "?m \<noteq> []" by (rule meta_update_ne) (simp add: frontmatter_updates_def)
  have "distinct (map fst m)" "carriage_return \<notin> set body" using m(1) by (auto simp: doc_at_def)
  moreover have "list_all (\<lambda>(b, i). valid_id i \<and> carriage_return \<notin> set b) ?es"
    using blocks(1,2) by (auto simp: list_all_iff ok_block_def)
  ultimately have doc: "doc_at st ?fs p ?m ?body"
    using mne distinct_meta_update no_cr_blocks by (intro doc_at_written) auto
  have valid: "valid_id (log_id sc d k)" for k by (rule valid_log_id [OF assms(5)])
  have bl: "list_all (\<lambda>(b, i). valid_id i \<and> i \<noteq> log_id sc d k \<and> marker_free b) (take j ?es)"
    if "\<And>i. i < j \<Longrightarrow> n + i + 1 \<noteq> k" for j k
  proof (subst list_all_length, intro allI impI)
    fix i assume "i < length (take j ?es)"
    then have i: "i < length items" "i < j" by (simp_all add: len)
    then have "log_id sc d (n + i + 1) \<noteq> log_id sc d k" using that by (simp add: log_id_inj)
    moreover have "marker_free (fst (?es ! i))"
      using blocks(2) i len by (auto simp: list_all_length case_prod_unfold)
    ultimately show "case take j ?es ! i of (b, ia) \<Rightarrow> valid_id ia \<and> ia \<noteq> log_id sc d k \<and> marker_free b"
      using i blocks(4) [OF i(1)] valid by simp
  qed
  have skip: "search_text (open_marker (log_id sc d k)) (closed_body body @ concat (map entry_block (take j ?es))) = None"
    if "n < k" and "\<And>i. i < j \<Longrightarrow> n + i + 1 \<noteq> k" for j k
    using search_open_lines [OF valid closed_body] search_closed_body [OF valid] future [OF that(1)]
      search_open_blocks [OF valid bl [OF that(2)]] by simp
  have scan: "map (\<lambda>e. (e_body e, e_id e)) (split_entries ?body) =
      map (\<lambda>e. (e_body e, e_id e)) (split_entries body) @ ?es" "well_closed ?body"
    using append_blocks_scan [OF wc blocks(1)] by simp_all
  have beyond: "search_text (open_marker (log_id sc d k)) ?body = None" if "n + length items < k" for k
    using skip [of k "length items"] that len append_blocks_eq [OF ne] by simp
  have count: "if ?m = [] then n + length items = 0
      else meta_get ?m ''entry_count'' = Some (Fm_int (int (n + length items)))"
    using mne updated_count by simp
  have log: "log_file st sc d ?fs p (n + length items) ?body"
    unfolding log_file_def by (intro conjI exI [of _ ?m] allI impI doc count scan(2) beyond)
  have "\<exists>s. find_structured st sc ?fs scope_id (log_id sc d (n + i + 1)) app_id project_id
           = Inr (Some s) \<and> e_id s = log_id sc d (n + i + 1) \<and> se_inline s = rendered (fst (items ! i))
             \<and> se_sections s = stripped (snd (items ! i))" if i: "i < length items" for i
  proof -
    let ?id = "minted sc d n (length items) ! i"
    have eid: "entry_id_format ?id = log_id sc d (n + i + 1)" by (rule minted_id [OF i])
    have s: "storable ?id (items ! i)" using assms(9) i by (simp add: list_all2_conv_all_nth)
    let ?x = "closed_body body @ concat (map entry_block (take i ?es))"
    have "?es = take i ?es @ ?es ! i # drop (Suc i) ?es" using i len by (simp add: id_take_nth_drop)
    then have split: "?body = ?x @ entry_block (?es ! i) @ concat (map entry_block (drop (Suc i) ?es))"
      using append_blocks_eq [OF ne, of body]
      by (metis append.assoc concat.simps(2) concat_append list.simps(9) map_append)
    have "ok_block (daily_text ?id (items ! i), log_id sc d (n + i + 1))"
      using blocks(1) i len blocks(4) [OF i] by (auto simp: list_all_length)
    moreover have "line_closed ?x" by (intro line_closed_append closed_body line_closed_blocks)
    moreover have "search_text (open_marker (log_id sc d (n + i + 1))) ?x = None" by (rule skip) simp_all
    ultimately obtain e where e: "find_entry ?body (log_id sc d (n + i + 1)) = Some e"
      "e_id e = log_id sc d (n + i + 1)" "e_body e = daily_text ?id (items ! i)"
      unfolding split blocks(4) [OF i] by (rule find_in_block)
    have "entry_block (?es ! i) \<noteq> []" by (simp add: entry_block_def case_prod_unfold)
    then have "?body \<noteq> []" unfolding split by simp
    from find_structured_at [OF assms(1-4) doc [unfolded assms(6)] this e(1)]
    show ?thesis using found_item [OF s e(3)] e(2) eid by (auto simp: assms(6))
  qed
  moreover have "append_entries st sc now app_id project_id scope_id d items fs =
      (Inr (minted sc d n (length items)), ?fs)"
    by (rule append_entries_result [OF assms(1,6,7) m assms(10)])
  ultimately show thesis using that [OF _ _ log scan(1)] by simp
qed

lemma search_text_found: "starts_with p (drop n s) \<Longrightarrow> search_text p s \<noteq> None"
proof (induction s arbitrary: n)
  case Nil
  then show ?case by (simp add: starts_with_def)
next
  case (Cons c s)
  show ?case
  proof (cases n)
    case 0
    with Cons.prems show ?thesis by simp
  next
    case (Suc k)
    with Cons show ?thesis by simp
  qed
qed

lemma split_from_marker:
  "e \<in> set (split_from pos s) \<Longrightarrow> \<exists>n. starts_with (open_marker (e_id e)) (drop n s)"
proof (induction pos s rule: split_from.induct)
  case (1 pos s)
  show ?case
  proof (cases "next_entry pos s")
    case None
    then show ?thesis using 1(2) by (simp add: split_from.simps [of pos])
  next
    case (Some r)
    obtain e' stop where r: "r = (e', stop)" by fastforce
    then have "e = e' \<or> e \<in> set (split_from (pos + stop) (drop stop s))"
      using Some 1(2) by (simp add: split_from.simps [of pos])
    then show ?thesis
    proof
      assume "e = e'"
      then obtain n where "search_open s = Some (n, e_id e)"
        using Some r by (auto simp: next_entry_def Let_def split: option.splits)
      then show ?thesis using search_open_bound by blast
    next
      assume "e \<in> set (split_from (pos + stop) (drop stop s))"
      from 1(1) [OF Some r [symmetric] this] show ?thesis by (metis drop_drop)
    qed
  qed
qed

lemma entry_has_marker: "e \<in> set (split_entries body) \<Longrightarrow> search_text (open_marker (e_id e)) body \<noteq> None"
  using split_from_marker search_text_found unfolding split_entries_def by blast

lemma append_keeps_log:
  assumes "yaml_codec (ms_yaml st)" and "valid_day d" and "1000 \<le> d_year d"
    and "sc_prefix sc \<noteq> []" and "list_all id_char (sc_prefix sc)"
    and "p = daily_path st sc scope_id d app_id project_id" and "within_root (ms_root st) p"
    and "log_file st sc d fs p n body" and "distinct (map e_id (split_entries body))"
    and "list_all2 storable (minted sc d n (length items)) items" and "items \<noteq> []"
  shows "\<exists>fs' body'.
    append_entries st sc now app_id project_id scope_id d items fs = (Inr (minted sc d n (length items)), fs') \<and>
    (\<forall>q. q = resolve_path p \<or> fs' q = fs q) \<and>
    log_file st sc d fs' p (n + length items) body' \<and>
    map e_id (split_entries body') = map e_id (split_entries body) @ map (\<lambda>i. log_id sc d (n + i + 1)) [0..<length items] \<and>
    distinct (map e_id (split_entries body')) \<and>
    list_all (\<lambda>i. \<exists>s. find_structured st sc fs' scope_id (log_id sc d (n + i + 1)) app_id project_id = Inr (Some s) \<and>
       e_id s = log_id sc d (n + i + 1) \<and> se_inline s = rendered (fst (items ! i)) \<and>
       se_sections s = stripped (snd (items ! i))) [0..<length items]"
proof -
  obtain fs' body' where r:
    "append_entries st sc now app_id project_id scope_id d items fs = (Inr (minted sc d n (length items)), fs')"
    "\<And>q. q \<noteq> resolve_path p \<Longrightarrow> fs' q = fs q"
    "log_file st sc d fs' p (n + length items) body'"
    "map (\<lambda>e. (e_body e, e_id e)) (split_entries body') =
         map (\<lambda>e. (e_body e, e_id e)) (split_entries body) @ log_blocks sc d n items"
    "\<And>i. i < length items \<Longrightarrow> \<exists>s. find_structured st sc fs' scope_id (log_id sc d (n + i + 1)) app_id project_id
           = Inr (Some s) \<and> e_id s = log_id sc d (n + i + 1) \<and> se_inline s = rendered (fst (items ! i))
             \<and> se_sections s = stripped (snd (items ! i))"
    by (rule appended_log [OF assms(1-8,10,11)]) blast
  have snds: "map snd (map (\<lambda>e. (e_body e, e_id e)) es) = map e_id es" for es by simp
  have ids: "map e_id (split_entries body') =
      map e_id (split_entries body) @ map (\<lambda>i. log_id sc d (n + i + 1)) [0..<length items]"
    using arg_cong [OF r(4), of "map snd"] unfolding map_append snds storable_blocks(3) [OF assms(10,5)] .
  have fresh: "log_id sc d (n + i + 1) \<notin> e_id ` set (split_entries body)" for i
  proof
    assume "log_id sc d (n + i + 1) \<in> e_id ` set (split_entries body)"
    then obtain e where e: "e \<in> set (split_entries body)" "e_id e = log_id sc d (n + i + 1)" by (metis imageE)
    have "search_text (open_marker (log_id sc d (n + i + 1))) body \<noteq> None"
      using entry_has_marker [OF e(1)] unfolding e(2) .
    moreover have future: "\<forall>k>n. search_text (open_marker (log_id sc d k)) body = None"
      using assms(8) unfolding log_file_def by (elim conjE)
    have "search_text (open_marker (log_id sc d (n + i + 1))) body = None"
      by (rule future [rule_format]) simp
    ultimately show False by (rule notE)
  qed
  have "e_id ` set (split_entries body) \<inter> (\<lambda>i. log_id sc d (n + i + 1)) ` set [0..<length items] = {}"
    using fresh by (metis (no_types, lifting) disjoint_iff imageE)
  moreover have "distinct (map (\<lambda>i. log_id sc d (n + i + 1)) [0..<length items])"
    by (simp add: distinct_map inj_on_def log_id_inj)
  ultimately have "distinct (map e_id (split_entries body'))"
    using assms(9) unfolding ids distinct_append set_map by (intro conjI)
  with r(1-3,5) ids show ?thesis
    by (intro exI [of _ fs'] exI [of _ body'] conjI) (auto simp: list_all_iff)
qed


definition demo_store :: md_store where
  "demo_store = \<lparr>ms_yaml = number_yaml, ms_root = [''mem'']\<rparr>"

definition demo_day :: day where "demo_day = \<lparr>d_year = 2026, d_month = 4, d_day = 22\<rparr>"

definition demo_item :: daily_item where
  "demo_item = ([(''owner_id'', Val_str ''u1'')], [(''Content'', ''hello'')])"


section \<open>Writes stay inside the root\<close>

lemma write_file_inside:
  "write_file st fs p content = Inr fs' \<Longrightarrow> fs' q \<noteq> fs q \<Longrightarrow> q = resolve_path p \<and> take (length (ms_root st)) q = ms_root st"
  by (auto simp: write_file_def within_root_def split: if_splits)

lemma unlocked_inside:
  "append_entries_unlocked st fs p entries u = Inr fs' \<Longrightarrow> fs' q \<noteq> fs q \<Longrightarrow>
   q = resolve_path p \<and> take (length (ms_root st)) q = ms_root st"
  by (auto simp: append_entries_unlocked_def write_markdown_def Let_def
      split: if_splits sum.splits option.splits dest: write_file_inside)

text \<open>
  C28: whatever ids, texts and dates a caller passes, an append changes at most the one file
  its path resolves to, and only when that file lies under the memory root.
\<close>

theorem appends_stay_in_root:
  assumes "snd (append_entries st sc now app_id project_id scope_id d items fs) q \<noteq> fs q"
  shows "q = resolve_path (daily_path st sc scope_id d app_id project_id) \<and>
         take (length (ms_root st)) q = ms_root st"
  using assms
  by (auto simp: append_entries_def Let_def split: if_splits sum.splits prod.splits dest!: unlocked_inside)

text \<open>The count is read before the path is checked: a file outside the root is opened and parsed.\<close>

lemma escaping_path_is_read:
  assumes "\<not> within_root (ms_root st) (daily_path st sc scope_id d app_id project_id)"
    and "file_at fs (daily_path st sc scope_id d app_id project_id) = Some raw" and "items \<noteq> []"
    and "parse_frontmatter (ms_yaml st) (universal_newlines raw) = Inl Yaml_error"
  shows "fst (append_entries st sc now app_id project_id scope_id d items fs) = Inl Yaml_error"
  using assms
  by (simp add: append_entries_def current_count_def read_file_def read_markdown_def parse_markdown_def Let_def)

section \<open>A file that lost its count\<close>

lemma find_entry_parts:
  "find_entry s i = Some e \<longleftrightarrow>
     (\<exists>n k. search_text (open_marker i) s = Some n \<and>
        search_text (close_marker i) (drop (n + length (open_marker i)) s) = Some k \<and>
        n + length (open_marker i) + k + length (close_marker i) \<le> length s \<and>
        e = \<lparr>e_id = i, e_body = strip_one_newline (take k (drop (n + length (open_marker i)) s)),
             e_start = n, e_end = n + length (open_marker i) + k + length (close_marker i)\<rparr>)"
proof -
  have "n + length (open_marker i) + k + length (close_marker i) \<le> length s"
    if "search_text (close_marker i) (drop (n + length (open_marker i)) s) = Some k" for n k
  proof -
    have "length (close_marker i) \<le> length (drop k (drop (n + length (open_marker i)) s))"
      using search_text_bound [OF that] by (rule starts_with_length)
    then show ?thesis by (simp add: close_marker_def)
  qed
  then show ?thesis by (auto simp: find_entry_def Let_def split: option.splits)
qed

lemma find_entry_extend:
  assumes "valid_id i" and "line_closed s" and "find_entry s i = Some e"
  shows "find_entry (s @ u) i = Some e"
proof -
  obtain n k where nk: "search_text (open_marker i) s = Some n"
    "search_text (close_marker i) (drop (n + length (open_marker i)) s) = Some k"
    "n + length (open_marker i) + k + length (close_marker i) \<le> length s"
    "e = \<lparr>e_id = i, e_body = strip_one_newline (take k (drop (n + length (open_marker i)) s)),
          e_start = n, e_end = n + length (open_marker i) + k + length (close_marker i)\<rparr>"
    using assms(3) by (auto simp: find_entry_parts)
  let ?a = "n + length (open_marker i)"
  have "search_text (open_marker i) (s @ u) = Some n"
    using search_text_append [OF newline_not_open [OF assms(1)] _ assms(2), of u] nk(1)
    by (simp add: open_marker_def open_head_def)
  moreover have "search_text (close_marker i) (drop ?a s @ u) = Some k"
    using search_text_append [OF newline_not_close [OF assms(1)] _ line_closed_drop [OF assms(2)], of ?a u] nk(2)
    by (simp add: close_marker_def)
  moreover have "drop ?a (s @ u) = drop ?a s @ u" "take k (drop ?a s @ u) = take k (drop ?a s)"
    using nk(3) by simp_all
  ultimately show ?thesis unfolding find_entry_parts using nk(3,4)
    by (intro exI [of _ n] exI [of _ k]) (simp only: length_append, simp)
qed

lemma find_entry_snoc:
  assumes "valid_id i" and "find_entry s i = Some e"
  shows "find_entry (s @ [newline]) i = Some e"
proof -
  obtain n k where nk: "search_text (open_marker i) s = Some n"
    "search_text (close_marker i) (drop (n + length (open_marker i)) s) = Some k"
    "n + length (open_marker i) + k + length (close_marker i) \<le> length s"
    "e = \<lparr>e_id = i, e_body = strip_one_newline (take k (drop (n + length (open_marker i)) s)),
          e_start = n, e_end = n + length (open_marker i) + k + length (close_marker i)\<rparr>"
    using assms(2) by (auto simp: find_entry_parts)
  let ?a = "n + length (open_marker i)"
  have "search_text (close_marker i) (drop ?a s @ [newline]) = Some k"
    using search_text_snoc [OF newline_not_close [OF assms(1)]] nk(2) by (simp add: close_marker_def)
  moreover have "drop ?a (s @ [newline]) = drop ?a s @ [newline]"
    "take k (drop ?a s @ [newline]) = take k (drop ?a s)"
    using nk(3) by simp_all
  ultimately show ?thesis unfolding find_entry_parts using nk(1,3,4) search_open_end [OF assms(1)]
    by (intro exI [of _ n] exI [of _ k]) (simp only: length_append, simp)
qed

lemma find_entry_append:
  assumes "valid_id i" and "find_entry body i = Some e"
  shows "find_entry (closed_body body @ u) i = Some e"
  using find_entry_extend [OF assms(1) closed_body] find_entry_snoc [OF assms] assms(2)
  by (simp add: closed_body_def)

text \<open>
  C29: the four writers take the next number from the frontmatter, not from the entries: when
  the field is gone (a hand edit that drops the frontmatter, say) the ids start at one again,
  so the file holds the first id twice and the reader keeps returning the old entry.
\<close>

theorem lost_count_reuses_ids:
  assumes "file_at fs p = Some raw" and "p = daily_path st sc scope_id d app_id project_id"
    and "within_root (ms_root st) p" and "list_all id_char (sc_prefix sc)"
    and "parse_frontmatter (ms_yaml st) (universal_newlines raw) = Inr (m, body)"
    and "meta_get m ''entry_count'' = None" and "find_entry body (log_id sc d 1) = Some old"
    and "well_closed body" and "storable (next_for (sc_prefix sc) (ymd d) 0) item"
  shows "\<exists>body'. append_entries st sc now app_id project_id scope_id d [item] fs =
      (Inr (minted sc d 0 1), fs(resolve_path p \<mapsto> dump_frontmatter (ms_yaml st)
         (meta_update m (frontmatter_updates sc now scope_id d 1)) @ body')) \<and>
    map e_id (split_entries body') = map e_id (split_entries body) @ [log_id sc d 1] \<and>
    find_entry body' (log_id sc d 1) = Some old"
proof -
  let ?es = "log_blocks sc d 0 [item]"
  let ?body = "append_blocks body ?es"
  have st: "list_all2 storable (minted sc d 0 (length [item])) [item]"
    using assms(9) by (simp add: minted_def)
  note blocks = storable_blocks [OF st assms(4)]
  have ne: "?es \<noteq> []" by (simp add: log_blocks_def minted_def)
  have "read_file st fs p = Inr \<lparr>pm_frontmatter = m, pm_body = body, pm_entries = split_entries body\<rparr>"
    using assms(1,5) by (simp add: read_file_def read_markdown_def parse_markdown_def)
  then have "append_entries st sc now app_id project_id scope_id d [item] fs =
      (Inr (minted sc d 0 1), fs(resolve_path p \<mapsto> dump_frontmatter (ms_yaml st)
         (meta_update m (frontmatter_updates sc now scope_id d 1)) @ ?body))"
    using assms(1,3,6)
    by (simp add: append_entries_def assms(2) [symmetric] current_count_def append_entries_unlocked_def
        write_markdown_def write_file_def log_blocks_def minted_def Let_def)
  moreover have "map snd (map (\<lambda>e. (e_body e, e_id e)) (split_entries ?body)) =
      map e_id (split_entries body) @ map snd ?es"
    using append_blocks_scan [OF assms(8) blocks(1)] by simp
  then have "map e_id (split_entries ?body) = map e_id (split_entries body) @ [log_id sc d 1]"
    using blocks(3) by (simp add: o_def)
  moreover have "find_entry ?body (log_id sc d 1) = Some old"
    unfolding append_blocks_eq [OF ne] by (rule find_entry_append [OF valid_log_id [OF assms(4)] assms(7)])
  ultimately show ?thesis by blast
qed

definition demo_log :: string where
  "demo_log = append_blocks [] [(''old'', ''ep_20260422_00000001'')]"

definition demo_path :: path where
  "demo_path = daily_path demo_store episode_schema ''u1'' demo_day ''default'' ''p''"

theorem appends_stay_in_root_witness:
  "take 1 (resolve_path demo_path) = [''mem'']"
proof -
  have 1: "yaml_codec (ms_yaml demo_store)" by (simp add: demo_store_def number_codec.yaml_codec_axioms)
  have w: "within_root (ms_root demo_store) demo_path" by code_simp
  have d: "doc_at demo_store (\<lambda>_. None) demo_path [] []" by (simp add: doc_at_def file_at_def)
  have "snd (append_entries demo_store episode_schema ''now'' ''default'' ''p'' ''u1'' demo_day [demo_item] (\<lambda>_. None))
      (resolve_path demo_path) \<noteq> None"
    by (subst append_entries_result [OF 1 demo_path_def w d]) simp_all
  from appends_stay_in_root [OF this] show ?thesis by (simp add: demo_path_def demo_store_def)
qed

theorem lost_count_reuses_ids_witness:
  "\<exists>fs' old. find_entry demo_log ''ep_20260422_00000001'' = Some old \<and>
     append_entries demo_store episode_schema ''now'' ''default'' ''p'' ''u1'' demo_day [demo_item]
       (Map.empty(resolve_path demo_path \<mapsto> demo_log)) = (Inr [next_for ''ep'' ''20260422'' 0], fs')"
proof -
  let ?fs = "Map.empty(resolve_path demo_path \<mapsto> demo_log)"
  have id: "log_id episode_schema demo_day 1 = ''ep_20260422_00000001''" by code_simp
  have "well_closed []" by (simp add: well_closed_def well_closed_from.simps next_entry_def)
  moreover have "list_all ok_block [(''old'', ''ep_20260422_00000001'')]" by code_simp
  ultimately have wc: "well_closed demo_log" using append_blocks_scan unfolding demo_log_def by blast
  have "\<not> Option.is_none (find_entry demo_log ''ep_20260422_00000001'')" by code_simp
  then obtain old where old: "find_entry demo_log ''ep_20260422_00000001'' = Some old"
    by (auto simp: Option.is_none_def)
  have m: "minted episode_schema demo_day 0 1 = [next_for ''ep'' ''20260422'' 0]"
    by (simp add: minted_def) code_simp
  have p: "parse_frontmatter (ms_yaml demo_store) (universal_newlines demo_log) = Inr ([], demo_log)" by code_simp
  have w: "within_root (ms_root demo_store) demo_path" by code_simp
  have c: "list_all id_char (sc_prefix episode_schema)" by code_simp
  have s: "storable (next_for (sc_prefix episode_schema) (ymd demo_day) 0) demo_item" by code_simp
  have f: "file_at ?fs demo_path = Some demo_log" by (simp add: file_at_def)
  have g: "meta_get [] ''entry_count'' = None" by (simp add: meta_get_def)
  note reuse = lost_count_reuses_ids [OF f demo_path_def w c p g old [folded id] wc s, of "''now''", unfolded m]
  show ?thesis using old reuse by blast
qed

text \<open>An id with four digits is normalised to eight before it is looked up, so the entry it names is not found.\<close>

lemma legacy_id_is_not_found:
  "find_entry_for demo_store episode_schema
     (Map.empty(resolve_path demo_path \<mapsto> append_blocks [] [(''old'', ''ep_20260422_0001'')]))
     ''u1'' ''ep_20260422_0001'' ''default'' ''p'' = Inr None"
  by code_simp

end
