(* ===== verification/Writer_Locks.thy ===== *)
theory Writer_Locks
  imports Daily_Log
begin

text \<open>
  Concurrent appends in one process: the per-path lock of \<open>MarkdownWriter.lock_for\<close>
  (\<open>core/persistence/markdown/writer.py\<close>) around the read-modify-write cycle of
  \<open>BaseDailyWriter.append_entries\<close> (\<open>infra/persistence/markdown/writers/base.py\<close>). Tasks
  switch at every \<open>await\<close>: after taking the lock, after reading the count, after loading the
  document and after writing it. A lock belongs to a writer instance and a resolved path.
\<close>

section \<open>Tasks\<close>

record append_task =
  at_writer :: nat
  at_schema :: daily_schema
  at_now :: string
  at_app :: string
  at_project :: string
  at_scope :: string
  at_day :: day
  at_items :: "daily_item list"

definition task_path :: "md_store \<Rightarrow> append_task \<Rightarrow> path" where
  "task_path st a = daily_path st (at_schema a) (at_scope a) (at_day a) (at_app a) (at_project a)"

type_synonym lock_key = "nat \<times> path"

definition lock_for :: "md_store \<Rightarrow> append_task \<Rightarrow> lock_key" where
  "lock_for st a = (at_writer a, resolve_path (task_path st a))"

datatype phase =
    Ready | Holding | Counted int "entry_id list" | Loaded int "entry_id list" meta string
  | Stored "entry_id list" | Finished "md_error + entry_id list"

record pool =
  po_disk :: files
  po_lock :: "lock_key \<Rightarrow> nat option"
  po_phase :: "nat \<Rightarrow> phase"
  po_log :: "nat list"

text \<open>The two reads of the cycle: the ids to use, and the document to extend.\<close>

definition count_step :: "md_store \<Rightarrow> append_task \<Rightarrow> files \<Rightarrow> md_error + int \<times> entry_id list" where
  "count_step st a fs =
     (case current_count st fs (task_path st a) of
        Inl e \<Rightarrow> Inl e
      | Inr count \<Rightarrow> allocate_ids (sc_prefix (at_schema a)) (ymd (at_day a)) count (length (at_items a)))"

definition load_step :: "md_store \<Rightarrow> append_task \<Rightarrow> files \<Rightarrow> md_error + meta \<times> string" where
  "load_step st a fs =
     (let p = task_path st a
      in if \<not> within_root (ms_root st) p then Inl Path_traversal
         else case file_at fs p of
                None \<Rightarrow> Inr ([], [])
              | Some _ \<Rightarrow> (case read_file st fs p of
                             Inl e \<Rightarrow> Inl e
                           | Inr parsed \<Rightarrow> Inr (pm_frontmatter parsed, pm_body parsed)))"

definition store_step ::
  "md_store \<Rightarrow> append_task \<Rightarrow> int \<Rightarrow> entry_id list \<Rightarrow> meta \<Rightarrow> string \<Rightarrow> files \<Rightarrow> md_error + files" where
  "store_step st a base_count eids m body fs =
     (let entries = map (\<lambda>(i, item). (daily_text i item, i)) (zip eids (at_items a));
          updates = frontmatter_updates (at_schema a) (at_now a) (at_scope a) (at_day a)
                      (base_count + int (length (at_items a)))
      in write_markdown st fs (task_path st a) (meta_update m updates)
           (append_blocks body (map (\<lambda>(b, i). (b, entry_id_format i)) entries)))"

definition finish :: "nat \<Rightarrow> lock_key \<Rightarrow> md_error + entry_id list \<Rightarrow> pool \<Rightarrow> pool" where
  "finish t k r s = s\<lparr>po_lock := (po_lock s)(k := None), po_phase := (po_phase s)(t := Finished r)\<rparr>"

definition move :: "nat \<Rightarrow> phase \<Rightarrow> pool \<Rightarrow> pool" where
  "move t ph s = s\<lparr>po_phase := (po_phase s)(t := ph)\<rparr>"

text \<open>The next step of a task; none while it waits for the lock or when it is done.\<close>

definition advance :: "md_store \<Rightarrow> (nat \<Rightarrow> append_task) \<Rightarrow> nat \<Rightarrow> pool \<Rightarrow> pool option" where
  "advance st tasks t s =
     (let a = tasks t; k = lock_for st a
      in case po_phase s t of
           Ready \<Rightarrow>
             (if at_items a = [] then Some (move t (Finished (Inr [])) s)
              else if po_lock s k = None
              then Some (move t Holding (s\<lparr>po_lock := (po_lock s)(k := Some t)\<rparr>)) else None)
         | Holding \<Rightarrow>
             (case count_step st a (po_disk s) of
                Inl e \<Rightarrow> Some (finish t k (Inl e) s)
              | Inr (n, eids) \<Rightarrow> Some (move t (Counted n eids) s))
         | Counted n eids \<Rightarrow>
             (case load_step st a (po_disk s) of
                Inl e \<Rightarrow> Some (finish t k (Inl e) s)
              | Inr (m, body) \<Rightarrow> Some (move t (Loaded n eids m body) s))
         | Loaded n eids m body \<Rightarrow>
             (case store_step st a n eids m body (po_disk s) of
                Inl e \<Rightarrow> Some (finish t k (Inl e) s)
              | Inr fs \<Rightarrow> Some (move t (Stored eids) (s\<lparr>po_disk := fs, po_log := po_log s @ [t]\<rparr>)))
         | Stored eids \<Rightarrow> Some (finish t k (Inr eids) s)
         | Finished r \<Rightarrow> None)"

fun run_schedule :: "md_store \<Rightarrow> (nat \<Rightarrow> append_task) \<Rightarrow> nat list \<Rightarrow> pool \<Rightarrow> pool option" where
  "run_schedule st tasks [] s = Some s"
| "run_schedule st tasks (t # ts) s =
     (case advance st tasks t s of None \<Rightarrow> None | Some s' \<Rightarrow> run_schedule st tasks ts s')"

definition fresh_pool :: "files \<Rightarrow> pool" where
  "fresh_pool fs = \<lparr>po_disk = fs, po_lock = (\<lambda>_. None), po_phase = (\<lambda>_. Ready), po_log = []\<rparr>"

inductive pool_reachable :: "md_store \<Rightarrow> (nat \<Rightarrow> append_task) \<Rightarrow> files \<Rightarrow> pool \<Rightarrow> bool"
  for st tasks fs where
  start: "pool_reachable st tasks fs (fresh_pool fs)"
| step: "pool_reachable st tasks fs s \<Longrightarrow> advance st tasks t s = Some s' \<Longrightarrow> pool_reachable st tasks fs s'"

section \<open>Serial execution\<close>

definition run_task :: "md_store \<Rightarrow> append_task \<Rightarrow> files \<Rightarrow> (md_error + entry_id list) \<times> files" where
  "run_task st a fs =
     append_entries st (at_schema a) (at_now a) (at_app a) (at_project a) (at_scope a) (at_day a) (at_items a) fs"

lemma run_task_steps:
  assumes "at_items a \<noteq> []" and "count_step st a fs = Inr (n, eids)"
    and "load_step st a fs = Inr (m, body)" and "store_step st a n eids m body fs = Inr fs'"
  shows "run_task st a fs = (Inr eids, fs')"
proof -
  let ?p = "task_path st a"
  obtain count where c: "current_count st fs ?p = Inr count"
    "allocate_ids (sc_prefix (at_schema a)) (ymd (at_day a)) count (length (at_items a)) = Inr (n, eids)"
    using assms(2) by (auto simp: count_step_def split: sum.splits)
  have "append_entries_unlocked st fs ?p (map (\<lambda>(i, item). (daily_text i item, i)) (zip eids (at_items a)))
      (Some (frontmatter_updates (at_schema a) (at_now a) (at_scope a) (at_day a) (n + int (length (at_items a))))) = Inr fs'"
    using assms(3,4)
    by (auto simp: append_entries_unlocked_def load_step_def store_step_def Let_def
        split: if_splits option.splits sum.splits)
  then show ?thesis
    using assms(1) c by (simp add: run_task_def append_entries_def task_path_def Let_def)
qed

text \<open>Who holds a lock is in its critical section, and what it has read is still on disk.\<close>

fun critical :: "phase \<Rightarrow> bool" where
  "critical Ready = False"
| "critical (Finished _) = False"
| "critical _ = True"

fun read_so_far :: "md_store \<Rightarrow> append_task \<Rightarrow> files \<Rightarrow> phase \<Rightarrow> bool" where
  "read_so_far st a fs (Counted n eids) \<longleftrightarrow> count_step st a fs = Inr (n, eids)"
| "read_so_far st a fs (Loaded n eids m body) \<longleftrightarrow>
     count_step st a fs = Inr (n, eids) \<and> load_step st a fs = Inr (m, body)"
| "read_so_far st a fs _ \<longleftrightarrow> True"

definition serial :: "md_store \<Rightarrow> (nat \<Rightarrow> append_task) \<Rightarrow> nat list \<Rightarrow> files \<Rightarrow> files" where
  "serial st tasks ts fs = fold (\<lambda>t fs. snd (run_task st (tasks t) fs)) ts fs"

fun answer :: "phase \<Rightarrow> entry_id list option" where
  "answer (Stored eids) = Some eids"
| "answer (Finished (Inr eids)) = Some eids"
| "answer _ = None"

definition answers_serial :: "md_store \<Rightarrow> (nat \<Rightarrow> append_task) \<Rightarrow> files \<Rightarrow> pool \<Rightarrow> bool" where
  "answers_serial st tasks fs s \<longleftrightarrow>
     distinct (po_log s) \<and> po_disk s = serial st tasks (po_log s) fs \<and>
     (\<forall>t. t \<in> set (po_log s) \<longleftrightarrow> answer (po_phase s t) \<noteq> None \<and> at_items (tasks t) \<noteq> []) \<and>
     (\<forall>before t after. po_log s = before @ t # after \<longrightarrow>
        (\<exists>eids. answer (po_phase s t) = Some eids \<and>
                fst (run_task st (tasks t) (serial st tasks before fs)) = Inr eids))"

definition locks_ok :: "md_store \<Rightarrow> (nat \<Rightarrow> append_task) \<Rightarrow> pool \<Rightarrow> bool" where
  "locks_ok st tasks s \<longleftrightarrow>
     (\<forall>t. critical (po_phase s t) \<longleftrightarrow> po_lock s (lock_for st (tasks t)) = Some t) \<and>
     (\<forall>t. critical (po_phase s t) \<longrightarrow> at_items (tasks t) \<noteq> [])"

definition pool_inv :: "md_store \<Rightarrow> (nat \<Rightarrow> append_task) \<Rightarrow> files \<Rightarrow> pool \<Rightarrow> bool" where
  "pool_inv st tasks fs s \<longleftrightarrow>
     locks_ok st tasks s \<and> (\<forall>t. read_so_far st (tasks t) (po_disk s) (po_phase s t)) \<and>
     answers_serial st tasks fs s"

definition one_writer_per_path :: "md_store \<Rightarrow> (nat \<Rightarrow> append_task) \<Rightarrow> bool" where
  "one_writer_per_path st tasks \<longleftrightarrow>
     (\<forall>t u. resolve_path (task_path st (tasks t)) = resolve_path (task_path st (tasks u)) \<longrightarrow>
            at_writer (tasks t) = at_writer (tasks u))"

lemma steps_read_path:
  assumes "fs (resolve_path (task_path st a)) = fs' (resolve_path (task_path st a))"
  shows "count_step st a fs = count_step st a fs'" and "load_step st a fs = load_step st a fs'"
proof -
  have same: "file_at fs (task_path st a) = file_at fs' (task_path st a)" using assms by (simp add: file_at_def)
  then have "read_file st fs (task_path st a) = read_file st fs' (task_path st a)" by (simp add: read_file_def)
  with same show "count_step st a fs = count_step st a fs'" "load_step st a fs = load_step st a fs'"
    by (simp_all add: count_step_def load_step_def current_count_def Let_def split: option.split)
qed

lemma store_step_writes:
  "store_step st a n eids m body fs = Inr fs' \<Longrightarrow> q \<noteq> resolve_path (task_path st a) \<Longrightarrow> fs' q = fs q"
  by (auto simp: store_step_def write_markdown_def write_file_def Let_def split: if_splits)

lemma read_so_far_path:
  assumes "read_so_far st a fs ph" and "fs (resolve_path (task_path st a)) = fs' (resolve_path (task_path st a))"
  shows "read_so_far st a fs' ph"
  using assms steps_read_path [of fs st a fs'] by (cases ph) simp_all

lemma read_so_far_trivial: "\<not> critical ph \<Longrightarrow> read_so_far st a fs ph"
  by (cases ph) simp_all

text \<open>Two tasks in their critical sections work on different paths.\<close>

lemma critical_apart:
  assumes "locks_ok st tasks s" and "one_writer_per_path st tasks"
    and "critical (po_phase s t)" and "critical (po_phase s u)" and "t \<noteq> u"
  shows "resolve_path (task_path st (tasks t)) \<noteq> resolve_path (task_path st (tasks u))"
proof
  assume *: "resolve_path (task_path st (tasks t)) = resolve_path (task_path st (tasks u))"
  then have "at_writer (tasks t) = at_writer (tasks u)" using assms(2) unfolding one_writer_per_path_def by blast
  with * have "lock_for st (tasks t) = lock_for st (tasks u)" by (simp add: lock_for_def)
  moreover have "po_lock s (lock_for st (tasks t)) = Some t" "po_lock s (lock_for st (tasks u)) = Some u"
    using assms(1,3,4) unfolding locks_ok_def by simp_all
  ultimately show False using assms(5) by simp
qed

lemma serial_snoc: "serial st tasks (ts @ [t]) fs = snd (run_task st (tasks t) (serial st tasks ts fs))"
  by (simp add: serial_def)

lemma locks_ok_move:
  assumes "locks_ok st tasks s" and "critical (po_phase s t)" and "critical ph"
  shows "locks_ok st tasks (move t ph s)"
  using assms by (auto simp: locks_ok_def move_def)

lemma locks_ok_disk: "locks_ok st tasks (s\<lparr>po_disk := fs, po_log := ts\<rparr>) = locks_ok st tasks s"
  by (simp add: locks_ok_def)

lemma locks_ok_finish:
  assumes "locks_ok st tasks s" and "critical (po_phase s t)"
  shows "locks_ok st tasks (finish t (lock_for st (tasks t)) r s)"
  using assms by (auto simp: locks_ok_def finish_def)

lemma answers_move:
  assumes "answers_serial st tasks fs s" and "answer (po_phase s t) = None"
    and "answer ph = None \<or> at_items (tasks t) = []"
  shows "answers_serial st tasks fs (move t ph s)"
proof -
  have t: "t \<notin> set (po_log s)" using assms(1,2) unfolding answers_serial_def by blast
  have "\<exists>e. answer (if u = t then ph else po_phase s u) = Some e \<and>
      fst (run_task st (tasks u) (serial st tasks before fs)) = Inr e"
    if "po_log s = before @ u # after" for before u after
  proof -
    have "u \<noteq> t" using t that by auto
    then show ?thesis using assms(1) that unfolding answers_serial_def by simp
  qed
  then show ?thesis using assms t unfolding answers_serial_def move_def by simp
qed

lemma answers_lock: "answers_serial st tasks fs (s\<lparr>po_lock := l\<rparr>) = answers_serial st tasks fs s"
  by (simp add: answers_serial_def)

lemma finish_move: "finish t k r s = move t (Finished r) (s\<lparr>po_lock := (po_lock s)(k := None)\<rparr>)"
  by (simp add: finish_def move_def)

lemma answers_stored:
  assumes "answers_serial st tasks fs s" and "answer (po_phase s t) = None" and "at_items (tasks t) \<noteq> []"
    and "run_task st (tasks t) (po_disk s) = (Inr eids, fs')"
  shows "answers_serial st tasks fs (move t (Stored eids) (s\<lparr>po_disk := fs', po_log := po_log s @ [t]\<rparr>))"
proof -
  have new: "t \<notin> set (po_log s)" and disk: "po_disk s = serial st tasks (po_log s) fs"
    using assms(1,2) by (auto simp: answers_serial_def)
  have "\<exists>e. answer (if u = t then Stored eids else po_phase s u) = Some e \<and>
      fst (run_task st (tasks u) (serial st tasks before fs)) = Inr e"
    if "po_log s @ [t] = before @ u # after" for before u after
  proof (cases after rule: rev_cases)
    case Nil
    then show ?thesis using that assms(4) disk by simp
  next
    case (snoc xs x)
    then have log: "po_log s = before @ u # xs" using that by simp
    then have "u \<noteq> t" using new by auto
    then show ?thesis using assms(1) log by (auto simp: answers_serial_def)
  qed
  then show ?thesis
    using assms new disk by (auto simp: answers_serial_def move_def serial_snoc)
qed


lemma read_so_far_move:
  assumes "\<And>u. read_so_far st (tasks u) (po_disk s) (po_phase s u)"
    and "read_so_far st (tasks t) (po_disk s) ph"
  shows "read_so_far st (tasks u) (po_disk (move t ph s)) (po_phase (move t ph s) u)"
  using assms by (simp add: move_def)

lemma pool_inv_move:
  assumes "pool_inv st tasks fs s" and "critical (po_phase s t)" and "critical ph"
    and "answer (po_phase s t) = None" and "answer ph = None"
    and "read_so_far st (tasks t) (po_disk s) ph"
  shows "pool_inv st tasks fs (move t ph s)"
  using assms unfolding pool_inv_def
  by (intro conjI allI locks_ok_move read_so_far_move answers_move) blast+

lemma pool_inv_finish:
  assumes "pool_inv st tasks fs s" and "critical (po_phase s t)"
    and "answers_serial st tasks fs (move t (Finished r) s)"
  shows "pool_inv st tasks fs (finish t (lock_for st (tasks t)) r s)"
proof -
  have "answers_serial st tasks fs (finish t (lock_for st (tasks t)) r s)"
    using assms(3) by (simp add: answers_serial_def finish_def move_def)
  moreover have "read_so_far st (tasks u) (po_disk s) (if u = t then Finished r else po_phase s u)" for u
    using assms(1) by (simp add: pool_inv_def)
  ultimately show ?thesis
    using assms(1,2) locks_ok_finish [of st tasks s t r] by (simp add: pool_inv_def finish_def)
qed

lemma pool_inv_fail:
  assumes "pool_inv st tasks fs s" and "critical (po_phase s t)" and "answer (po_phase s t) = None"
  shows "pool_inv st tasks fs (finish t (lock_for st (tasks t)) (Inl e) s)"
  using assms by (intro pool_inv_finish answers_move) (auto simp: pool_inv_def)

lemma answers_same_answer:
  assumes "answers_serial st tasks fs s" and "answer (po_phase s t) = answer ph"
  shows "answers_serial st tasks fs (move t ph s)"
proof -
  have "answer (po_phase (move t ph s) u) = answer (po_phase s u)" for u
    using assms(2) by (simp add: move_def)
  moreover have "po_log (move t ph s) = po_log s" "po_disk (move t ph s) = po_disk s"
    by (simp_all add: move_def)
  ultimately show ?thesis using assms(1) unfolding answers_serial_def by simp
qed

lemma pool_inv_store:
  assumes inv: "pool_inv st tasks fs s" and one: "one_writer_per_path st tasks"
    and ph: "po_phase s t = Loaded n eids m body"
    and store: "store_step st (tasks t) n eids m body (po_disk s) = Inr fs'"
  shows "pool_inv st tasks fs (move t (Stored eids) (s\<lparr>po_disk := fs', po_log := po_log s @ [t]\<rparr>))"
    (is "pool_inv st tasks fs ?s'")
proof -
  have crit: "critical (po_phase s t)" by (simp add: ph)
  have locks: "locks_ok st tasks s" and ans: "answers_serial st tasks fs s"
    and read: "\<And>u. read_so_far st (tasks u) (po_disk s) (po_phase s u)"
    using inv by (simp_all add: pool_inv_def)
  have items: "at_items (tasks t) \<noteq> []" using locks crit unfolding locks_ok_def by blast
  have "run_task st (tasks t) (po_disk s) = (Inr eids, fs')"
    using read [of t] ph by (intro run_task_steps [OF items _ _ store]) simp_all
  then have "answers_serial st tasks fs ?s'" using ans items by (intro answers_stored) (simp_all add: ph)
  moreover have "locks_ok st tasks ?s'"
    using locks crit by (intro locks_ok_move) (simp_all add: locks_ok_disk)
  moreover have "read_so_far st (tasks u) (po_disk ?s') (po_phase ?s' u)" for u
  proof (cases "u = t \<or> \<not> critical (po_phase s u)")
    case True
    then show ?thesis by (auto simp: move_def intro: read_so_far_trivial)
  next
    case False
    then have "resolve_path (task_path st (tasks u)) \<noteq> resolve_path (task_path st (tasks t))"
      using critical_apart [OF locks one, of u t] crit by blast
    then have "po_disk s (resolve_path (task_path st (tasks u))) = fs' (resolve_path (task_path st (tasks u)))"
      using store_step_writes [OF store] by simp
    with read [of u] have "read_so_far st (tasks u) fs' (po_phase s u)" by (rule read_so_far_path)
    then show ?thesis using False by (simp add: move_def)
  qed
  ultimately show ?thesis by (simp add: pool_inv_def)
qed

lemma pool_inv_take:
  assumes "pool_inv st tasks fs s" and "po_phase s t = Ready" and "at_items (tasks t) \<noteq> []"
    and "po_lock s (lock_for st (tasks t)) = None"
  shows "pool_inv st tasks fs (move t Holding (s\<lparr>po_lock := (po_lock s)(lock_for st (tasks t) := Some t)\<rparr>))"
    (is "pool_inv st tasks fs ?s'")
proof -
  have locks: "locks_ok st tasks s" using assms(1) by (simp add: pool_inv_def)
  have "critical (po_phase ?s' u) \<longleftrightarrow> po_lock ?s' (lock_for st (tasks u)) = Some u" for u
  proof -
    have "critical (po_phase s u) \<longleftrightarrow> po_lock s (lock_for st (tasks u)) = Some u"
      using locks by (simp add: locks_ok_def)
    then show ?thesis using assms(2,4) by (auto simp: move_def)
  qed
  moreover have "critical (po_phase ?s' u) \<longrightarrow> at_items (tasks u) \<noteq> []" for u
    using locks assms(3) by (simp add: locks_ok_def move_def)
  ultimately have "locks_ok st tasks ?s'" unfolding locks_ok_def by blast
  moreover have "answers_serial st tasks fs ?s'"
    using assms(1,2) by (intro answers_move) (simp_all add: pool_inv_def answers_lock)
  ultimately show ?thesis using assms(1) by (simp add: pool_inv_def move_def)
qed

lemma pool_inv_advance:
  assumes inv: "pool_inv st tasks fs s" and one: "one_writer_per_path st tasks"
    and adv: "advance st tasks t s = Some s'"
  shows "pool_inv st tasks fs s'"
proof (cases "po_phase s t")
  case Ready
  show ?thesis
  proof (cases "at_items (tasks t) = []")
    case True
    then have "s' = move t (Finished (Inr [])) s" using adv Ready by (simp add: advance_def Let_def)
    moreover have free: "po_lock s (lock_for st (tasks t)) \<noteq> Some t"
      using inv Ready unfolding pool_inv_def locks_ok_def by (metis critical.simps(1))
    have "critical (po_phase (move t (Finished (Inr [])) s) u) \<longleftrightarrow> po_lock s (lock_for st (tasks u)) = Some u" for u
      using inv free by (simp add: pool_inv_def locks_ok_def move_def)
    moreover have "critical (po_phase (move t (Finished (Inr [])) s) u) \<longrightarrow> at_items (tasks u) \<noteq> []" for u
      using inv by (simp add: pool_inv_def locks_ok_def move_def)
    moreover have "po_lock (move t (Finished (Inr [])) s) = po_lock s" by (simp add: move_def)
    ultimately have "s' = move t (Finished (Inr [])) s" "locks_ok st tasks (move t (Finished (Inr [])) s)"
      unfolding locks_ok_def by simp_all
    moreover have "answers_serial st tasks fs (move t (Finished (Inr [])) s)"
      using inv Ready True by (intro answers_move) (simp_all add: pool_inv_def)
    ultimately show ?thesis using inv by (simp add: pool_inv_def move_def)
  next
    case False
    then show ?thesis using adv Ready inv by (auto simp: advance_def Let_def split: if_splits intro: pool_inv_take)
  qed
next
  case Holding
  then show ?thesis
    using adv inv by (auto simp: advance_def Let_def split: sum.splits intro!: pool_inv_fail pool_inv_move)
next
  case (Counted n eids)
  then have "count_step st (tasks t) (po_disk s) = Inr (n, eids)"
    using inv by (auto simp: pool_inv_def dest: spec [of _ t])
  then show ?thesis
    using Counted adv inv by (auto simp: advance_def Let_def split: sum.splits intro!: pool_inv_fail pool_inv_move)
next
  case (Loaded n eids m body)
  then show ?thesis
    using adv inv by (auto simp: advance_def Let_def split: sum.splits intro!: pool_inv_fail pool_inv_store [OF inv one])
next
  case (Stored eids)
  then have "s' = finish t (lock_for st (tasks t)) (Inr eids) s" using adv by (simp add: advance_def Let_def)
  moreover have "answers_serial st tasks fs (move t (Finished (Inr eids)) s)"
    using inv Stored by (intro answers_same_answer) (simp_all add: pool_inv_def)
  ultimately show ?thesis using inv Stored by (simp add: pool_inv_finish)
next
  case (Finished r)
  then show ?thesis using adv by (simp add: advance_def Let_def)
qed

lemma pool_inv_reachable:
  assumes "pool_reachable st tasks fs s" and "one_writer_per_path st tasks"
  shows "pool_inv st tasks fs s"
  using assms(1)
proof (induction rule: pool_reachable.induct)
  case start
  show ?case
    by (simp add: pool_inv_def fresh_pool_def locks_ok_def answers_serial_def serial_def)
next
  case (step s t s')
  then show ?case using pool_inv_advance assms(2) by blast
qed


section \<open>No deadlock\<close>

lemma holders_reachable:
  "pool_reachable st tasks fs s \<Longrightarrow> po_lock s k = Some t \<Longrightarrow> k = lock_for st (tasks t)"
proof (induction rule: pool_reachable.induct)
  case start
  then show ?case by (simp add: fresh_pool_def)
next
  case (step s u s')
  then show ?case
    by (auto simp: advance_def Let_def move_def finish_def split: phase.splits if_splits sum.splits)
qed

definition unfinished :: "pool \<Rightarrow> nat \<Rightarrow> bool" where
  "unfinished s t \<longleftrightarrow> (case po_phase s t of Finished _ \<Rightarrow> False | _ \<Rightarrow> True)"

lemma critical_advances: "critical (po_phase s t) \<Longrightarrow> advance st tasks t s \<noteq> None"
  by (cases "po_phase s t") (auto simp: advance_def Let_def split: sum.splits)

lemma pool_progress:
  assumes "pool_reachable st tasks fs s" and "one_writer_per_path st tasks" and "unfinished s t"
  shows "\<exists>u. advance st tasks u s \<noteq> None"
proof (cases "po_phase s t")
  case Ready
  show ?thesis
  proof (cases "po_lock s (lock_for st (tasks t))")
    case None
    then have "advance st tasks t s \<noteq> None" using Ready by (simp add: advance_def Let_def)
    then show ?thesis ..
  next
    case (Some u)
    then have "lock_for st (tasks t) = lock_for st (tasks u)" by (rule holders_reachable [OF assms(1)])
    then have "critical (po_phase s u)"
      using Some pool_inv_reachable [OF assms(1,2)] unfolding pool_inv_def locks_ok_def by metis
    then show ?thesis using critical_advances by blast
  qed
next
  case (Finished r)
  then show ?thesis using assms(3) by (simp add: unfinished_def)
qed (use critical_advances [of s t st tasks] in \<open>force+\<close>)

section \<open>The properties\<close>

text \<open>
  C27: when the tasks that append to one file share a writer, every interleaving is as good as
  a serial run: the files are those of running the tasks that stored their entries one after
  the other in that order, each returned the ids of the serial run, and as long as a task is
  unfinished some task can take a step.
\<close>

theorem appends_are_serial:
  assumes "pool_reachable st tasks fs s" and "one_writer_per_path st tasks"
  shows "answers_serial st tasks fs s \<and> (\<forall>t. \<not> unfinished s t \<or> (\<exists>u. advance st tasks u s \<noteq> None))"
  using pool_inv_reachable [OF assms] pool_progress [OF assms] by (auto simp: pool_inv_def)

lemma run_task_success:
  assumes "run_task st a fs = (Inr eids, fs')" and "at_items a \<noteq> []"
  obtains n m body where "count_step st a fs = Inr (n, eids)" and "load_step st a fs = Inr (m, body)"
    and "store_step st a n eids m body fs = Inr fs'"
proof -
  let ?p = "task_path st a"
  let ?u = "\<lambda>n. frontmatter_updates (at_schema a) (at_now a) (at_scope a) (at_day a) (n + int (length (at_items a)))"
  let ?es = "\<lambda>eids. map (\<lambda>(i, item). (daily_text i item, i)) (zip eids (at_items a))"
  obtain n where c: "count_step st a fs = Inr (n, eids)"
    and w: "append_entries_unlocked st fs ?p (?es eids) (Some (?u n)) = Inr fs'"
    using assms
    by (auto simp: run_task_def append_entries_def count_step_def task_path_def Let_def
        split: sum.splits prod.splits)
  obtain m body where "load_step st a fs = Inr (m, body)" "store_step st a n eids m body fs = Inr fs'"
    using w by (auto simp: append_entries_unlocked_def load_step_def store_step_def Let_def
        split: if_splits option.splits sum.splits)
  with c that show thesis by blast
qed

definition lost_schedule :: "nat list" where "lost_schedule = [0, 1, 0, 1, 0, 1, 0, 1, 0, 1]"

text \<open>
  Two writer instances have two locks for one file. Memorize and the reflection strategy
  each build an \<open>EpisodeWriter\<close> of their own, so two appends to a user's file of the day can
  interleave such that both succeed, with the same ids when the counts agree, and the file is
  left as if the first had never run.
\<close>

lemma two_writers_lose_an_append:
  assumes "at_writer (tasks 0) \<noteq> at_writer (tasks 1)" and "task_path st (tasks 0) = task_path st (tasks 1)"
    and "at_items (tasks 0) \<noteq> []" and "at_items (tasks 1) \<noteq> []"
    and "run_task st (tasks 0) fs = (Inr eids0, fs0)" and "run_task st (tasks 1) fs = (Inr eids1, fs1)"
  shows "\<exists>s. run_schedule st tasks lost_schedule (fresh_pool fs) = Some s \<and>
     po_phase s 0 = Finished (Inr eids0) \<and> po_phase s 1 = Finished (Inr eids1) \<and> po_disk s = fs1"
proof -
  obtain n0 m0 b0 where t0: "count_step st (tasks 0) fs = Inr (n0, eids0)" "load_step st (tasks 0) fs = Inr (m0, b0)"
    "store_step st (tasks 0) n0 eids0 m0 b0 fs = Inr fs0"
    by (rule run_task_success [OF assms(5,3)])
  obtain n1 m1 b1 where t1: "count_step st (tasks 1) fs = Inr (n1, eids1)" "load_step st (tasks 1) fs = Inr (m1, b1)"
    "store_step st (tasks 1) n1 eids1 m1 b1 fs = Inr fs1"
    by (rule run_task_success [OF assms(6,4)])
  have keys: "lock_for st (tasks 0) \<noteq> lock_for st (tasks 1)" using assms(1) by (simp add: lock_for_def)
  have over: "store_step st (tasks 1) n1 eids1 m1 b1 fs0 = Inr fs1"
    using t0(3) t1(3) assms(2)
    by (auto simp: store_step_def write_markdown_def write_file_def Let_def split: if_splits)
  show ?thesis
    using assms(3,4) t0 t1 over keys
    by (simp add: lost_schedule_def advance_def fresh_pool_def move_def finish_def Let_def)
qed


definition demo_task :: "nat \<Rightarrow> append_task" where
  "demo_task w = \<lparr>at_writer = w, at_schema = episode_schema, at_now = ''now'', at_app = ''default'',
     at_project = ''p'', at_scope = ''u1'', at_day = demo_day, at_items = [demo_item]\<rparr>"

lemma demo_task_run:
  obtains fs' where "run_task demo_store (demo_task w) (\<lambda>_. None) = (Inr [next_for ''ep'' ''20260422'' 0], fs')"
    and "fs' (resolve_path demo_path) \<noteq> None"
proof -
  have 1: "yaml_codec (ms_yaml demo_store)" by (simp add: demo_store_def number_codec.yaml_codec_axioms)
  have w: "within_root (ms_root demo_store) demo_path" by code_simp
  have d: "doc_at demo_store (\<lambda>_. None) demo_path [] []" by (simp add: doc_at_def file_at_def)
  have m: "minted episode_schema demo_day 0 1 = [next_for ''ep'' ''20260422'' 0]"
    by (simp add: minted_def) code_simp
  obtain fs' where r: "append_entries demo_store episode_schema ''now'' ''default'' ''p'' ''u1'' demo_day [demo_item] (\<lambda>_. None)
      = (Inr [next_for ''ep'' ''20260422'' 0], fs')"
    "fs' (resolve_path demo_path) \<noteq> None"
    using append_entries_result [OF 1 demo_path_def w d, of 0 "[demo_item]" "''now''"]
    using m by fastforce
  then have "run_task demo_store (demo_task w) (\<lambda>_. None) = (Inr [next_for ''ep'' ''20260422'' 0], fs')"
    by (simp add: run_task_def demo_task_def)
  from that [OF this r(2)] show thesis .
qed

lemma run_schedule_reachable:
  "run_schedule st tasks ts s = Some s' \<Longrightarrow> pool_reachable st tasks fs s \<Longrightarrow> pool_reachable st tasks fs s'"
  by (induction ts arbitrary: s) (auto split: option.splits intro: pool_reachable.step)

theorem appends_are_serial_witness:
  "\<exists>s. run_schedule demo_store (\<lambda>_. demo_task 0) [0, 0, 0, 0, 0] (fresh_pool (\<lambda>_. None)) = Some s \<and>
     po_log s = [0] \<and> answers_serial demo_store (\<lambda>_. demo_task 0) (\<lambda>_. None) s"
proof -
  let ?none = "\<lambda>_. None"
  obtain fs' where r: "run_task demo_store (demo_task 0) ?none = (Inr [next_for ''ep'' ''20260422'' 0], fs')"
    by (rule demo_task_run)
  have items: "at_items (demo_task 0) \<noteq> []" by (simp add: demo_task_def)
  obtain n m b where t: "count_step demo_store (demo_task 0) ?none = Inr (n, [next_for ''ep'' ''20260422'' 0])"
    "load_step demo_store (demo_task 0) ?none = Inr (m, b)"
    "store_step demo_store (demo_task 0) n [next_for ''ep'' ''20260422'' 0] m b ?none = Inr fs'"
    by (rule run_task_success [OF r items])
  then obtain s where s: "run_schedule demo_store (\<lambda>_. demo_task 0) [0, 0, 0, 0, 0] (fresh_pool ?none) = Some s"
    "po_log s = [0]"
    using items by (simp add: advance_def fresh_pool_def move_def finish_def Let_def)
  have "one_writer_per_path demo_store (\<lambda>_. demo_task 0)" by (simp add: one_writer_per_path_def)
  with appends_are_serial [OF run_schedule_reachable [OF s(1) pool_reachable.start]] s show ?thesis by blast
qed

lemma two_writers_lose_an_append_witness:
  "\<exists>s fs0. run_schedule demo_store demo_task lost_schedule (fresh_pool (\<lambda>_. None)) = Some s \<and>
     po_phase s 0 = Finished (Inr [next_for ''ep'' ''20260422'' 0]) \<and>
     po_phase s 1 = Finished (Inr [next_for ''ep'' ''20260422'' 0]) \<and>
     run_task demo_store (demo_task 0) (\<lambda>_. None) = (Inr [next_for ''ep'' ''20260422'' 0], fs0)"
proof -
  obtain fs0 where r0: "run_task demo_store (demo_task 0) (\<lambda>_. None) = (Inr [next_for ''ep'' ''20260422'' 0], fs0)"
    by (rule demo_task_run)
  obtain fs1 where r1: "run_task demo_store (demo_task 1) (\<lambda>_. None) = (Inr [next_for ''ep'' ''20260422'' 0], fs1)"
    by (rule demo_task_run)
  have w: "at_writer (demo_task 0) \<noteq> at_writer (demo_task 1)"
    and q: "task_path demo_store (demo_task 0) = task_path demo_store (demo_task 1)"
    and i: "at_items (demo_task 0) \<noteq> []" "at_items (demo_task 1) \<noteq> []"
    by (simp_all add: demo_task_def task_path_def)
  from two_writers_lose_an_append [OF w q i r0 r1] r0 show ?thesis by blast
qed

section \<open>No append is lost\<close>

definition same_log :: "md_store \<Rightarrow> daily_schema \<Rightarrow> day \<Rightarrow> path \<Rightarrow> append_task \<Rightarrow> bool" where
  "same_log st sc d p a \<longleftrightarrow>
     at_schema a = sc \<and> at_day a = d \<and> task_path st a = p \<and> at_items a \<noteq> [] \<and>
     (\<forall>n. list_all2 storable (minted sc d n (length (at_items a))) (at_items a))"

definition item_count :: "(nat \<Rightarrow> append_task) \<Rightarrow> nat list \<Rightarrow> nat" where
  "item_count tasks ts = sum_list (map (\<lambda>t. length (at_items (tasks t))) ts)"

lemma serial_log:
  assumes "yaml_codec (ms_yaml st)" and "valid_day d" and "1000 \<le> d_year d"
    and "sc_prefix sc \<noteq> []" and "list_all id_char (sc_prefix sc)" and "within_root (ms_root st) p"
    and "log_file st sc d fs p n body" and "distinct (map e_id (split_entries body))"
    and "\<And>t. same_log st sc d p (tasks t)"
  shows "\<exists>body'. log_file st sc d (serial st tasks ts fs) p (n + item_count tasks ts) body' \<and>
    map e_id (split_entries body') = map e_id (split_entries body)
      @ map (log_id sc d) [n + 1 ..< n + item_count tasks ts + 1] \<and>
    distinct (map e_id (split_entries body'))"
proof (induction ts rule: rev_induct)
  case Nil
  then show ?case using assms(7,8) by (auto simp: serial_def item_count_def)
next
  case (snoc t ts)
  let ?a = "tasks t" and ?k = "n + item_count tasks ts"
  have a: "at_schema ?a = sc" "at_day ?a = d" "task_path st ?a = p" "at_items ?a \<noteq> []"
    "list_all2 storable (minted sc d ?k (length (at_items ?a))) (at_items ?a)"
    using assms(9) [of t] by (auto simp: same_log_def)
  obtain body' where b: "log_file st sc d (serial st tasks ts fs) p ?k body'"
    "map e_id (split_entries body') = map e_id (split_entries body) @ map (log_id sc d) [n + 1 ..< ?k + 1]"
    "distinct (map e_id (split_entries body'))"
    using snoc.IH by blast
  have p: "p = daily_path st sc (at_scope ?a) d (at_app ?a) (at_project ?a)"
    using a by (auto simp: task_path_def)
  obtain fs'' body'' where r: "run_task st ?a (serial st tasks ts fs) = (Inr (minted sc d ?k (length (at_items ?a))), fs'')"
    "log_file st sc d fs'' p (?k + length (at_items ?a)) body''"
    "map e_id (split_entries body'') = map e_id (split_entries body')
       @ map (\<lambda>i. log_id sc d (?k + i + 1)) [0..<length (at_items ?a)]"
    "distinct (map e_id (split_entries body''))"
    using append_keeps_log [OF assms(1-5) p assms(6) b(1,3) a(5,4), of "at_now ?a"]
    by (auto simp: run_task_def a(1,2))
  have "map (\<lambda>i. log_id sc d (k + i + 1)) [0..<l] = map (log_id sc d) [k + 1 ..< k + l + 1]" for k l
    by (rule nth_equalityI) (simp_all del: upt_Suc)
  moreover have "[n + 1 ..< ?k + 1] @ [?k + 1 ..< ?k + l + 1] = [n + 1 ..< ?k + l + 1]" for l
    using upt_add_eq_append [of "n + 1" "?k + 1" l] by (simp add: add_ac)
  ultimately have "map e_id (split_entries body'') = map e_id (split_entries body)
      @ map (log_id sc d) [n + 1 ..< ?k + length (at_items ?a) + 1]"
    using r(3) b(2) by (metis append.assoc map_append)
  with r show ?case
    by (intro exI [of _ body'']) (simp add: serial_snoc item_count_def add_ac)
qed

text \<open>
  C7: with one writer per file, after any interleaving of appends to a daily file every entry
  that was there and every entry of a task that returned is in the file, under ids that are
  all different.
\<close>

theorem no_append_is_lost:
  assumes "yaml_codec (ms_yaml st)" and "valid_day d" and "1000 \<le> d_year d"
    and "sc_prefix sc \<noteq> []" and "list_all id_char (sc_prefix sc)" and "within_root (ms_root st) p"
    and "log_file st sc d fs p n body" and "distinct (map e_id (split_entries body))"
    and "\<And>t. same_log st sc d p (tasks t)"
    and "pool_reachable st tasks fs s" and "one_writer_per_path st tasks"
  shows "(\<exists>body'. log_file st sc d (po_disk s) p (n + item_count tasks (po_log s)) body' \<and>
      map e_id (split_entries body') = map e_id (split_entries body)
        @ map (log_id sc d) [n + 1 ..< n + item_count tasks (po_log s) + 1] \<and>
      distinct (map e_id (split_entries body'))) \<and>
    (\<forall>t. t \<in> set (po_log s) \<longleftrightarrow> answer (po_phase s t) \<noteq> None)"
proof -
  have "answers_serial st tasks fs s" using pool_inv_reachable [OF assms(10,11)] by (simp add: pool_inv_def)
  moreover have "at_items (tasks t) \<noteq> []" for t using assms(9) by (simp add: same_log_def)
  ultimately have "po_disk s = serial st tasks (po_log s) fs"
    and "\<forall>t. t \<in> set (po_log s) \<longleftrightarrow> answer (po_phase s t) \<noteq> None"
    unfolding answers_serial_def by simp_all
  with serial_log [OF assms(1-9), where ts = "po_log s"] show ?thesis by simp
qed

lemma search_text_absent: "c \<notin> set s \<Longrightarrow> search_text (c # p) s = None"
  by (induction s) (auto simp: starts_with_def)

lemma valid_id_trimmed:
  assumes "valid_id i"
  shows "trimmed i"
proof -
  have "id_char c \<Longrightarrow> \<not> is_space c \<and> c \<noteq> newline" for c
    by (auto simp: id_char_def is_space_def Let_def)
  with assms show ?thesis by (auto simp: trimmed_def valid_id_def list_all_iff)
qed

lemma demo_storable: "list_all2 storable (minted episode_schema demo_day n 1) [demo_item]"
proof -
  let ?i = "log_id episode_schema demo_day (n + 1)"
  let ?e = "\<lparr>ei_prefix = sc_prefix episode_schema, ei_date = ymd demo_day, ei_seq = n + 1\<rparr>"
  have v: "valid_id ?i" by (rule valid_log_id) code_simp
  have tx: "daily_text ?e demo_item
      = ''## '' @ ?i @ newline # newline # ''**owner_id**: u1'' @ newline # newline # ''### Content'' @ newline # ''hello''"
    using v by (simp add: valid_id_def daily_text_def demo_item_def render_structured_entry_def log_id_def
      inline_line_def rstrip_def is_space_def) 
  have chars: "c \<notin> set ?i" if "\<not> id_char c" for c using v that by (auto simp: valid_id_def list_all_iff)
  have an: "CHR ''<'' \<notin> set (daily_text ?e demo_item)" and cr: "carriage_return \<notin> set (daily_text ?e demo_item)"
    unfolding tx using chars [of "CHR ''<''"] chars [of carriage_return]
    by (simp_all add: id_char_def Let_def)
  from an have "search_text (CHR ''<'' # q) (daily_text ?e demo_item) = None" for q by (rule search_text_absent)
  then have "marker_free (daily_text ?e demo_item)" and "search_text (close_marker ?i) (daily_text ?e demo_item) = None"
    by (simp_all add: marker_free_def open_head_def close_marker_def)
  moreover have "readable ?i (rendered (fst demo_item)) (stripped (snd demo_item))"
    using valid_id_trimmed [OF v] by (simp add: readable_def demo_item_def rendered_def stripped_def; code_simp)
  ultimately have "storable ?e demo_item" using cr by (simp add: storable_def log_id_def)
  then show ?thesis by (simp add: minted_def next_for_def)
qed

theorem no_append_is_lost_witness:
  "\<exists>s body. run_schedule demo_store (\<lambda>_. demo_task 0) [3, 3, 3, 3, 3, 7, 7, 7, 7, 7] (fresh_pool (\<lambda>_. None)) = Some s \<and>
     po_log s = [3, 7] \<and> log_file demo_store episode_schema demo_day (po_disk s) demo_path 2 body \<and>
     map e_id (split_entries body) = [''ep_20260422_00000001'', ''ep_20260422_00000002'']"
proof -
  let ?none = "\<lambda>_. None" and ?tasks = "\<lambda>_::nat. demo_task 0" and ?a = "demo_task 0"
  have 1: "yaml_codec (ms_yaml demo_store)" by (simp add: demo_store_def number_codec.yaml_codec_axioms)
  have p: "task_path demo_store ?a = demo_path" by (simp add: task_path_def demo_task_def demo_path_def)
  have items: "at_items ?a = [demo_item]" by (simp add: demo_task_def)
  have same: "same_log demo_store episode_schema demo_day demo_path ?a"
    using demo_storable by (simp add: same_log_def p) (simp add: demo_task_def)
  have v: "valid_day demo_day" "1000 \<le> d_year demo_day" "sc_prefix episode_schema \<noteq> []"
    "list_all id_char (sc_prefix episode_schema)" by code_simp+
  have w: "within_root (ms_root demo_store) demo_path" by code_simp
  have "search_text (open_marker i) [] = None" for i by (simp add: open_marker_def open_head_def)
  moreover have "well_closed []" by (simp add: well_closed_def well_closed_from.simps next_entry_def)
  ultimately have 0: "log_file demo_store episode_schema demo_day ?none demo_path 0 []"
    by (auto simp: log_file_def doc_at_def file_at_def)
  have empty: "split_entries [] = []" by code_simp
  have ne: "[demo_item] \<noteq> []" and "distinct (map e_id (split_entries []))" by (simp_all add: empty)
  note keeps = append_keeps_log [OF 1 v demo_path_def w _ _ _ ne, where now = "''now''"]
  obtain fs1 b1 i1 where r1: "run_task demo_store ?a ?none = (Inr i1, fs1)"
    "log_file demo_store episode_schema demo_day fs1 demo_path 1 b1" "distinct (map e_id (split_entries b1))"
    using keeps [OF 0] demo_storable by (auto simp: run_task_def demo_task_def empty)
  obtain fs2 i2 where r2: "run_task demo_store ?a fs1 = (Inr i2, fs2)"
    using keeps [OF r1(2,3)] demo_storable by (auto simp: run_task_def demo_task_def)
  have ai: "at_items ?a \<noteq> []" by (simp add: items)
  obtain n1 m1 c1 where t1: "count_step demo_store ?a ?none = Inr (n1, i1)" "load_step demo_store ?a ?none = Inr (m1, c1)"
    "store_step demo_store ?a n1 i1 m1 c1 ?none = Inr fs1" by (rule run_task_success [OF r1(1) ai])
  obtain n2 m2 c2 where t2: "count_step demo_store ?a fs1 = Inr (n2, i2)" "load_step demo_store ?a fs1 = Inr (m2, c2)"
    "store_step demo_store ?a n2 i2 m2 c2 fs1 = Inr fs2" by (rule run_task_success [OF r2 ai])
  obtain s where s: "run_schedule demo_store ?tasks [3, 3, 3, 3, 3, 7, 7, 7, 7, 7] (fresh_pool ?none) = Some s"
    "po_log s = [3, 7]"
    using ai t1 t2 by (simp add: advance_def fresh_pool_def move_def finish_def Let_def)
  have "one_writer_per_path demo_store ?tasks" by (simp add: one_writer_per_path_def)
  from no_append_is_lost [OF 1 v w 0 _ same run_schedule_reachable [OF s(1) pool_reachable.start] this] s(2)
  obtain body where b: "log_file demo_store episode_schema demo_day (po_disk s) demo_path 2 body"
    "map e_id (split_entries body) = map (log_id episode_schema demo_day) [1..<3]"
    by (auto simp: empty item_count_def items eval_nat_numeral)
  moreover have "map (log_id episode_schema demo_day) [1..<3] = [''ep_20260422_00000001'', ''ep_20260422_00000002'']"
    by code_simp
  ultimately show ?thesis using s by metis
qed

end
