(* ===== verification/Search_Recall.thy ===== *)
theory Search_Recall
  imports Search_Filters "HOL-Library.AList" "HOL-Library.Multiset"
begin

text \<open>
  The recall legs of a search (\<open>memory/search/recall/\<close>): how a query becomes full-text and
  vector queries, and how stored rows become candidates. The vector store is a parameter, a
  \<open>recall_table\<close> per kind; so is the tokeniser. A row is the list of its columns. Scores are
  exact numbers, and a score column that holds a text raises here even where \<open>float\<close> would
  parse it. Of two queries that fail in one \<open>gather\<close> the first one's error is reported.
\<close>

section \<open>Rows, candidates and errors\<close>

datatype colval = Plain json | Instant time

type_synonym lrow = "(string \<times> colval) list"

type_synonym vec = "rat list"

datatype search_error =
    Se_value
  | Se_type
  | Se_store string
  | Se_attribute
  | Se_filter filter_error
  | Se_invalid string
  | Se_provider string string
  | Se_dimension

record cand =
  c_id :: string
  c_score :: rat
  c_source :: string
  c_meta :: lrow

record fact_cand =
  fc_id :: string
  fc_parent :: string
  fc_score :: rat
  fc_meta :: lrow

abbreviation bind_result :: "'e + 'a \<Rightarrow> ('a \<Rightarrow> 'e + 'b) \<Rightarrow> 'e + 'b" where
  "bind_result x f \<equiv> (case x of Inl e \<Rightarrow> Inl e | Inr y \<Rightarrow> f y)"

definition str_col :: "lrow \<Rightarrow> string \<Rightarrow> string option" where
  "str_col r k = (case map_of r k of Some (Plain (JStr s)) \<Rightarrow> Some s | _ \<Rightarrow> None)"

text \<open>\<open>float(_)\<close> of a column value.\<close>

fun float_of :: "colval \<Rightarrow> search_error + rat" where
  "float_of (Plain (JFloat x)) = Inr x"
| "float_of (Plain (JInt n)) = Inr (of_int n)"
| "float_of (Plain (JBool b)) = Inr (if b then 1 else 0)"
| "float_of (Plain (JStr _)) = Inl Se_value"
| "float_of _ = Inl Se_type"

section \<open>Shared helpers\<close>

definition NOISE_COLUMNS :: "string list" where
  "NOISE_COLUMNS = [''vector'', ''subject_vector'', ''_distance'', ''_score'', ''created_at'', ''updated_at'']"

definition row_to_candidate :: "lrow \<Rightarrow> string \<Rightarrow> rat \<Rightarrow> search_error + cand" where
  "row_to_candidate r source score =
     (case str_col r ''id'' of
        None \<Rightarrow> Inl Se_value
      | Some i \<Rightarrow> Inr \<lparr>c_id = i, c_score = score, c_source = source,
          c_meta = filter (\<lambda>(k, v). k \<notin> set NOISE_COLUMNS \<and> k \<noteq> ''id'') r\<rparr>)"

definition cosine_score_from_distance :: "rat option \<Rightarrow> rat" where
  "cosine_score_from_distance distance =
     (case distance of
        None \<Rightarrow> 0
      | Some d \<Rightarrow> let sim = 1 - d in if sim < 0 then 0 else if 1 < sim then 1 else sim)"

datatype fts_query =
    Match_query string string
  | Boolean_should "fts_query list"

definition build_or_query :: "(string \<Rightarrow> string list) \<Rightarrow> string \<Rightarrow> string \<Rightarrow> fts_query option" where
  "build_or_query tokenize query column =
     (case filter (\<lambda>t. t \<noteq> []) (tokenize query) of
        [] \<Rightarrow> None
      | [t] \<Rightarrow> Some (Match_query t column)
      | tokens \<Rightarrow> Some (Boolean_should (map (\<lambda>t. Match_query t column) tokens)))"

definition build_or_query_multi_column ::
  "(string \<Rightarrow> string list) \<Rightarrow> string \<Rightarrow> string list \<Rightarrow> (string \<times> fts_query) list option" where
  "build_or_query_multi_column tokenize query columns =
     (let tokens = filter (\<lambda>t. t \<noteq> []) (tokenize query)
      in if tokens = [] then None
         else Some (map (\<lambda>col. (col,
                if length tokens = 1 then Match_query (tokens ! 0) col
                else Boolean_should (map (\<lambda>t. Match_query t col) tokens))) columns))"

text \<open>The store: a full-text, a vector and a plain query, each with its \<open>where\<close> text.\<close>

record recall_table =
  rt_text :: "fts_query \<Rightarrow> string \<Rightarrow> nat \<Rightarrow> search_error + lrow list"
  rt_near :: "string \<Rightarrow> vec \<Rightarrow> string \<Rightarrow> nat \<Rightarrow> search_error + lrow list"
  rt_scan :: "string \<Rightarrow> nat option \<Rightarrow> search_error + lrow list"

definition read_score :: "lrow \<Rightarrow> search_error + rat" where
  "read_score r = (case map_of r ''_score'' of None \<Rightarrow> Inr 0 | Some v \<Rightarrow> float_of v)"

definition read_distance :: "lrow \<Rightarrow> search_error + rat" where
  "read_distance r =
     (case map_of r ''_distance'' of
        None \<Rightarrow> Inr (cosine_score_from_distance None)
      | Some (Plain JNull) \<Rightarrow> Inr (cosine_score_from_distance None)
      | Some v \<Rightarrow> bind_result (float_of v) (\<lambda>d. Inr (cosine_score_from_distance (Some d))))"

definition keyword_candidate :: "lrow \<Rightarrow> search_error + cand" where
  "keyword_candidate r = bind_result (read_score r) (row_to_candidate r ''keyword'')"

definition vector_candidate :: "lrow \<Rightarrow> search_error + cand" where
  "vector_candidate r = bind_result (read_distance r) (row_to_candidate r ''vector'')"

definition unscored_candidate :: "lrow \<Rightarrow> search_error + cand" where
  "unscored_candidate r = row_to_candidate r ''vector'' 0"

text \<open>The query shapes the legs share: one text column, several, and a vector column.\<close>

definition text_leg ::
  "string \<Rightarrow> (string \<Rightarrow> string list) \<Rightarrow> recall_table \<Rightarrow> string \<Rightarrow> string \<Rightarrow> nat \<Rightarrow> search_error + cand list" where
  "text_leg column tokenize tb query w limit =
     (case build_or_query tokenize query column of
        None \<Rightarrow> Inr []
      | Some q \<Rightarrow> bind_result (rt_text tb q w limit) (collect keyword_candidate))"

definition near_leg :: "string \<Rightarrow> recall_table \<Rightarrow> vec \<Rightarrow> string \<Rightarrow> nat \<Rightarrow> search_error + cand list" where
  "near_leg column tb vector w limit =
     (if vector = [] then Inr []
      else bind_result (rt_near tb column vector w limit) (collect vector_candidate))"

text \<open>Python's \<open>sorted\<close> with \<open>reverse=True\<close> keeps the order of equal elements.\<close>

definition sort_desc :: "('a \<Rightarrow> rat) \<Rightarrow> 'a list \<Rightarrow> 'a list" where
  "sort_desc f = sort_key (\<lambda>x. - f x)"

text \<open>The best row per id over several columns; a replaced row keeps its place.\<close>

fun merge_rows :: "lrow list \<Rightarrow> (string \<times> lrow) list \<Rightarrow> search_error + (string \<times> lrow) list" where
  "merge_rows [] best = Inr best"
| "merge_rows (r # rs) best =
     (case str_col r ''id'' of
        None \<Rightarrow> merge_rows rs best
      | Some rid \<Rightarrow>
          bind_result (read_score r) (\<lambda>score.
            let merged = AList.update ''_score'' (Plain (JFloat score)) r
            in case map_of best rid of
                 None \<Rightarrow> merge_rows rs (AList.update rid merged best)
               | Some existing \<Rightarrow>
                   bind_result (read_score existing) (\<lambda>old.
                     merge_rows rs (if old < score then AList.update rid merged best else best))))"

text \<open>The sort key of a merged row, whose score is a number.\<close>

definition row_score :: "lrow \<Rightarrow> rat" where
  "row_score r = (case read_score r of Inl _ \<Rightarrow> 0 | Inr x \<Rightarrow> x)"

definition merge_bm25_results :: "lrow list list \<Rightarrow> nat \<Rightarrow> search_error + lrow list" where
  "merge_bm25_results per_column limit =
     bind_result (merge_rows (concat per_column) [])
       (\<lambda>best. Inr (take limit (sort_desc row_score (map snd best))))"

definition columns_leg ::
  "string list \<Rightarrow> (string \<Rightarrow> string list) \<Rightarrow> recall_table \<Rightarrow> string \<Rightarrow> string \<Rightarrow> nat \<Rightarrow> search_error + cand list" where
  "columns_leg columns tokenize tb query w limit =
     (case build_or_query_multi_column tokenize query columns of
        None \<Rightarrow> Inr []
      | Some qs \<Rightarrow>
          bind_result (collect (\<lambda>q. rt_text tb q w limit) (map snd qs)) (\<lambda>per_column.
            bind_result (merge_bm25_results per_column limit) (collect keyword_candidate)))"

section \<open>Episodes\<close>

definition episode_sparse_recall ::
  "(string \<Rightarrow> string list) \<Rightarrow> recall_table \<Rightarrow> string \<Rightarrow> string \<Rightarrow> nat \<Rightarrow> search_error + cand list" where
  "episode_sparse_recall = text_leg ''episode_tokens''"

definition episode_dense_recall :: "recall_table \<Rightarrow> vec \<Rightarrow> string \<Rightarrow> nat \<Rightarrow> search_error + cand list" where
  "episode_dense_recall = near_leg ''vector''"

definition dense_recall_subject :: "recall_table \<Rightarrow> vec \<Rightarrow> string \<Rightarrow> nat \<Rightarrow> search_error + cand list" where
  "dense_recall_subject = near_leg ''subject_vector''"

definition inject_parent_id :: "cand list \<Rightarrow> cand list" where
  "inject_parent_id cs = map (\<lambda>c. c\<lparr>c_meta :=
     AList.update ''parent_id''
       (case map_of (c_meta c) ''entry_id'' of None \<Rightarrow> Plain (JStr (c_id c)) | Some v \<Rightarrow> v) (c_meta c)\<rparr>) cs"

definition sparse_recall_as_child ::
  "(string \<Rightarrow> string list) \<Rightarrow> recall_table \<Rightarrow> string \<Rightarrow> string \<Rightarrow> nat \<Rightarrow> search_error + cand list" where
  "sparse_recall_as_child tokenize tb query w limit =
     bind_result (episode_sparse_recall tokenize tb query w limit) (\<lambda>cs. Inr (inject_parent_id cs))"

definition dense_recall_subject_as_child ::
  "recall_table \<Rightarrow> vec \<Rightarrow> string \<Rightarrow> nat \<Rightarrow> search_error + cand list" where
  "dense_recall_subject_as_child tb vector w limit =
     bind_result (dense_recall_subject tb vector w limit) (\<lambda>cs. Inr (inject_parent_id cs))"

definition rekey_by_entry :: "lrow \<Rightarrow> search_error + cand list" where
  "rekey_by_entry r =
     (case str_col r ''entry_id'' of
        None \<Rightarrow> Inr []
      | Some eid \<Rightarrow>
          if eid = [] then Inr []
          else bind_result (unscored_candidate r) (\<lambda>base.
                 Inr [\<lparr>c_id = eid, c_score = 0, c_source = ''vector'',
                       c_meta = AList.update ''episode_id'' (Plain (JStr (c_id base))) (c_meta base)\<rparr>]))"

definition fetch_all_for_owner :: "recall_table \<Rightarrow> string \<Rightarrow> search_error + cand list" where
  "fetch_all_for_owner tb w =
     bind_result (rt_scan tb w None) (\<lambda>rows.
       bind_result (collect rekey_by_entry rows) (\<lambda>css. Inr (concat css)))"

definition entry_ids_where :: "string list \<Rightarrow> string \<Rightarrow> string" where
  "entry_ids_where ids w =
     ''('' @ w @ '') AND (entry_id IN ('' @ join '', '' (map (\<lambda>i. quoted (escape_str i)) ids) @ ''))''"

definition fetch_by_entry_ids :: "recall_table \<Rightarrow> string list \<Rightarrow> string \<Rightarrow> search_error + cand list" where
  "fetch_by_entry_ids tb entry_ids w =
     (if entry_ids = [] then Inr []
      else bind_result (rt_scan tb (entry_ids_where entry_ids w) (Some (length entry_ids)))
             (collect unscored_candidate))"

section \<open>Atomic facts\<close>

definition fact_sparse_recall ::
  "(string \<Rightarrow> string list) \<Rightarrow> recall_table \<Rightarrow> string \<Rightarrow> string \<Rightarrow> nat \<Rightarrow> search_error + cand list" where
  "fact_sparse_recall = text_leg ''fact_tokens''"

definition fact_dense_recall :: "recall_table \<Rightarrow> vec \<Rightarrow> string \<Rightarrow> nat \<Rightarrow> search_error + cand list" where
  "fact_dense_recall = near_leg ''vector''"

text \<open>Appending to a list of a \<open>defaultdict(list)\<close>.\<close>

definition bucket_add :: "string \<Rightarrow> 'a \<Rightarrow> (string \<times> 'a list) list \<Rightarrow> (string \<times> 'a list) list" where
  "bucket_add k x b = AList.update k (case map_of b k of None \<Rightarrow> [x] | Some xs \<Rightarrow> xs @ [x]) b"

definition build_parent_to_episode_map :: "(string \<times> string list) list \<Rightarrow> (string \<times> string list) list" where
  "build_parent_to_episode_map ep_to_parents =
     fold (\<lambda>(ep, parents) b. fold (\<lambda>p b. if p = [] then b else bucket_add p ep b) parents b) ep_to_parents []"

definition parents_where :: "string list \<Rightarrow> string \<Rightarrow> string" where
  "parents_where parents w =
     ''('' @ w @ '') AND (parent_id IN ('' @ join '', '' (map (\<lambda>i. quoted (escape_str i)) parents) @ ''))''"

definition query_facts_for_parents ::
  "recall_table \<Rightarrow> (string \<times> string list) list \<Rightarrow> string \<Rightarrow> nat \<Rightarrow> vec \<Rightarrow> search_error + lrow list" where
  "query_facts_for_parents tb parent_to_eps w per_episode query_vector =
     (let full = parents_where (map fst parent_to_eps) w;
          limit = per_episode * max (length parent_to_eps) 1
      in if query_vector \<noteq> [] then rt_near tb ''vector'' query_vector full limit
         else rt_scan tb full (Some limit))"

definition FACT_NOISE_COLUMNS :: "string list" where
  "FACT_NOISE_COLUMNS = [''vector'', ''_distance'', ''_score'', ''created_at'', ''updated_at'']"

fun bucket_facts ::
  "(string \<times> string list) list \<Rightarrow> bool \<Rightarrow> lrow list \<Rightarrow> (string \<times> fact_cand list) list \<Rightarrow>
   search_error + (string \<times> fact_cand list) list" where
  "bucket_facts parent_to_eps scored [] buckets = Inr buckets"
| "bucket_facts parent_to_eps scored (r # rs) buckets =
     (case (str_col r ''parent_id'', str_col r ''id'') of
        (Some p, Some fid) \<Rightarrow>
          bind_result (if scored then read_distance r else Inr 0) (\<lambda>score.
            let fact = (\<lambda>ep. \<lparr>fc_id = fid, fc_parent = ep, fc_score = score,
                         fc_meta = filter (\<lambda>(k, v). k \<notin> set FACT_NOISE_COLUMNS \<and> k \<noteq> ''id'') r\<rparr>);
                eps = (case map_of parent_to_eps p of None \<Rightarrow> [] | Some es \<Rightarrow> es)
            in bucket_facts parent_to_eps scored rs (fold (\<lambda>ep b. bucket_add ep (fact ep) b) eps buckets))
      | _ \<Rightarrow> bucket_facts parent_to_eps scored rs buckets)"

definition facts_for_episodes ::
  "recall_table \<Rightarrow> (string \<times> string list) list \<Rightarrow> string \<Rightarrow> nat \<Rightarrow> vec \<Rightarrow>
   search_error + (string \<times> fact_cand list) list" where
  "facts_for_episodes tb ep_to_parents w per_episode query_vector =
     (let parent_to_eps = build_parent_to_episode_map ep_to_parents
      in if ep_to_parents = [] \<or> parent_to_eps = [] then Inr []
         else bind_result (query_facts_for_parents tb parent_to_eps w per_episode query_vector) (\<lambda>rows.
                bind_result (bucket_facts parent_to_eps (query_vector \<noteq> []) rows []) (\<lambda>buckets.
                  Inr (map (\<lambda>(ep, b). (ep, take per_episode b)) buckets))))"

section \<open>Agent cases, skills and knowledge topics\<close>

definition case_sparse_recall ::
  "(string \<Rightarrow> string list) \<Rightarrow> recall_table \<Rightarrow> string \<Rightarrow> string \<Rightarrow> nat \<Rightarrow> search_error + cand list" where
  "case_sparse_recall = columns_leg [''task_intent_tokens'', ''approach_tokens'']"

definition case_dense_recall :: "recall_table \<Rightarrow> vec \<Rightarrow> string \<Rightarrow> nat \<Rightarrow> search_error + cand list" where
  "case_dense_recall = near_leg ''vector''"

definition skill_sparse_recall ::
  "(string \<Rightarrow> string list) \<Rightarrow> recall_table \<Rightarrow> string \<Rightarrow> string \<Rightarrow> nat \<Rightarrow> search_error + cand list" where
  "skill_sparse_recall = columns_leg [''description_tokens'', ''content_tokens'']"

definition skill_dense_recall :: "recall_table \<Rightarrow> vec \<Rightarrow> string \<Rightarrow> nat \<Rightarrow> search_error + cand list" where
  "skill_dense_recall = near_leg ''vector''"

definition case_ids_where :: "string list \<Rightarrow> string \<Rightarrow> string" where
  "case_ids_where ids w =
     ''('' @ w @ '') AND ('' @ join '' OR ''
       (map (\<lambda>c. ''array_has(source_case_ids, '' @ quoted (escape_str c) @ '')'') ids) @ '')''"

definition fetch_by_case_ids :: "recall_table \<Rightarrow> string list \<Rightarrow> string \<Rightarrow> nat \<Rightarrow> search_error + cand list" where
  "fetch_by_case_ids tb case_ids w limit =
     (if case_ids = [] then Inr []
      else bind_result (rt_scan tb (case_ids_where case_ids w) (Some limit)) (collect unscored_candidate))"

definition topic_sparse_recall ::
  "(string \<Rightarrow> string list) \<Rightarrow> recall_table \<Rightarrow> string \<Rightarrow> string \<Rightarrow> nat \<Rightarrow> search_error + cand list" where
  "topic_sparse_recall = columns_leg [''summary_tokens'', ''content_tokens'']"

definition topic_dense_recall :: "recall_table \<Rightarrow> vec \<Rightarrow> string \<Rightarrow> nat \<Rightarrow> search_error + cand list" where
  "topic_dense_recall = near_leg ''vector''"

section \<open>Dicts and descending sorts\<close>

text \<open>A dict from ids; a later candidate replaces an earlier one of the same id.\<close>

definition dict_of :: "('a \<Rightarrow> string) \<Rightarrow> ('a \<Rightarrow> 'b) \<Rightarrow> 'a list \<Rightarrow> (string \<times> 'b) list" where
  "dict_of key val xs = fold (\<lambda>x d. AList.update (key x) (val x) d) xs []"

lemma keys_update: "fst ` set (AList.update k v t) = insert k (fst ` set t)"
  by (induction t) auto

lemma length_update: "length (AList.update k v t) = (if k \<in> fst ` set t then length t else Suc (length t))"
  by (induction t) auto

lemma mem_update:
  assumes "distinct (map fst t)" and "x \<in> set (AList.update k v t)"
  shows "x = (k, v) \<or> (x \<in> set t \<and> fst x \<noteq> k)"
  using assms by (induction t) (auto simp: rev_image_eqI split: if_splits)

lemma set_update_sub: "set (AList.update k v t) \<subseteq> insert (k, v) (set t)"
  by (induction t) auto

lemma mem_delete: "x \<in> set (AList.delete k t) \<longleftrightarrow> x \<in> set t \<and> fst x \<noteq> k"
  by (auto simp: AList.delete_eq)

lemma dict_of_keys: "fst ` set (dict_of key val xs) = key ` set xs"
proof -
  have "fst ` set (fold (\<lambda>x d. AList.update (key x) (val x) d) xs d) = fst ` set d \<union> key ` set xs" for d
    by (induction xs arbitrary: d) (auto simp: keys_update)
  then show ?thesis by (simp add: dict_of_def)
qed

lemma dict_of_distinct: "distinct (map fst (dict_of key val xs))"
proof -
  have "distinct (map fst d) \<Longrightarrow> distinct (map fst (fold (\<lambda>x d. AList.update (key x) (val x) d) xs d))" for d
    by (induction xs arbitrary: d) (simp_all add: distinct_update)
  then show ?thesis by (simp add: dict_of_def)
qed

lemma dict_of_mem: "kv \<in> set (dict_of key val xs) \<Longrightarrow> \<exists>x\<in>set xs. kv = (key x, val x)"
proof -
  have "distinct (map fst d) \<Longrightarrow> kv \<in> set (fold (\<lambda>x d. AList.update (key x) (val x) d) xs d)
      \<Longrightarrow> kv \<in> set d \<or> (\<exists>x\<in>set xs. kv = (key x, val x))" for d
  proof (induction xs arbitrary: d)
    case (Cons x xs)
    then show ?case
      using mem_update [OF Cons.prems(1), of kv "key x" "val x"]
      by (auto simp: distinct_update)
  qed simp
  from this [of "[]"] show "kv \<in> set (dict_of key val xs) \<Longrightarrow> \<exists>x\<in>set xs. kv = (key x, val x)"
    by (simp add: dict_of_def)
qed

lemma dict_of_length: "length (dict_of key val xs) \<le> length xs"
proof -
  have "length (fold (\<lambda>x d. AList.update (key x) (val x) d) xs d) \<le> length d + length xs" for d
  proof (induction xs arbitrary: d)
    case (Cons x xs)
    show ?case using Cons [of "AList.update (key x) (val x) d"] by (simp add: length_update split: if_splits)
  qed simp
  from this [of "[]"] show ?thesis by (simp add: dict_of_def)
qed

lemma sorted_sort_desc: "sorted_wrt (\<lambda>x y. f y \<le> f x) (sort_desc f xs)"
proof -
  have "sorted (map (\<lambda>x. - f x) (sort_desc f xs))" by (simp add: sort_desc_def)
  then show ?thesis by (simp add: sorted_map sorted_wrt_map)
qed

lemma set_sort_desc [simp]: "set (sort_desc f xs) = set xs"
  and length_sort_desc [simp]: "length (sort_desc f xs) = length xs"
  and distinct_sort_desc: "distinct (map g (sort_desc f xs)) = distinct (map g xs)"
proof -
  show "set (sort_desc f xs) = set xs" "length (sort_desc f xs) = length xs" by (simp_all add: sort_desc_def)
  have "mset (map g (sort_desc f xs)) = mset (map g xs)" by (simp add: sort_desc_def)
  then show "distinct (map g (sort_desc f xs)) = distinct (map g xs)" by (rule mset_eq_imp_distinct_iff)
qed

end
