(* ===== verification/Search_Shaper.thy ===== *)
theory Search_Shaper
  imports Search_Recall
begin

text \<open>
  From candidates to the items of a search answer (\<open>memory/search/shaper.py\<close>, the item models
  of \<open>memory/search/dto.py\<close>). A row that lacks a required field is dropped; a session id that is
  neither a text nor null is refused by the item model and fails the request. Instants stay
  numbers, so the change to the display time zone is left out.
\<close>

section \<open>Items\<close>

record fact_item =
  xf_id :: string
  xf_content :: string
  xf_score :: rat

record episode_item =
  xe_id :: string
  xe_user_id :: "string option"
  xe_app_id :: string
  xe_project_id :: string
  xe_session_id :: "string option"
  xe_timestamp :: time
  xe_sender_ids :: "string list"
  xe_summary :: string
  xe_subject :: string
  xe_episode :: string
  xe_score :: rat
  xe_facts :: "fact_item list"

record agent_case_item =
  xc_id :: string
  xc_agent_id :: string
  xc_app_id :: string
  xc_project_id :: string
  xc_session_id :: string
  xc_task_intent :: string
  xc_approach :: string
  xc_quality_score :: rat
  xc_key_insight :: "string option"
  xc_timestamp :: time
  xc_score :: rat

record agent_skill_item =
  xs_id :: string
  xs_agent_id :: string
  xs_app_id :: string
  xs_project_id :: string
  xs_name :: string
  xs_description :: string
  xs_content :: string
  xs_confidence :: rat
  xs_maturity_score :: rat
  xs_source_case_ids :: "string list"
  xs_score :: rat

text \<open>\<open>ScoredItem\<close>: an episode or an atomic fact with its parent episode.\<close>

record scored_item =
  si_id :: string
  si_score :: rat
  si_type :: string
  si_meta :: lrow
  si_parent :: "string option"

section \<open>Coercions\<close>

definition coerce_datetime :: "colval option \<Rightarrow> time option" where
  "coerce_datetime v = (case v of Some (Instant t) \<Rightarrow> Some t | _ \<Rightarrow> None)"

definition as_str :: "lrow \<Rightarrow> string \<Rightarrow> string" where
  "as_str md k = (case str_col md k of None \<Rightarrow> [] | Some s \<Rightarrow> s)"

definition as_str_list :: "colval option \<Rightarrow> string list" where
  "as_str_list v = (case v of
     Some (Plain (JList xs)) \<Rightarrow> concat (map (\<lambda>x. case x of JStr s \<Rightarrow> [s] | _ \<Rightarrow> []) xs)
   | _ \<Rightarrow> [])"

text \<open>\<open>isinstance(_, (int, float))\<close>, which a bool satisfies.\<close>

definition num_col :: "lrow \<Rightarrow> string \<Rightarrow> rat option" where
  "num_col md k = (case map_of md k of
     Some (Plain (JFloat x)) \<Rightarrow> Some x
   | Some (Plain (JInt n)) \<Rightarrow> Some (of_int n)
   | Some (Plain (JBool b)) \<Rightarrow> Some (if b then 1 else 0)
   | _ \<Rightarrow> None)"

definition space_or_default :: "string \<Rightarrow> string" where
  "space_or_default s = (if s = [] then ''default'' else s)"

definition session_field :: "lrow \<Rightarrow> search_error + string option" where
  "session_field md = (case map_of md ''session_id'' of
     None \<Rightarrow> Inr None
   | Some (Plain JNull) \<Rightarrow> Inr None
   | Some (Plain (JStr s)) \<Rightarrow> Inr (Some s)
   | _ \<Rightarrow> Inl Se_value)"

section \<open>Shaping a candidate\<close>

definition shape_episode_from_candidate :: "cand \<Rightarrow> fact_item list \<Rightarrow> search_error + episode_item option" where
  "shape_episode_from_candidate c facts =
     (let md = c_meta c
      in if str_col md ''owner_type'' \<noteq> Some ''user'' then Inr None
         else case (coerce_datetime (map_of md ''timestamp''), str_col md ''episode'') of
                (Some t, Some episode) \<Rightarrow>
                  bind_result (session_field md) (\<lambda>session.
                    Inr (Some \<lparr>xe_id = c_id c, xe_user_id = str_col md ''owner_id'',
                      xe_app_id = space_or_default (as_str md ''app_id''),
                      xe_project_id = space_or_default (as_str md ''project_id''), xe_session_id = session,
                      xe_timestamp = t, xe_sender_ids = as_str_list (map_of md ''sender_ids''),
                      xe_summary = as_str md ''summary'', xe_subject = as_str md ''subject'',
                      xe_episode = episode, xe_score = c_score c, xe_facts = facts\<rparr>))
              | _ \<Rightarrow> Inr None)"

definition shape_atomic_fact_from_scored :: "scored_item \<Rightarrow> fact_item" where
  "shape_atomic_fact_from_scored s =
     \<lparr>xf_id = si_id s, xf_content = as_str (si_meta s) ''fact'', xf_score = si_score s\<rparr>"

definition shape_agent_case_from_candidate :: "cand \<Rightarrow> agent_case_item option" where
  "shape_agent_case_from_candidate c =
     (let md = c_meta c
      in if str_col md ''owner_type'' \<noteq> Some ''agent'' then None
         else case (coerce_datetime (map_of md ''timestamp''), str_col md ''owner_id'',
                    str_col md ''session_id'', str_col md ''task_intent'', str_col md ''approach'',
                    num_col md ''quality_score'') of
                (Some t, Some owner_id, Some session_id, Some task_intent, Some approach, Some quality) \<Rightarrow>
                  Some \<lparr>xc_id = c_id c, xc_agent_id = owner_id, xc_app_id = space_or_default (as_str md ''app_id''),
                    xc_project_id = space_or_default (as_str md ''project_id''), xc_session_id = session_id,
                    xc_task_intent = task_intent, xc_approach = approach, xc_quality_score = quality,
                    xc_key_insight = str_col md ''key_insight'', xc_timestamp = t, xc_score = c_score c\<rparr>
              | _ \<Rightarrow> None)"

definition shape_agent_skill_from_candidate :: "cand \<Rightarrow> agent_skill_item option" where
  "shape_agent_skill_from_candidate c =
     (let md = c_meta c
      in if str_col md ''owner_type'' \<noteq> Some ''agent'' then None
         else case (str_col md ''owner_id'', str_col md ''name'', str_col md ''description'',
                    str_col md ''content'', num_col md ''confidence'', num_col md ''maturity_score'') of
                (Some owner_id, Some nm, Some description, Some content, Some confidence, Some maturity) \<Rightarrow>
                  Some \<lparr>xs_id = c_id c, xs_agent_id = owner_id, xs_app_id = space_or_default (as_str md ''app_id''),
                    xs_project_id = space_or_default (as_str md ''project_id''), xs_name = nm,
                    xs_description = description, xs_content = content, xs_confidence = confidence,
                    xs_maturity_score = maturity, xs_source_case_ids = as_str_list (map_of md ''source_case_ids''),
                    xs_score = c_score c\<rparr>
              | _ \<Rightarrow> None)"

section \<open>The mixed output of the hybrid pipeline\<close>

definition build_fact_items :: "scored_item list \<Rightarrow> fact_item list" where
  "build_fact_items scoreds = map shape_atomic_fact_from_scored (sort_desc si_score scoreds)"

definition shape_episode_from_scored :: "scored_item \<Rightarrow> fact_item list \<Rightarrow> search_error + episode_item option" where
  "shape_episode_from_scored s facts =
     shape_episode_from_candidate
       \<lparr>c_id = si_id s, c_score = si_score s, c_source = ''other'', c_meta = si_meta s\<rparr> facts"

definition max_score :: "rat list \<Rightarrow> rat" where
  "max_score xs = (case xs of [] \<Rightarrow> 0 | y # ys \<Rightarrow> fold max ys y)"

definition scored_episodes :: "scored_item list \<Rightarrow> (string \<times> scored_item) list" where
  "scored_episodes scored =
     fold (\<lambda>s d. AList.update (si_id s) s d) (filter (\<lambda>s. si_type s = ''episode'') scored) []"

definition facts_by_parent :: "scored_item list \<Rightarrow> (string \<times> scored_item list) list" where
  "facts_by_parent scored =
     fold (\<lambda>s d. case si_parent s of None \<Rightarrow> d | Some p \<Rightarrow> if p = [] then d else bucket_add p s d)
       (filter (\<lambda>s. si_type s = ''atomic_fact'') scored) []"

definition somes :: "'a option list \<Rightarrow> 'a list" where
  "somes xs = concat (map (\<lambda>x. case x of None \<Rightarrow> [] | Some y \<Rightarrow> [y]) xs)"

text \<open>A parent that was evicted is shaped from the pool, with the score of its best fact.\<close>

definition shape_orphan ::
  "(string \<times> cand) list \<Rightarrow> string \<times> scored_item list \<Rightarrow> search_error + episode_item option" where
  "shape_orphan episode_pool pf =
     (case pf of (p, fs) \<Rightarrow>
        case map_of episode_pool p of
          None \<Rightarrow> Inr None
        | Some parent \<Rightarrow>
            shape_episode_from_candidate (parent\<lparr>c_score := max_score (map si_score fs)\<rparr>) (build_fact_items fs))"

definition reshape_hybrid_output ::
  "scored_item list \<Rightarrow> (string \<times> cand) list \<Rightarrow> search_error + episode_item list" where
  "reshape_hybrid_output scored episode_pool =
     (let episodes = scored_episodes scored;
          facts = facts_by_parent scored;
          kept = collect (\<lambda>(i, s). shape_episode_from_scored s
                   (build_fact_items (case map_of facts i of None \<Rightarrow> [] | Some fs \<Rightarrow> fs))) episodes;
          orphans = filter (\<lambda>(p, fs). p \<notin> fst ` set episodes) facts
      in bind_result kept (\<lambda>out.
           bind_result (collect (shape_orphan episode_pool) orphans) (\<lambda>rest.
             Inr (sort_desc xe_score (somes (out @ rest))))))"

section \<open>What the reshaping keeps\<close>

lemma collect_Inr: "collect f xs = Inr ys \<longleftrightarrow> list_all2 (\<lambda>x y. f x = Inr y) xs ys"
proof (induction xs arbitrary: ys)
  case (Cons x xs)
  show ?case by (auto simp: list_all2_Cons1 Cons.IH [symmetric] split: sum.splits)
qed auto

lemma in_somes: "y \<in> set (somes xs) \<longleftrightarrow> Some y \<in> set xs"
  by (force simp: somes_def split: option.splits)

lemma somes_append: "somes (xs @ ys) = somes xs @ somes ys"
  by (simp add: somes_def)

lemma somes_Cons: "somes (x # xs) = (case x of None \<Rightarrow> [] | Some y \<Rightarrow> [y]) @ somes xs"
  by (simp add: somes_def)

lemma length_somes: "length (somes xs) \<le> length xs"
  by (induction xs) (auto simp: somes_Cons somes_def [of "[]"] split: option.splits)

lemma distinct_somes:
  "list_all2 (\<lambda>k x. case x of None \<Rightarrow> True | Some y \<Rightarrow> f y = k) ks xs \<Longrightarrow> distinct ks \<Longrightarrow>
   distinct (map f (somes xs)) \<and> f ` set (somes xs) \<subseteq> set ks"
  by (induction ks xs rule: list_all2_induct) (auto simp: somes_Cons somes_def [of "[]"] split: option.splits)

definition shapeable :: "lrow \<Rightarrow> bool" where
  "shapeable md \<longleftrightarrow> str_col md ''owner_type'' = Some ''user'' \<and> coerce_datetime (map_of md ''timestamp'') \<noteq> None
     \<and> str_col md ''episode'' \<noteq> None \<and> \<not> isl (session_field md)"

lemma shapeable_shaped: "shapeable (c_meta c) \<Longrightarrow> \<exists>it. shape_episode_from_candidate c fs = Inr (Some it)"
  by (auto simp: shapeable_def shape_episode_from_candidate_def Let_def isl_def split: sum.splits)

definition meta_space :: "lrow \<Rightarrow> string option \<times> string \<times> string" where
  "meta_space md = (str_col md ''owner_id'', space_or_default (as_str md ''app_id''),
     space_or_default (as_str md ''project_id''))"

definition item_space :: "episode_item \<Rightarrow> string option \<times> string \<times> string" where
  "item_space it = (xe_user_id it, xe_app_id it, xe_project_id it)"

lemma shaped_fields:
  assumes "shape_episode_from_candidate c fs = Inr (Some it)"
  shows "xe_id it = c_id c" "xe_score it = c_score c" "xe_facts it = fs" "item_space it = meta_space (c_meta c)"
  using assms
  by (auto simp: shape_episode_from_candidate_def item_space_def meta_space_def Let_def
      split: if_splits option.splits sum.splits)

text \<open>The facts of the scored list that name an episode.\<close>

definition nested :: "scored_item list \<Rightarrow> string \<Rightarrow> scored_item list" where
  "nested scored p = filter (\<lambda>s. si_type s = ''atomic_fact'' \<and> si_parent s = Some p \<and> p \<noteq> []) scored"

lemma bucket_fold:
  "map_of (fold (\<lambda>s d. case key s of None \<Rightarrow> d | Some p \<Rightarrow> if p = [] then d else bucket_add p s d) xs d) p =
     (let ys = filter (\<lambda>s. key s = Some p \<and> p \<noteq> []) xs
      in if ys = [] then map_of d p else Some ((case map_of d p of None \<Rightarrow> [] | Some zs \<Rightarrow> zs) @ ys))"
  by (induction xs arbitrary: d)
    (auto simp: bucket_add_def Let_def update_conv' split: option.splits)

lemma bucket_fold_distinct:
  "distinct (map fst d) \<Longrightarrow>
   distinct (map fst (fold (\<lambda>s d. case key s of None \<Rightarrow> d | Some p \<Rightarrow> if p = [] then d else bucket_add p s d) xs d))"
  by (induction xs arbitrary: d) (auto simp: bucket_add_def distinct_update split: option.splits)

lemma facts_by_parent_map:
  "map_of (facts_by_parent scored) p = (if nested scored p = [] then None else Some (nested scored p))"
  by (simp add: facts_by_parent_def bucket_fold nested_def Let_def conj_commute)

lemma facts_by_parent_distinct: "distinct (map fst (facts_by_parent scored))"
  unfolding facts_by_parent_def by (rule bucket_fold_distinct) simp

lemma facts_by_parent_mem: "(p, fs) \<in> set (facts_by_parent scored) \<longleftrightarrow> nested scored p \<noteq> [] \<and> fs = nested scored p"
  using map_of_eq_Some_iff [OF facts_by_parent_distinct, of scored p fs]
  by (auto simp: facts_by_parent_map split: if_splits)

lemma fold_update_new:
  "distinct (map key xs) \<Longrightarrow> fst ` set d \<inter> key ` set xs = {} \<Longrightarrow>
   fold (\<lambda>x d. AList.update (key x) x d) xs d = d @ map (\<lambda>x. (key x, x)) xs"
proof (induction xs arbitrary: d)
  case (Cons x xs)
  have "AList.update (key x) x d = d @ [(key x, x)]"
    using Cons.prems(2) by (induction d) auto
  with Cons show ?case by auto
qed simp

lemma scored_episodes_eq:
  assumes "distinct (map si_id scored)"
  shows "scored_episodes scored = map (\<lambda>s. (si_id s, s)) (filter (\<lambda>s. si_type s = ''episode'') scored)"
proof -
  have "distinct (map si_id (filter (\<lambda>s. si_type s = ''episode'') scored))"
    using assms by (simp add: distinct_map_filter)
  then show ?thesis unfolding scored_episodes_def by (subst fold_update_new) simp_all
qed

lemma reshape_parts:
  assumes "distinct (map si_id scored)" and "reshape_hybrid_output scored pool = Inr items"
  obtains out rest where "items = sort_desc xe_score (somes (out @ rest))"
    and "list_all2 (\<lambda>s x. shape_episode_from_scored s (build_fact_items (nested scored (si_id s))) = Inr x)
           (filter (\<lambda>s. si_type s = ''episode'') scored) out"
    and "list_all2 (\<lambda>p x. shape_orphan pool (p, nested scored p) = Inr x)
           (map fst (filter (\<lambda>(p, fs). p \<notin> si_id ` set (filter (\<lambda>s. si_type s = ''episode'') scored)) (facts_by_parent scored))) rest"
proof -
  let ?eps = "filter (\<lambda>s. si_type s = ''episode'') scored"
  let ?orphans = "filter (\<lambda>(p, fs). p \<notin> fst ` set (scored_episodes scored)) (facts_by_parent scored)"
  have fb: "(case map_of (facts_by_parent scored) i of None \<Rightarrow> [] | Some fs \<Rightarrow> fs) = nested scored i" for i
    by (simp add: facts_by_parent_map)
  obtain out rest where o: "collect (\<lambda>(i, s). shape_episode_from_scored s (build_fact_items (nested scored i))) (scored_episodes scored) = Inr out"
    and r: "collect (shape_orphan pool) ?orphans = Inr rest" and items: "items = sort_desc xe_score (somes (out @ rest))"
    using assms(2) unfolding reshape_hybrid_output_def Let_def fb by (auto split: sum.splits)
  have "list_all2 (\<lambda>s x. shape_episode_from_scored s (build_fact_items (nested scored (si_id s))) = Inr x) ?eps out"
    using o by (simp add: collect_Inr scored_episodes_eq [OF assms(1)] list_all2_map1)
  moreover have "list_all2 (\<lambda>p x. shape_orphan pool (p, nested scored p) = Inr x)
      (map fst (filter (\<lambda>(p, fs). p \<notin> si_id ` set ?eps) (facts_by_parent scored))) rest"
  proof -
    have "fst ` set (scored_episodes scored) = si_id ` set ?eps"
      by (simp add: scored_episodes_eq [OF assms(1)] image_image)
    then have "list_all2 (\<lambda>pf x. shape_orphan pool pf = Inr x) (filter (\<lambda>(p, fs). p \<notin> si_id ` set ?eps) (facts_by_parent scored)) rest"
      using r by (simp add: collect_Inr)
    then show ?thesis
      unfolding list_all2_map1
    proof (rule list.rel_mono_strong)
      fix pf x assume "pf \<in> set (filter (\<lambda>(p, fs). p \<notin> si_id ` set ?eps) (facts_by_parent scored))"
        and x: "shape_orphan pool pf = Inr x"
      then have "(fst pf, snd pf) \<in> set (facts_by_parent scored)" by (auto simp: case_prod_beta)
      then have "snd pf = nested scored (fst pf)" unfolding facts_by_parent_mem by simp
      with x show "shape_orphan pool (fst pf, nested scored (fst pf)) = Inr x" by (metis prod.collapse)
    qed
  qed
  ultimately show thesis using that items by blast
qed

definition keyed_pool :: "(string \<times> cand) list \<Rightarrow> bool" where
  "keyed_pool pool \<longleftrightarrow> list_all (\<lambda>(k, c). c_id c = k) pool"

lemma keyed_poolD: "keyed_pool pool \<Longrightarrow> map_of pool p = Some c \<Longrightarrow> c_id c = p"
  by (auto simp: keyed_pool_def list_all_iff dest!: map_of_SomeD)

text \<open>What an item of the answer stands for: a scored episode, or an evicted one through its facts.\<close>

definition item_source :: "scored_item list \<Rightarrow> (string \<times> cand) list \<Rightarrow> episode_item \<Rightarrow> bool" where
  "item_source scored pool it \<longleftrightarrow>
     (\<exists>s\<in>set scored. si_type s = ''episode'' \<and> si_id s = xe_id it \<and> si_score s = xe_score it \<and>
        item_space it = meta_space (si_meta s)) \<or>
     (nested scored (xe_id it) \<noteq> [] \<and> xe_score it = max_score (map si_score (nested scored (xe_id it))) \<and>
        (\<exists>c. map_of pool (xe_id it) = Some c \<and> item_space it = meta_space (c_meta c)))"

lemma list_all2_right: "list_all2 P xs ys \<Longrightarrow> y \<in> set ys \<Longrightarrow> \<exists>x\<in>set xs. P x y"
  and list_all2_left: "list_all2 P xs ys \<Longrightarrow> x \<in> set xs \<Longrightarrow> \<exists>y\<in>set ys. P x y"
  by (induction rule: list_all2_induct) auto

lemma orphan_fields:
  assumes "shape_orphan pool (p, fs) = Inr (Some it)" and "keyed_pool pool"
  shows "\<exists>c. map_of pool p = Some c \<and> xe_id it = p \<and> xe_score it = max_score (map si_score fs) \<and>
    xe_facts it = build_fact_items fs \<and> item_space it = meta_space (c_meta c)"
proof -
  obtain c where c: "map_of pool p = Some c"
    and it: "shape_episode_from_candidate (c\<lparr>c_score := max_score (map si_score fs)\<rparr>) (build_fact_items fs) = Inr (Some it)"
    using assms(1) by (auto simp: shape_orphan_def split: option.splits)
  with shaped_fields [OF it] keyed_poolD [OF assms(2) c] show ?thesis by simp
qed

lemma kept_fields:
  assumes "shape_episode_from_scored s fs = Inr (Some it)"
  shows "xe_id it = si_id s \<and> xe_score it = si_score s \<and> xe_facts it = fs \<and> item_space it = meta_space (si_meta s)"
  using shaped_fields [OF assms [unfolded shape_episode_from_scored_def]] by simp

lemma reshape_items:
  assumes "distinct (map si_id scored)" and "keyed_pool pool" and "reshape_hybrid_output scored pool = Inr items"
  shows "distinct (map xe_id items)" and "sorted_wrt (\<lambda>x y. xe_score y \<le> xe_score x) items"
    and "it \<in> set items \<Longrightarrow> item_source scored pool it"
    and "it \<in> set items \<Longrightarrow> xe_facts it = build_fact_items (nested scored (xe_id it))"
    and "s \<in> set scored \<Longrightarrow> si_type s = ''episode'' \<Longrightarrow> shapeable (si_meta s) \<Longrightarrow> si_id s \<in> xe_id ` set items"
    and "p \<notin> si_id ` set (filter (\<lambda>s. si_type s = ''episode'') scored) \<Longrightarrow> nested scored p \<noteq> [] \<Longrightarrow>
      map_of pool p = Some c \<Longrightarrow> shapeable (c_meta c) \<Longrightarrow> p \<in> xe_id ` set items"
proof -
  let ?eps = "filter (\<lambda>s. si_type s = ''episode'') scored"
  let ?os = "map fst (filter (\<lambda>(p, fs). p \<notin> si_id ` set ?eps) (facts_by_parent scored))"
  obtain out rest where items: "items = sort_desc xe_score (somes (out @ rest))"
    and out: "list_all2 (\<lambda>s x. shape_episode_from_scored s (build_fact_items (nested scored (si_id s))) = Inr x) ?eps out"
    and rest: "list_all2 (\<lambda>p x. shape_orphan pool (p, nested scored p) = Inr x) ?os rest"
    by (rule reshape_parts [OF assms(1,3)])
  have mem: "it \<in> set items \<longleftrightarrow> Some it \<in> set out \<or> Some it \<in> set rest" for it
    by (simp add: items in_somes)
  have "distinct (map si_id ?eps)" using assms(1) by (simp add: distinct_map_filter)
  moreover have "distinct ?os" using facts_by_parent_distinct by (simp add: distinct_map_filter)
  ultimately have d: "distinct (map si_id ?eps @ ?os)" by (auto simp: image_iff)
  have "list_all2 (\<lambda>k x. case x of None \<Rightarrow> True | Some y \<Rightarrow> xe_id y = k) (map si_id ?eps) out"
    unfolding list_all2_map1 using out
    by (rule list.rel_mono_strong) (auto dest: kept_fields split: option.split)
  moreover have "list_all2 (\<lambda>k x. case x of None \<Rightarrow> True | Some y \<Rightarrow> xe_id y = k) ?os rest"
    using rest by (rule list.rel_mono_strong) (auto dest: orphan_fields [OF _ assms(2)] split: option.split)
  ultimately have "list_all2 (\<lambda>k x. case x of None \<Rightarrow> True | Some y \<Rightarrow> xe_id y = k) (map si_id ?eps @ ?os) (out @ rest)"
    by (rule list_all2_appendI)
  from distinct_somes [OF this d] show "distinct (map xe_id items)" by (simp add: items distinct_sort_desc)
  show "sorted_wrt (\<lambda>x y. xe_score y \<le> xe_score x) items" unfolding items by (rule sorted_sort_desc)
  have ep: "\<exists>s\<in>set ?eps. shape_episode_from_scored s (build_fact_items (nested scored (si_id s))) = Inr (Some it)"
    if "Some it \<in> set out" for it
    using list_all2_right [OF out that] .
  have orph: "\<exists>p\<in>set ?os. shape_orphan pool (p, nested scored p) = Inr (Some it)" if "Some it \<in> set rest" for it
    using list_all2_right [OF rest that] .
  have os: "nested scored p \<noteq> []" if "p \<in> set ?os" for p
    using that by (auto simp: facts_by_parent_mem)
  show "item_source scored pool it" if "it \<in> set items"
    using that unfolding mem
  proof
    assume "Some it \<in> set out"
    then obtain s where s: "s \<in> set scored" "si_type s = ''episode''"
      "shape_episode_from_scored s (build_fact_items (nested scored (si_id s))) = Inr (Some it)" using ep by auto
    show ?thesis unfolding item_source_def
      by (intro disjI1 bexI [of _ s]) (use s kept_fields [OF s(3)] in simp_all)
  next
    assume "Some it \<in> set rest"
    then obtain p where p: "p \<in> set ?os" "shape_orphan pool (p, nested scored p) = Inr (Some it)" using orph by blast
    obtain c where "map_of pool p = Some c" "xe_id it = p" "xe_score it = max_score (map si_score (nested scored p))"
      "item_space it = meta_space (c_meta c)"
      using orphan_fields [OF p(2) assms(2)] by blast
    with os [OF p(1)] show ?thesis unfolding item_source_def by (intro disjI2) simp
  qed
  show "xe_facts it = build_fact_items (nested scored (xe_id it))" if "it \<in> set items"
    using that unfolding mem using ep [of it] orph [of it] kept_fields orphan_fields [OF _ assms(2)] by metis
  show "si_id s \<in> xe_id ` set items" if s: "s \<in> set scored" "si_type s = ''episode''" "shapeable (si_meta s)"
  proof -
    have "s \<in> set ?eps" using s by simp
    from list_all2_left [OF out this] obtain x where x: "x \<in> set out"
      "shape_episode_from_scored s (build_fact_items (nested scored (si_id s))) = Inr x" by blast
    obtain it where "x = Some it"
      using x(2) shapeable_shaped [of "\<lparr>c_id = si_id s, c_score = si_score s, c_source = ''other'', c_meta = si_meta s\<rparr>"
          "build_fact_items (nested scored (si_id s))"] s(3)
      by (auto simp: shape_episode_from_scored_def)
    with x kept_fields mem show ?thesis by (metis imageI)
  qed
  show "p \<in> xe_id ` set items"
    if p: "p \<notin> si_id ` set ?eps" "nested scored p \<noteq> []" "map_of pool p = Some c" "shapeable (c_meta c)"
  proof -
    have "p \<in> set ?os" using p(1,2) facts_by_parent_mem [of p "nested scored p" scored] by force
    from list_all2_left [OF rest this] obtain x where x: "x \<in> set rest" "shape_orphan pool (p, nested scored p) = Inr x" by blast
    obtain it where "x = Some it"
      using x(2) p(3,4) shapeable_shaped [of "c\<lparr>c_score := max_score (map si_score (nested scored p))\<rparr>"
          "build_fact_items (nested scored p)"]
      by (auto simp: shape_orphan_def)
    with x orphan_fields [OF _ assms(2)] mem show ?thesis by (metis imageI)
  qed
qed

end
