(* ===== verification/Search_Hierarchy.thy ===== *)
theory Search_Hierarchy
  imports Search_Shaper "HOL-Library.Product_Lexorder" "HOL-Library.List_Lexorder" "HOL-Library.Char_ord"
begin

text \<open>
  The heap-driven expansion of the hybrid episode search (\<open>memory/search/hierarchy.py\<close>): the
  fused ranking decides in which order episodes are expanded into their facts, and calibrated
  scores decide who stays among the best \<open>top_k\<close>. The fusion functions come from the ranking
  package and are parameters.
\<close>

section \<open>Fusion\<close>

record fusion =
  fu_rrf :: "cand list \<Rightarrow> cand list \<Rightarrow> nat option \<Rightarrow> cand list"
  fu_lr :: "cand list \<Rightarrow> cand list \<Rightarrow> cand list"
  fu_lr_score :: "rat \<Rightarrow> rat \<Rightarrow> rat"

definition build_ep_to_fact_parents :: "cand list \<Rightarrow> (string \<times> string list) list" where
  "build_ep_to_fact_parents episodes =
     fold (\<lambda>ep d.
       let own = (case str_col (c_meta ep) ''entry_id'' of Some e \<Rightarrow> if e = [] then [] else [e] | None \<Rightarrow> []);
           src = (case str_col (c_meta ep) ''parent_id'' of
                    Some p \<Rightarrow> if p = [] \<or> str_col (c_meta ep) ''entry_id'' = Some p then [] else [p]
                  | None \<Rightarrow> [])
       in if own @ src = [] then d else AList.update (c_id ep) (own @ src) d) episodes []"

section \<open>The heap\<close>

text \<open>A heap of \<open>heapq\<close> as the list of its elements: \<open>heappop\<close> takes out a least one.\<close>

definition heappop :: "(rat \<times> string) list \<Rightarrow> (rat \<times> string) \<times> (rat \<times> string) list" where
  "heappop h = (let m = fold min (tl h) (hd h) in (m, remove1 m h))"

section \<open>Competition\<close>

text \<open>An entry of \<open>topn\<close>: id and metadata of the item, its score, its type and its episode.\<close>

record entrant =
  en_id :: string
  en_meta :: lrow
  en_score :: rat
  en_type :: string
  en_episode :: string

type_synonym topn = "(string \<times> entrant) list"

definition min_score :: "topn \<Rightarrow> rat" where
  "min_score topn = (case map (en_score \<circ> snd) topn of [] \<Rightarrow> 0 | x # xs \<Rightarrow> fold min xs x)"

text \<open>\<open>min(topn, key=...)\<close>: the first id with the least score.\<close>

definition worst_id :: "topn \<Rightarrow> string" where
  "worst_id topn = (case filter (\<lambda>kv. en_score (snd kv) = min_score topn) topn of
     [] \<Rightarrow> [] | kv # _ \<Rightarrow> fst kv)"

record hierarchy_env =
  he_fusion :: fusion
  he_facts :: "(string \<times> fact_cand list) list"
  he_bm25 :: "(string \<times> rat) list"
  he_scores :: "(string \<times> rat) list"
  he_alpha :: rat
  he_per_episode :: nat
  he_top_k :: nat

definition get_score :: "(string \<times> rat) list \<Rightarrow> string \<Rightarrow> rat" where
  "get_score d i = (case map_of d i of None \<Rightarrow> 0 | Some x \<Rightarrow> x)"

definition score_facts :: "hierarchy_env \<Rightarrow> string \<Rightarrow> fact_cand list \<Rightarrow> (rat \<times> fact_cand) list" where
  "score_facts he ep facts =
     map (\<lambda>f. (he_alpha he * fu_lr_score (he_fusion he) (fc_score f) (get_score (he_bm25 he) ep)
               + (1 - he_alpha he) * get_score (he_scores he) ep, f)) facts"

definition fact_entrant :: "string \<Rightarrow> rat \<times> fact_cand \<Rightarrow> entrant" where
  "fact_entrant ep sf = \<lparr>en_id = fc_id (snd sf), en_meta = fc_meta (snd sf), en_score = fst sf,
     en_type = ''atomic_fact'', en_episode = ep\<rparr>"

text \<open>One fact tries to enter; the state is \<open>topn\<close>, its least score and whether a fact entered.\<close>

definition enter_fact ::
  "nat \<Rightarrow> string \<Rightarrow> rat \<times> fact_cand \<Rightarrow> topn \<times> rat \<times> bool \<Rightarrow> topn \<times> rat \<times> bool" where
  "enter_fact top_k ep sf st =
     (case st of (topn, least, entered) \<Rightarrow>
        if fst sf \<le> 0 then st
        else if length topn < top_k \<or> least < fst sf then
          let t1 = AList.update (fc_id (snd sf)) (fact_entrant ep sf) topn;
              t2 = (if top_k < length t1 then AList.delete (worst_id t1) t1 else t1)
          in (t2, min_score t2, True)
        else st)"

definition expand_one_episode :: "hierarchy_env \<Rightarrow> string \<Rightarrow> topn \<Rightarrow> topn" where
  "expand_one_episode he ep topn =
     (let facts = take (he_per_episode he * 2) (case map_of (he_facts he) ep of None \<Rightarrow> [] | Some fs \<Rightarrow> fs)
      in if facts = [] then topn
         else let top_facts = take (he_per_episode he) (sort_desc fst (score_facts he ep facts))
              in case fold (enter_fact (he_top_k he) ep) top_facts (topn, min_score topn, False) of
                   (t, _, entered) \<Rightarrow> if entered then AList.delete ep t else t)"

text \<open>The loop stops when the heap is empty or after enough rounds that changed no id.\<close>

lemma heappop_mem: "h \<noteq> [] \<Longrightarrow> fst (heappop h) \<in> set h"
proof -
  have "fold min xs x \<in> insert x (set xs)" for xs and x :: "rat \<times> string"
    by (induction xs arbitrary: x) (auto simp: min_def)
  then show "h \<noteq> [] \<Longrightarrow> fst (heappop h) \<in> set h"
    by (cases h) (auto simp: heappop_def Let_def)
qed

lemma heappop_length: "h \<noteq> [] \<Longrightarrow> length (snd (heappop h)) < length h"
  using heappop_mem [of h] by (auto simp: heappop_def Let_def length_remove1 dest: length_pos_if_in_set)

function expand_loop :: "hierarchy_env \<Rightarrow> nat \<Rightarrow> (rat \<times> string) list \<Rightarrow> topn \<Rightarrow> nat \<Rightarrow> topn" where
  "expand_loop he max_rounds h topn quiet_rounds =
     (if h = [] \<or> max_rounds \<le> quiet_rounds then topn
      else case heappop h of
             ((_, ep), h') \<Rightarrow>
               let t = expand_one_episode he ep topn
               in expand_loop he max_rounds h' t
                    (if fst ` set t = fst ` set topn then quiet_rounds + 1 else 0))"
  by pat_completeness auto
termination
proof (relation "measure (\<lambda>(_, _, h, _, _). length h)", goal_cases)
  case (2 he max_rounds h topn quiet_rounds x h' m ep t)
  then have "length (snd (heappop h)) < length h" by (intro heappop_length) simp
  then show ?case using 2(2) [symmetric] by simp
qed simp

declare expand_loop.simps [simp del]

definition scored_entry :: "entrant \<Rightarrow> scored_item" where
  "scored_entry v = (if en_type v = ''episode''
     then \<lparr>si_id = en_id v, si_score = en_score v, si_type = ''episode'', si_meta = en_meta v, si_parent = None\<rparr>
     else \<lparr>si_id = en_id v, si_score = en_score v, si_type = ''atomic_fact'', si_meta = en_meta v,
           si_parent = Some (en_episode v)\<rparr>)"

definition initial_topn :: "(string \<times> rat) list \<Rightarrow> cand list \<Rightarrow> topn" where
  "initial_topn scores docs = dict_of c_id (\<lambda>doc. \<lparr>en_id = c_id doc, en_meta = c_meta doc,
     en_score = get_score scores (c_id doc), en_type = ''episode'', en_episode = c_id doc\<rparr>) docs"

definition heap_expand ::
  "fusion \<Rightarrow> cand list \<Rightarrow> cand list \<Rightarrow> (string \<times> fact_cand list) list \<Rightarrow> nat \<Rightarrow> rat \<Rightarrow> nat \<Rightarrow> nat \<Rightarrow> nat \<Rightarrow>
   scored_item list" where
  "heap_expand fu sparse dense episode_to_facts top_k alpha rrf_k max_convergence_rounds facts_per_episode =
     (if sparse = [] \<and> dense = [] then []
      else let bm25_scores = dict_of c_id c_score sparse;
               episode_scores = dict_of c_id c_score (fu_lr fu dense sparse);
               rrf_results = fu_rrf fu sparse dense (Some rrf_k)
           in if rrf_results = [] then []
              else let he = \<lparr>he_fusion = fu, he_facts = episode_to_facts, he_bm25 = bm25_scores,
                             he_scores = episode_scores, he_alpha = alpha,
                             he_per_episode = facts_per_episode, he_top_k = top_k\<rparr>;
                       heap = map (\<lambda>doc. (- c_score doc, c_id doc)) rrf_results;
                       topn = expand_loop he max_convergence_rounds heap
                                (initial_topn episode_scores (take top_k rrf_results)) 0
                   in map scored_entry (sort_desc en_score (map snd topn)))"

abbreviation production_heap_expand :: "fusion \<Rightarrow> cand list \<Rightarrow> cand list \<Rightarrow> (string \<times> fact_cand list) list \<Rightarrow> nat \<Rightarrow> scored_item list" where
  "production_heap_expand fu sparse dense facts top_k \<equiv> heap_expand fu sparse dense facts top_k 1 60 10 3"

section \<open>Who is among the best\<close>

lemma length_delete:
  assumes "distinct (map fst t)" and "k \<in> fst ` set t"
  shows "Suc (length (AList.delete k t)) = length t"
  using assms
proof (induction t)
  case (Cons a t)
  show ?case
  proof (cases "fst a = k")
    case True
    then have "AList.delete k t = t" using Cons.prems by (simp add: delete_id)
    with True show ?thesis by (cases a) simp
  next
    case False
    with Cons show ?thesis by (cases a) auto
  qed
qed simp

lemma fold_min_in: "fold min xs x \<in> insert x (set xs)" for x :: "'a::linorder"
  by (induction xs arbitrary: x) (auto simp: min_def)

lemma worst_in: "t \<noteq> [] \<Longrightarrow> worst_id t \<in> fst ` set t"
proof -
  assume "t \<noteq> []"
  then obtain kv where "kv \<in> set t" "en_score (snd kv) = min_score t"
    using fold_min_in [of "tl (map (en_score \<circ> snd) t)" "hd (map (en_score \<circ> snd) t)"]
    by (cases t) (force simp: min_score_def)+
  then have "filter (\<lambda>kv. en_score (snd kv) = min_score t) t \<noteq> []" by (auto simp: filter_empty_conv)
  then obtain kv' rest where "filter (\<lambda>kv. en_score (snd kv) = min_score t) t = kv' # rest"
    by (cases "filter (\<lambda>kv. en_score (snd kv) = min_score t) t") auto
  then show ?thesis using filter_eq_ConsD by (force simp: worst_id_def)
qed

text \<open>
  An entrant is a fused episode with its calibrated score, or a fact found for its episode
  with a positive blended score.
\<close>

definition facts_of :: "hierarchy_env \<Rightarrow> string \<Rightarrow> fact_cand list" where
  "facts_of he ep = (case map_of (he_facts he) ep of None \<Rightarrow> [] | Some fs \<Rightarrow> fs)"

definition blended :: "hierarchy_env \<Rightarrow> string \<Rightarrow> fact_cand \<Rightarrow> rat" where
  "blended he ep f = he_alpha he * fu_lr_score (he_fusion he) (fc_score f) (get_score (he_bm25 he) ep)
     + (1 - he_alpha he) * get_score (he_scores he) ep"

definition entrant_ok :: "hierarchy_env \<Rightarrow> cand list \<Rightarrow> entrant \<Rightarrow> bool" where
  "entrant_ok he docs v \<longleftrightarrow>
     (en_type v = ''episode'' \<and> en_score v = get_score (he_scores he) (en_id v) \<and>
       (\<exists>c\<in>set docs. c_id c = en_id v \<and> c_meta c = en_meta v)) \<or>
     (en_type v = ''atomic_fact'' \<and> 0 < en_score v \<and>
       (\<exists>f\<in>set (facts_of he (en_episode v)). fc_id f = en_id v \<and> fc_meta f = en_meta v \<and>
          en_score v = blended he (en_episode v) f))"

definition topn_ok :: "hierarchy_env \<Rightarrow> cand list \<Rightarrow> topn \<Rightarrow> bool" where
  "topn_ok he docs t \<longleftrightarrow> distinct (map fst t) \<and> length t \<le> he_top_k he \<and>
     (\<forall>kv\<in>set t. en_id (snd kv) = fst kv \<and> entrant_ok he docs (snd kv))"

definition replaced :: "string option \<Rightarrow> topn \<Rightarrow> bool" where
  "replaced ep t \<longleftrightarrow> (\<forall>kv\<in>set t. en_type (snd kv) = ''atomic_fact'' \<longrightarrow>
     en_episode (snd kv) \<notin> fst ` set t \<or> Some (en_episode (snd kv)) = ep)"

lemma score_facts_in: "sf \<in> set (score_facts he ep fs) \<Longrightarrow> snd sf \<in> set fs \<and> fst sf = blended he ep (snd sf)"
  by (auto simp: score_facts_def blended_def)

lemma enter_fact_ok:
  assumes "topn_ok he docs t" and "snd sf \<in> set (facts_of he ep)" and "fst sf = blended he ep (snd sf)"
    and "enter_fact (he_top_k he) ep sf (t, least, entered) = (t', least', entered')" and "0 < he_top_k he"
  shows "topn_ok he docs t'"
proof (cases "t' = t")
  case False
  let ?v = "fact_entrant ep sf" and ?k = "fc_id (snd sf)"
  define t1 where "t1 = AList.update ?k ?v t"
  have pos: "0 < fst sf" and t': "t' = (if he_top_k he < length t1 then AList.delete (worst_id t1) t1 else t1)"
    using assms(4) False by (auto simp: enter_fact_def t1_def Let_def split: if_splits)
  have d: "distinct (map fst t)" "length t \<le> he_top_k he" using assms(1) by (simp_all add: topn_ok_def)
  have d1: "distinct (map fst t1)" using d(1) by (simp add: t1_def distinct_update)
  have ok: "entrant_ok he docs ?v" using assms(2,3) pos
    by (auto simp: entrant_ok_def fact_entrant_def)
  have e1: "\<forall>kv\<in>set t1. en_id (snd kv) = fst kv \<and> entrant_ok he docs (snd kv)"
    using mem_update [OF d(1)] assms(1) ok unfolding t1_def topn_ok_def by (fastforce simp: fact_entrant_def)
  have l1: "length t1 \<le> Suc (he_top_k he)" using d(2) by (simp add: t1_def length_update)
  show ?thesis
  proof (cases "he_top_k he < length t1")
    case True
    then have "t1 \<noteq> []" by auto
    from length_delete [OF d1 worst_in [OF this]] have "length t' \<le> he_top_k he" using l1 t' True by simp
    with True e1 d1 show ?thesis by (simp add: topn_ok_def t' distinct_delete mem_delete)
  next
    case False
    with t' e1 d1 l1 show ?thesis by (simp add: topn_ok_def)
  qed
qed (use assms(1) in simp)

lemma enter_fact_replaced:
  assumes "replaced (Some ep) t" and "distinct (map fst t)" and "fc_id (snd sf) \<notin> E" and "en_episode ` snd ` set t \<subseteq> E"
    and "ep \<in> E" and "enter_fact k ep sf (t, least, entered) = (t', least', entered')"
  shows "replaced (Some ep) t' \<and> en_episode ` snd ` set t' \<subseteq> E \<and> (entered \<longrightarrow> entered') \<and> (entered' \<or> t' = t)"
proof (cases "t' = t")
  case False
  let ?v = "fact_entrant ep sf" and ?k = "fc_id (snd sf)"
  define t1 where "t1 = AList.update ?k ?v t"
  have t': "t' = (if k < length t1 then AList.delete (worst_id t1) t1 else t1)" and e: "entered'"
    using assms(6) False by (auto simp: enter_fact_def t1_def Let_def split: if_splits)
  have sub: "set t' \<subseteq> set t1" by (auto simp: t' mem_delete)
  have old: "kv = (?k, ?v) \<or> kv \<in> set t" if "kv \<in> set t1" for kv
    using mem_update [OF assms(2)] that unfolding t1_def by blast
  have eps: "en_episode (snd kv) \<in> E" if "kv \<in> set t1" for kv
    using old [OF that] assms(4,5) by (auto simp: fact_entrant_def)
  have "replaced (Some ep) t'"
    unfolding replaced_def
  proof (intro ballI impI)
    fix kv assume kv: "kv \<in> set t'" "en_type (snd kv) = ''atomic_fact''"
    show "en_episode (snd kv) \<notin> fst ` set t' \<or> Some (en_episode (snd kv)) = Some ep"
    proof (cases "kv = (?k, ?v)")
      case False
      then have "kv \<in> set t" using old sub kv(1) by blast
      then have "en_episode (snd kv) \<notin> fst ` set t \<or> en_episode (snd kv) = ep"
        using assms(1) kv(2) by (auto simp: replaced_def)
      moreover have "fst ` set t' \<subseteq> insert ?k (fst ` set t)"
        using image_mono [OF sub, of fst] by (simp add: t1_def keys_update)
      moreover have "en_episode (snd kv) \<in> E" using eps subsetD [OF sub kv(1)] .
      then have "en_episode (snd kv) \<noteq> ?k" using assms(3) by metis
      ultimately show ?thesis by blast
    qed (simp add: fact_entrant_def)
  qed
  with e sub eps show ?thesis by auto
next
  case True
  have "entered \<longrightarrow> entered'" using assms(6) unfolding enter_fact_def Let_def by (simp split: if_split_asm)
  with True assms(1,4) show ?thesis by simp
qed

lemma fold_enter_ok:
  assumes "0 < he_top_k he"
  shows "\<forall>sf\<in>set sfs. snd sf \<in> set (facts_of he ep) \<and> fst sf = blended he ep (snd sf) \<Longrightarrow> topn_ok he docs (fst st)
    \<Longrightarrow> topn_ok he docs (fst (fold (enter_fact (he_top_k he) ep) sfs st))"
proof (induction sfs arbitrary: st)
  case (Cons sf sfs)
  obtain t l e where st: "st = (t, l, e)" by (cases st)
  obtain t' l' e' where st': "enter_fact (he_top_k he) ep sf (t, l, e) = (t', l', e')"
    by (cases "enter_fact (he_top_k he) ep sf (t, l, e)")
  have "topn_ok he docs t'" using Cons.prems enter_fact_ok [OF _ _ _ st' assms] by (auto simp: st)
  with Cons.IH [of "(t', l', e')"] Cons.prems(1) show ?case by (simp add: st st')
qed simp

lemma top_facts_in:
  assumes "sf \<in> set (take n (sort_desc fst (score_facts he ep (take m (facts_of he ep)))))"
  shows "snd sf \<in> set (facts_of he ep) \<and> fst sf = blended he ep (snd sf)"
proof -
  have "sf \<in> set (score_facts he ep (take m (facts_of he ep)))"
    using in_set_takeD [OF assms] by (simp add: sort_desc_def)
  from score_facts_in [OF this] show ?thesis by (auto dest: in_set_takeD)
qed

lemma expand_ok:
  assumes "topn_ok he docs t" and "0 < he_top_k he"
  shows "topn_ok he docs (expand_one_episode he ep t)"
proof -
  let ?sfs = "take (he_per_episode he) (sort_desc fst (score_facts he ep (take (he_per_episode he * 2) (facts_of he ep))))"
  obtain u l e where f: "fold (enter_fact (he_top_k he) ep) ?sfs (t, min_score t, False) = (u, l, e)"
    by (cases "fold (enter_fact (he_top_k he) ep) ?sfs (t, min_score t, False)")
  have u: "topn_ok he docs u"
    using fold_enter_ok [OF assms(2), of ?sfs ep docs "(t, min_score t, False)"] top_facts_in assms(1) f by fastforce
  then have "topn_ok he docs (AList.delete ep u)"
    by (auto simp: topn_ok_def distinct_delete mem_delete intro: le_trans [OF length_delete_le])
  with u assms(1) f show ?thesis
    by (simp add: expand_one_episode_def facts_of_def [symmetric] Let_def)
qed

lemma fold_enter_replaced:
  assumes "ep \<in> E"
  shows "\<forall>sf\<in>set sfs. fc_id (snd sf) \<notin> E \<Longrightarrow> replaced (Some ep) t \<Longrightarrow> distinct (map fst t) \<Longrightarrow>
    en_episode ` snd ` set t \<subseteq> E \<Longrightarrow> fold (enter_fact k ep) sfs (t, l, e) = (t', l', e') \<Longrightarrow>
    replaced (Some ep) t' \<and> en_episode ` snd ` set t' \<subseteq> E \<and> (e \<longrightarrow> e') \<and> (e' \<or> t' = t)"
proof (induction sfs arbitrary: t l e)
  case (Cons sf sfs)
  obtain u l1 e1 where st: "enter_fact k ep sf (t, l, e) = (u, l1, e1)" by (cases "enter_fact k ep sf (t, l, e)")
  have "replaced (Some ep) u \<and> en_episode ` snd ` set u \<subseteq> E \<and> (e \<longrightarrow> e1) \<and> (e1 \<or> u = t)"
    by (rule enter_fact_replaced [OF _ _ _ _ assms st]) (use Cons.prems in auto)
  moreover have "distinct (map fst u)"
    using st Cons.prems(3) unfolding enter_fact_def Let_def
    by (auto simp: distinct_update distinct_delete split: if_split_asm)
  moreover have "fold (enter_fact k ep) sfs (u, l1, e1) = (t', l', e')" using Cons.prems(5) st by simp
  ultimately show ?case using Cons.IH [of u l1 e1] Cons.prems(1) by auto
qed simp

lemma expand_replaced:
  assumes "replaced None t" and "distinct (map fst t)" and "en_episode ` snd ` set t \<subseteq> E" and "ep \<in> E"
    and "fc_id ` set (facts_of he ep) \<inter> E = {}"
  shows "replaced None (expand_one_episode he ep t) \<and> en_episode ` snd ` set (expand_one_episode he ep t) \<subseteq> E"
proof -
  let ?sfs = "take (he_per_episode he) (sort_desc fst (score_facts he ep (take (he_per_episode he * 2) (facts_of he ep))))"
  obtain u l e where f: "fold (enter_fact (he_top_k he) ep) ?sfs (t, min_score t, False) = (u, l, e)"
    by (cases "fold (enter_fact (he_top_k he) ep) ?sfs (t, min_score t, False)")
  have "\<forall>sf\<in>set ?sfs. fc_id (snd sf) \<notin> E" using top_facts_in assms(5) by blast
  moreover have "replaced (Some ep) t" using assms(1) by (simp add: replaced_def)
  ultimately have u: "replaced (Some ep) u" "en_episode ` snd ` set u \<subseteq> E" "e \<or> u = t"
    using fold_enter_replaced [OF assms(4) _ _ assms(2,3) f] by blast+
  have "replaced None (AList.delete ep u)"
    using u(1) unfolding replaced_def by (fastforce simp: mem_delete)
  moreover have "en_episode ` snd ` set (AList.delete ep u) \<subseteq> E" using u(2) by (force simp: mem_delete)
  ultimately show ?thesis
    using f u(3) assms(1,3) by (auto simp: expand_one_episode_def facts_of_def [symmetric] Let_def)
qed

lemma loop_invariant:
  assumes "\<And>ep t. ep \<in> snd ` set start \<Longrightarrow> P t \<Longrightarrow> P (expand_one_episode he ep t)" and "P t" and "set h \<subseteq> set start"
  shows "P (expand_loop he r h t n)"
  using assms
proof (induction he r h t n rule: expand_loop.induct)
  case (1 he r h t n)
  show ?case
  proof (cases "h = [] \<or> r \<le> n")
    case False
    obtain m ep h' where p: "heappop h = ((m, ep), h')" by (metis surj_pair)
    have "(m, ep) \<in> set h" using heappop_mem [of h] False p by simp
    then have ep: "ep \<in> snd ` set start" using "1.prems"(3) by force
    have "set h' \<subseteq> set h" using p set_remove1_subset [of "(m, ep)" h] by (auto simp: heappop_def Let_def)
    moreover have "P (expand_one_episode he ep t)" by (rule "1.prems"(1) [OF ep "1.prems"(2)])
    ultimately have "P (expand_loop he r h' (expand_one_episode he ep t)
        (if fst ` set (expand_one_episode he ep t) = fst ` set t then n + 1 else 0))"
      using "1.IH" [OF False p [symmetric] refl refl "1.prems"(1)] "1.prems"(3) by blast
    then show ?thesis using False p by (subst expand_loop.simps) (simp add: Let_def)
  qed (use 1 in \<open>simp add: expand_loop.simps [of _ _ h]\<close>)
qed

text \<open>The calibrated score of an episode and of a fact, as the answer must show them.\<close>

definition lr_score_of :: "fusion \<Rightarrow> cand list \<Rightarrow> cand list \<Rightarrow> string \<Rightarrow> rat" where
  "lr_score_of fu sparse dense i = get_score (dict_of c_id c_score (fu_lr fu dense sparse)) i"

definition fact_score_of :: "fusion \<Rightarrow> cand list \<Rightarrow> cand list \<Rightarrow> rat \<Rightarrow> string \<Rightarrow> fact_cand \<Rightarrow> rat" where
  "fact_score_of fu sparse dense alpha ep f =
     alpha * fu_lr_score fu (fc_score f) (get_score (dict_of c_id c_score sparse) ep)
     + (1 - alpha) * lr_score_of fu sparse dense ep"

definition ranked_item ::
  "fusion \<Rightarrow> cand list \<Rightarrow> cand list \<Rightarrow> (string \<times> fact_cand list) list \<Rightarrow> rat \<Rightarrow> nat \<Rightarrow> scored_item \<Rightarrow> bool" where
  "ranked_item fu sparse dense facts alpha rrf_k s \<longleftrightarrow>
     (case si_parent s of
        None \<Rightarrow> si_type s = ''episode'' \<and> si_score s = lr_score_of fu sparse dense (si_id s) \<and>
          (si_id s, si_meta s) \<in> (\<lambda>c. (c_id c, c_meta c)) ` set (fu_rrf fu sparse dense (Some rrf_k))
      | Some ep \<Rightarrow> si_type s = ''atomic_fact'' \<and> 0 < si_score s \<and>
          (si_id s, si_meta s, si_score s) \<in> (\<lambda>f. (fc_id f, fc_meta f, fact_score_of fu sparse dense alpha ep f))
            ` set (case map_of facts ep of None \<Rightarrow> [] | Some fs \<Rightarrow> fs))"

text \<open>No fact has the id of an episode.\<close>

definition ids_apart :: "cand list \<Rightarrow> (string \<times> fact_cand list) list \<Rightarrow> bool" where
  "ids_apart docs facts \<longleftrightarrow> list_all (\<lambda>f. fc_id f \<notin> c_id ` set docs) (concat (map snd facts))"

lemma initial_topn_ok:
  assumes "set docs \<subseteq> set all_docs" and "length docs \<le> he_top_k he"
  shows "topn_ok he all_docs (initial_topn (he_scores he) docs)" and "replaced None (initial_topn (he_scores he) docs)"
    and "en_episode ` snd ` set (initial_topn (he_scores he) docs) \<subseteq> c_id ` set all_docs"
proof -
  let ?t = "initial_topn (he_scores he) docs"
  have m: "\<exists>c\<in>set docs. kv = (c_id c, \<lparr>en_id = c_id c, en_meta = c_meta c, en_score = get_score (he_scores he) (c_id c),
      en_type = ''episode'', en_episode = c_id c\<rparr>)" if "kv \<in> set ?t" for kv
    using that unfolding initial_topn_def by (rule dict_of_mem)
  have "distinct (map fst ?t)" by (simp add: initial_topn_def dict_of_distinct)
  moreover have "length ?t \<le> he_top_k he"
    using dict_of_length assms(2) unfolding initial_topn_def by (rule le_trans)
  moreover have "\<forall>kv\<in>set ?t. en_id (snd kv) = fst kv \<and> entrant_ok he all_docs (snd kv)"
    using m assms(1) by (fastforce simp: entrant_ok_def)
  ultimately show "topn_ok he all_docs ?t" by (simp add: topn_ok_def)
  show "replaced None ?t" using m by (fastforce simp: replaced_def)
  show "en_episode ` snd ` set ?t \<subseteq> c_id ` set all_docs" using m assms(1) by fastforce
qed

definition heap_env :: "fusion \<Rightarrow> cand list \<Rightarrow> cand list \<Rightarrow> (string \<times> fact_cand list) list \<Rightarrow> nat \<Rightarrow> rat \<Rightarrow> nat \<Rightarrow> hierarchy_env" where
  "heap_env fu sparse dense facts top_k alpha per_episode =
     \<lparr>he_fusion = fu, he_facts = facts, he_bm25 = dict_of c_id c_score sparse,
      he_scores = dict_of c_id c_score (fu_lr fu dense sparse), he_alpha = alpha,
      he_per_episode = per_episode, he_top_k = top_k\<rparr>"

lemma heap_expand_topn:
  assumes "0 < top_k" and "out = heap_expand fu sparse dense facts top_k alpha rrf_k rounds per_episode"
    and "docs = fu_rrf fu sparse dense (Some rrf_k)" and "he = heap_env fu sparse dense facts top_k alpha per_episode"
  obtains t where "out = map scored_entry (sort_desc en_score (map snd t))" and "topn_ok he docs t"
    and "ids_apart docs facts \<Longrightarrow> replaced None t"
proof (cases "(sparse = [] \<and> dense = []) \<or> docs = []")
  case True
  then have "out = []" using assms(2,3) by (auto simp: heap_expand_def Let_def)
  then show thesis using that [of "[]"] by (simp add: topn_ok_def replaced_def sort_desc_def)
next
  case False
  let ?h = "map (\<lambda>doc. (- c_score doc, c_id doc)) docs"
  let ?start = "initial_topn (he_scores he) (take top_k docs)"
  let ?t = "expand_loop he rounds ?h ?start 0"
  have k: "he_top_k he = top_k" and fs: "he_facts he = facts" by (simp_all add: assms(4) heap_env_def)
  have init: "topn_ok he docs ?start" "replaced None ?start" "en_episode ` snd ` set ?start \<subseteq> c_id ` set docs"
    using initial_topn_ok [of "take top_k docs" docs he] k set_take_subset [of top_k docs] by simp_all
  have "topn_ok he docs ?t"
    by (rule loop_invariant [where start = ?h and P = "topn_ok he docs"]) (use expand_ok init(1) assms(1) k in auto)
  moreover have "replaced None ?t" if "ids_apart docs facts"
  proof -
    let ?E = "c_id ` set docs"
    let ?P = "\<lambda>t. topn_ok he docs t \<and> replaced None t \<and> en_episode ` snd ` set t \<subseteq> ?E"
    have "set (facts_of he ep) \<subseteq> set (concat (map snd facts))" for ep
      using map_of_SomeD [of facts ep] by (force simp: facts_of_def fs split: option.splits)
    then have apart: "fc_id ` set (facts_of he ep) \<inter> ?E = {}" for ep
      using that unfolding ids_apart_def list_all_iff by blast
    have step: "?P (expand_one_episode he ep t)" if "ep \<in> snd ` set ?h" and p: "?P t" for ep t
    proof -
      have "ep \<in> ?E" using that(1) by auto
      moreover have "distinct (map fst t)" using p by (simp add: topn_ok_def)
      ultimately have "replaced None (expand_one_episode he ep t) \<and> en_episode ` snd ` set (expand_one_episode he ep t) \<subseteq> ?E"
        using expand_replaced [of t ?E ep he] p apart by blast
      with expand_ok [of he docs t ep] p assms(1) k show ?thesis by simp
    qed
    have "?P ?start" using init by simp
    from loop_invariant [where start = ?h and P = ?P, OF step this subset_refl] show ?thesis by simp
  qed
  moreover have "out = map scored_entry (sort_desc en_score (map snd ?t))"
    using False by (auto simp: assms(2) heap_expand_def assms(3,4) heap_env_def Let_def)
  ultimately show thesis using that by blast
qed

lemma heap_expand_ranked:
  assumes "0 < top_k" and "out = heap_expand fu sparse dense facts top_k alpha rrf_k rounds per_episode"
  shows "length out \<le> top_k" and "distinct (map si_id out)"
    and "sorted_wrt (\<lambda>x y. si_score y \<le> si_score x) out"
    and "s \<in> set out \<Longrightarrow> ranked_item fu sparse dense facts alpha rrf_k s"
    and "ids_apart (fu_rrf fu sparse dense (Some rrf_k)) facts \<Longrightarrow>
      s \<in> set out \<Longrightarrow> si_parent s = Some p \<Longrightarrow> p \<notin> si_id ` set out"
proof -
  let ?docs = "fu_rrf fu sparse dense (Some rrf_k)" and ?he = "heap_env fu sparse dense facts top_k alpha per_episode"
  obtain t where out: "out = map scored_entry (sort_desc en_score (map snd t))" and t: "topn_ok ?he ?docs t"
    and r: "ids_apart ?docs facts \<Longrightarrow> replaced None t"
    using heap_expand_topn [OF assms refl refl] by metis
  have id: "si_id (scored_entry v) = en_id v" and sc: "si_score (scored_entry v) = en_score v" for v
    by (simp_all add: scored_entry_def)
  have k: "he_top_k ?he = top_k" by (simp add: heap_env_def)
  show "length out \<le> top_k" using t k by (simp add: out topn_ok_def)
  have "map en_id (map snd t) = map fst t" using t by (simp add: topn_ok_def)
  moreover have "map si_id out = map en_id (sort_desc en_score (map snd t))" by (simp add: out id)
  ultimately show "distinct (map si_id out)" using t unfolding topn_ok_def by (metis distinct_sort_desc)
  show "sorted_wrt (\<lambda>x y. si_score y \<le> si_score x) out"
    using sorted_sort_desc [of en_score "map snd t"] by (simp add: out sorted_wrt_map sc)
  have mem: "\<exists>kv\<in>set t. s = scored_entry (snd kv)" if "s \<in> set out" for s using that by (auto simp: out)
  show "ranked_item fu sparse dense facts alpha rrf_k s" if "s \<in> set out"
  proof -
    obtain kv where kv: "kv \<in> set t" "s = scored_entry (snd kv)" using mem [OF \<open>s \<in> set out\<close>] by blast
    have "entrant_ok ?he ?docs (snd kv)" using t kv(1) by (simp add: topn_ok_def)
    then show ?thesis
      unfolding entrant_ok_def
    proof (elim disjE conjE bexE)
      fix c assume "en_type (snd kv) = ''episode''" "en_score (snd kv) = get_score (he_scores ?he) (en_id (snd kv))"
        "c \<in> set ?docs" "c_id c = en_id (snd kv)" "c_meta c = en_meta (snd kv)"
      then show ?thesis
        by (force simp: kv(2) ranked_item_def scored_entry_def lr_score_of_def heap_env_def)
    next
      fix f assume "en_type (snd kv) = ''atomic_fact''" "0 < en_score (snd kv)" "f \<in> set (facts_of ?he (en_episode (snd kv)))"
        "fc_id f = en_id (snd kv)" "fc_meta f = en_meta (snd kv)" "en_score (snd kv) = blended ?he (en_episode (snd kv)) f"
      then show ?thesis
        by (auto simp: kv(2) ranked_item_def scored_entry_def lr_score_of_def fact_score_of_def facts_of_def
            blended_def heap_env_def intro!: rev_image_eqI [of f])
    qed
  qed
  show "p \<notin> si_id ` set out" if a: "ids_apart ?docs facts" and s: "s \<in> set out" and p: "si_parent s = Some p"
  proof -
    obtain kv where kv: "kv \<in> set t" "s = scored_entry (snd kv)" using mem [OF s] by blast
    have "en_type (snd kv) = ''atomic_fact''" "en_episode (snd kv) = p"
      using p kv t by (auto simp: scored_entry_def topn_ok_def entrant_ok_def split: if_splits)
    then have "p \<notin> fst ` set t" using r [OF a] kv(1) by (auto simp: replaced_def)
    moreover have "si_id ` set out = fst ` set t"
    proof -
      have "si_id ` set out = en_id ` snd ` set t" by (simp add: out image_image id)
      also have "\<dots> = fst ` set t" using t by (force simp: topn_ok_def image_iff)
      finally show ?thesis .
    qed
    ultimately show ?thesis by simp
  qed
qed

end
