(* ===== verification/Py_Float.thy ===== *)
theory Py_Float
  imports Prelude "HOL-Library.Log_Nat"
begin

text \<open>
  Python's \<open>float\<close> where its rounding shows: the nearest number with 53 binary digits, ties to
  even. Exponents are not bounded, so neither overflow nor subnormal numbers are modelled.
\<close>

definition round_half_even :: "rat \<Rightarrow> int" where
  "round_half_even r =
     (let f = \<lfloor>r\<rfloor>; d = r - of_int f
      in if d < 1 / 2 then f else if 1 / 2 < d then f + 1 else if even f then f else f + 1)"

text \<open>The binary exponent of a positive number.\<close>

definition binary_exponent :: "rat \<Rightarrow> int" where
  "binary_exponent x =
     (case quotient_of x of (n, d) \<Rightarrow>
        let k = bitlen n - bitlen d in if 2 powi k \<le> x then k else k - 1)"

definition fl :: "rat \<Rightarrow> rat" where
  "fl x =
     (if x = 0 then 0
      else let u = 2 powi (binary_exponent \<bar>x\<bar> - 52)
           in sgn x * of_int (round_half_even (\<bar>x\<bar> / u)) * u)"

lemma round_half_even_bounds: "\<bar>of_int (round_half_even r) - r\<bar> \<le> 1 / 2"
proof -
  have "of_int \<lfloor>r\<rfloor> \<le> r" "r < of_int \<lfloor>r\<rfloor> + 1" by linarith+
  then show ?thesis by (simp add: round_half_even_def Let_def abs_le_iff)
qed

lemma round_half_even_near:
  assumes "\<bar>r - of_int n\<bar> < 1 / 2"
  shows "round_half_even r = n"
proof -
  have "\<bar>of_int (round_half_even r) - of_int n\<bar> < (1 :: rat)"
    using round_half_even_bounds [of r] assms by linarith
  then show ?thesis by linarith
qed

lemma binary_exponent_le:
  assumes "0 < x"
  shows "2 powi binary_exponent x \<le> x"
proof -
  obtain n d where q: "quotient_of x = (n, d)" by (cases "quotient_of x")
  have d: "0 < d" and x: "x = of_int n / of_int d"
    using q quotient_of_denom_pos quotient_of_div by blast+
  then have n: "0 < n" using assms by (simp add: zero_less_divide_iff)
  have "(2::int) ^ nat (bitlen n - 1) \<le> n" "d < 2 ^ nat (bitlen d)" and b: "0 < bitlen n" "0 < bitlen d"
    using bitlen_bounds [OF n] bitlen_bounds [OF d] bitlen_ge_iff_power [of 1 n] bitlen_ge_iff_power [of 1 d] n d
    by simp_all
  then have "2 ^ nat (bitlen n - 1) \<le> (of_int n :: rat)" and "(of_int d :: rat) \<le> 2 ^ nat (bitlen d)"
    by (metis of_int_le_iff of_int_numeral of_int_power, metis of_int_le_iff of_int_numeral of_int_power less_imp_le)
  then have "(2::rat) powi (bitlen n - 1) \<le> of_int n" "(of_int d :: rat) \<le> 2 powi bitlen d"
    using b by (simp_all add: power_int_def)
  then have "2 powi (bitlen n - 1) / 2 powi bitlen d \<le> x"
    unfolding x using d n by (intro frac_le) simp_all
  moreover have "(2::rat) powi (bitlen n - bitlen d - 1) = 2 powi (bitlen n - 1) / 2 powi bitlen d"
    by (simp add: power_int_diff [symmetric] algebra_simps)
  ultimately show ?thesis by (simp add: binary_exponent_def q Let_def)
qed

lemma fl_error: "\<bar>fl x - x\<bar> \<le> \<bar>x\<bar> / 2 ^ 53"
proof (cases "x = 0")
  case False
  let ?u = "2 powi (binary_exponent \<bar>x\<bar> - 52) :: rat"
  have u: "0 < ?u" by simp
  have "2 powi binary_exponent \<bar>x\<bar> = ?u * 2 ^ 52"
    by (simp add: power_int_diff)
  then have low: "?u * 2 ^ 52 \<le> \<bar>x\<bar>" using binary_exponent_le [of "\<bar>x\<bar>"] False by simp
  have "fl x - x = sgn x * (of_int (round_half_even (\<bar>x\<bar> / ?u)) - \<bar>x\<bar> / ?u) * ?u"
    using u False by (simp add: fl_def Let_def algebra_simps sgn_mult_abs abs_mult_sgn)
  then have "\<bar>fl x - x\<bar> = \<bar>of_int (round_half_even (\<bar>x\<bar> / ?u)) - \<bar>x\<bar> / ?u\<bar> * ?u"
    using False by (simp add: abs_mult abs_sgn_eq)
  also have "\<dots> \<le> 1 / 2 * ?u"
    using round_half_even_bounds by (intro mult_right_mono) simp_all
  also have "\<dots> \<le> \<bar>x\<bar> / 2 ^ 53" using low by (simp add: field_simps)
  finally show ?thesis .
qed (simp add: fl_def)

end
