(* ===== verification/Search_Agentic.thy ===== *)
theory Search_Agentic
  imports Search_Hierarchy Py_Float
begin

text \<open>
  The rerank and retrieve callbacks (\<open>memory/search/callbacks.py\<close>) and the agentic paths
  (\<open>memory/search/agentic.py\<close>, \<open>agentic_agent.py\<close>, \<open>skill_hybrid.py\<close>). The retrieval loops of
  the ranking package are higher-order parameters that receive the program's retrieve and
  rerank functions. Instants are microseconds, which is what \<open>datetime\<close> keeps.
\<close>

section \<open>What the paths call\<close>

type_synonym retrieve_fn = "string \<Rightarrow> nat \<Rightarrow> search_error + cand list"
type_synonym rerank_fn = "string \<Rightarrow> cand list \<Rightarrow> search_error + cand list"
type_synonym rerank_provider = "string \<Rightarrow> string list \<Rightarrow> string option \<Rightarrow> search_error + (int \<times> rat) list"

record agentic_params =
  ap_round2_cap :: nat
  ap_top_n :: nat
  ap_round1_top_n :: nat
  ap_round1_rerank_top_n :: nat
  ap_refinement :: string
  ap_multi_query_count :: nat
  ap_rrf_k :: nat

record rank_input =
  ri_query :: string
  ri_memory_type :: string
  ri_sparse :: "cand list"
  ri_dense :: "cand list"
  ri_top_k :: nat
  ri_radius :: "rat option"

text \<open>
  The ranking package: \<open>arank\<close> with its fusion mode (\<open>None\<close> is the default configuration),
  \<open>amaxsim_retrieve\<close>, \<open>ahybrid_retrieve\<close>, \<open>acluster_retrieve\<close> and \<open>aagentic_retrieve\<close>.
\<close>

record ('l, 'k) rank_lib =
  rl_fusion :: fusion
  rl_arank :: "rank_input \<Rightarrow> string option \<Rightarrow> 'l option \<Rightarrow> bool \<Rightarrow> nat \<Rightarrow> search_error + scored_item list"
  rl_maxsim :: "string \<Rightarrow> retrieve_fn \<Rightarrow> (string list \<Rightarrow> search_error + cand list) \<Rightarrow> nat \<Rightarrow> int \<Rightarrow> search_error + cand list"
  rl_hybrid :: "string \<Rightarrow> retrieve_fn \<Rightarrow> retrieve_fn \<Rightarrow> nat \<Rightarrow> nat \<Rightarrow> nat \<Rightarrow> nat \<Rightarrow> search_error + cand list"
  rl_cluster :: "string \<Rightarrow> retrieve_fn \<Rightarrow> nat option \<Rightarrow> 'k list \<Rightarrow> cand list \<Rightarrow> nat \<Rightarrow> search_error + cand list"
  rl_agentic :: "string \<Rightarrow> retrieve_fn \<Rightarrow> retrieve_fn option \<Rightarrow> 'l option \<Rightarrow> rerank_fn \<Rightarrow> agentic_params \<Rightarrow> search_error + cand list"

section \<open>Rerank callbacks\<close>

text \<open>\<open>str(_ or "")\<close> of a column value; \<open>show_cell\<close> is \<open>str\<close> on what is not a text.\<close>

definition str_of :: "(colval \<Rightarrow> string) \<Rightarrow> colval \<Rightarrow> string" where
  "str_of show_cell v = (case v of Plain (JStr s) \<Rightarrow> s | _ \<Rightarrow> show_cell v)"

definition text_or_empty :: "(colval \<Rightarrow> string) \<Rightarrow> lrow \<Rightarrow> string \<Rightarrow> string" where
  "text_or_empty show_cell md k = (case map_of md k of
     None \<Rightarrow> []
   | Some (Plain j) \<Rightarrow> if truthy_json j then str_of show_cell (Plain j) else []
   | Some (Instant t) \<Rightarrow> str_of show_cell (Instant t))"

text \<open>The scored results in the provider's order; an index out of range is skipped.\<close>

definition reranked :: "cand list \<Rightarrow> (int \<times> rat) list \<Rightarrow> cand list" where
  "reranked items results = concat (map (\<lambda>(i, score).
     if 0 \<le> i \<and> i < int (length items) then [(items ! nat i)\<lparr>c_score := score\<rparr>] else []) results)"

definition rerank_with :: "rerank_provider \<Rightarrow> (cand \<Rightarrow> string) \<Rightarrow> string option \<Rightarrow> rerank_fn" where
  "rerank_with provider passage instruction query items =
     (if items = [] then Inr []
      else bind_result (provider query (map passage items) instruction) (\<lambda>results. Inr (reranked items results)))"

definition build_rerank_fn ::
  "(colval \<Rightarrow> string) \<Rightarrow> rerank_provider \<Rightarrow> string \<Rightarrow> string option \<Rightarrow> rerank_fn" where
  "build_rerank_fn show_cell provider text_field instruction =
     rerank_with provider
       (\<lambda>c. case map_of (c_meta c) text_field of None \<Rightarrow> [] | Some v \<Rightarrow> str_of show_cell v) instruction"

definition SKILL_RERANK_INSTRUCTION :: string where
  "SKILL_RERANK_INSTRUCTION = ''Determine whether the skill's methodology and domain are applicable to the query, preferring same-domain skills with directly relevant steps.''"

definition CASE_RERANK_INSTRUCTION :: string where
  "CASE_RERANK_INSTRUCTION = ''Determine whether the case's task and approach are applicable to the query, preferring same-domain cases with directly relevant methodology.''"

definition format_skill_passage :: "(colval \<Rightarrow> string) \<Rightarrow> lrow \<Rightarrow> string" where
  "format_skill_passage show_cell md =
     (let nm = text_or_empty show_cell md ''name''; description = text_or_empty show_cell md ''description''
      in if nm = [] then description
         else if description \<noteq> [] then ''Agent Skill: '' @ nm @ '' - '' @ description
         else ''Agent Skill: '' @ nm)"

definition build_skill_rerank_fn :: "(colval \<Rightarrow> string) \<Rightarrow> rerank_provider \<Rightarrow> rerank_fn" where
  "build_skill_rerank_fn show_cell provider =
     rerank_with provider (\<lambda>c. format_skill_passage show_cell (c_meta c)) (Some SKILL_RERANK_INSTRUCTION)"

definition format_case_passage :: "(colval \<Rightarrow> string) \<Rightarrow> lrow \<Rightarrow> string" where
  "format_case_passage show_cell md =
     (let intent = text_or_empty show_cell md ''task_intent''; approach = text_or_empty show_cell md ''approach''
      in if intent = [] then approach
         else if approach \<noteq> [] then ''Agent Case: '' @ intent @ '' - '' @ approach
         else ''Agent Case: '' @ intent)"

definition build_case_rerank_fn :: "(colval \<Rightarrow> string) \<Rightarrow> rerank_provider \<Rightarrow> rerank_fn" where
  "build_case_rerank_fn show_cell provider =
     rerank_with provider (\<lambda>c. format_case_passage show_cell (c_meta c)) (Some CASE_RERANK_INSTRUCTION)"

definition build_retrieve_fn ::
  "fusion \<Rightarrow> (string \<Rightarrow> string \<Rightarrow> nat \<Rightarrow> search_error + cand list) \<Rightarrow>
   (vec \<Rightarrow> string \<Rightarrow> nat \<Rightarrow> search_error + cand list) \<Rightarrow> string \<Rightarrow> (string \<Rightarrow> search_error + vec) \<Rightarrow> nat \<Rightarrow> retrieve_fn" where
  "build_retrieve_fn fu sparse_recall dense_recall w emb rrf_k query top_n =
     (let limit = top_n * 5
      in bind_result (emb query) (\<lambda>vector.
         bind_result (sparse_recall query w limit) (\<lambda>sparse.
         bind_result (if vector \<noteq> [] then dense_recall vector w limit else Inr []) (\<lambda>dense.
           Inr (if sparse = [] \<and> dense = [] then [] else take top_n (fu_rrf fu dense sparse (Some rrf_k)))))))"

section \<open>Time stamps\<close>

text \<open>
  \<open>to_timestamp_ms\<close> goes through a float of seconds and truncates the product. \<open>from_timestamp\<close>
  takes a number below \<open>10^12\<close> for seconds; \<open>fromtimestamp\<close> splits its float into whole seconds and
  a fraction, which it rounds to microseconds. A date outside the years 1 to 9999 raises.
\<close>

definition to_timestamp_ms :: "time \<Rightarrow> int" where
  "to_timestamp_ms t = trunc (fl (fl (of_int t / 1000000) * 1000))"

definition MS_THRESHOLD :: rat where "MS_THRESHOLD = 1000000000000"

definition valid_instant :: "time \<Rightarrow> bool" where
  "valid_instant t \<longleftrightarrow> - 62135596800000000 \<le> t \<and> t < 253402300800000000"

definition micros_of :: "rat \<Rightarrow> time" where
  "micros_of s = trunc s * 1000000 + round_half_even (fl ((s - of_int (trunc s)) * 1000000))"

definition from_timestamp :: "rat \<Rightarrow> search_error + time" where
  "from_timestamp ts =
     (let t = micros_of (if MS_THRESHOLD \<le> ts then fl (ts / 1000) else fl ts)
      in if valid_instant t then Inr t else Inl Se_value)"

section \<open>The episode path\<close>

definition to_doc_metadata :: "lrow \<Rightarrow> lrow" where
  "to_doc_metadata md =
     (let m1 = (case map_of md ''episode'' of
                  Some (Plain (JStr episode)) \<Rightarrow>
                    AList.update ''episode''
                      (Plain (JObj [(''subject'', case map_of md ''subject'' of Some (Plain j) \<Rightarrow> j | _ \<Rightarrow> JStr []),
                                    (''content'', JStr episode)]))
                      (AList.update ''text'' (Plain (JStr episode)) md)
                | _ \<Rightarrow> md)
      in case map_of md ''timestamp'' of
           Some (Instant t) \<Rightarrow> AList.update ''timestamp'' (Plain (JInt (to_timestamp_ms t))) m1
         | _ \<Rightarrow> m1)"

definition restored_time :: "lrow \<Rightarrow> search_error + lrow" where
  "restored_time md =
     (case num_col md ''timestamp'' of
        None \<Rightarrow> Inr md
      | Some ts \<Rightarrow> bind_result (from_timestamp ts) (\<lambda>t. Inr (AList.update ''timestamp'' (Instant t) md)))"

definition restore_shaper_metadata :: "lrow \<Rightarrow> search_error + lrow" where
  "restore_shaper_metadata md =
     bind_result (restored_time md) (\<lambda>m.
       Inr (case map_of md ''episode'' of
              Some (Plain (JObj kvs)) \<Rightarrow>
                AList.update ''episode'' (Plain (case map_of kvs ''content'' of None \<Rightarrow> JStr [] | Some j \<Rightarrow> j)) m
            | _ \<Rightarrow> m))"

definition parent_fetch :: "recall_table \<Rightarrow> string \<Rightarrow> string list \<Rightarrow> search_error + cand list" where
  "parent_fetch tb w parent_ids =
     bind_result (fetch_by_entry_ids tb parent_ids w) (\<lambda>episodes.
       Inr (concat (map (\<lambda>c.
         case str_col (c_meta c) ''entry_id'' of
           None \<Rightarrow> []
         | Some eid \<Rightarrow> [\<lparr>c_id = eid, c_score = 0, c_source = c_source c,
             c_meta = to_doc_metadata (AList.update ''episode_id'' (Plain (JStr (c_id c))) (c_meta c))\<rparr>]) episodes)))"

definition shape_agentic_results :: "cand list \<Rightarrow> search_error + episode_item list" where
  "shape_agentic_results cs =
     bind_result (collect (\<lambda>c.
       case str_col (c_meta c) ''episode_id'' of
         None \<Rightarrow> Inr None
       | Some i \<Rightarrow> bind_result (restore_shaper_metadata (c_meta c)) (\<lambda>md.
           shape_episode_from_candidate (c\<lparr>c_id := i, c_meta := md\<rparr>) [])) cs)
       (\<lambda>shaped. Inr (somes shaped))"

definition gather_both :: "search_error + 'a list \<Rightarrow> search_error + 'a list \<Rightarrow> search_error + 'a list" where
  "gather_both x y = bind_result x (\<lambda>a. bind_result y (\<lambda>b. Inr (a @ b)))"

definition FACT_CHILD_CANDIDATES :: int where "FACT_CHILD_CANDIDATES = 100000"

definition RERANK_INSTRUCTION :: string where
  "RERANK_INSTRUCTION = ''Determine if the passage contains specific facts, entities (names, dates, locations), or details that directly answer the question.''"

definition fact_dense :: "recall_table \<Rightarrow> recall_table \<Rightarrow> (string \<Rightarrow> search_error + vec) \<Rightarrow> string \<Rightarrow> retrieve_fn" where
  "fact_dense facts episodes emb w q k =
     bind_result (emb q) (\<lambda>v.
       if v = [] then Inr []
       else gather_both (fact_dense_recall facts v w k) (dense_recall_subject_as_child episodes v w k))"

definition fact_sparse :: "recall_table \<Rightarrow> recall_table \<Rightarrow> (string \<Rightarrow> string list) \<Rightarrow> string \<Rightarrow> retrieve_fn" where
  "fact_sparse facts episodes tokenize w q k =
     gather_both (fact_sparse_recall tokenize facts q w k) (sparse_recall_as_child tokenize episodes q w k)"

record ('l, 'k) agentic_env =
  ag_lib :: "('l, 'k) rank_lib"
  ag_show :: "colval \<Rightarrow> string"
  ag_tokenize :: "string \<Rightarrow> string list"
  ag_embed :: "string \<Rightarrow> search_error + vec"
  ag_reranker :: rerank_provider
  ag_llm :: "'l option"

definition hybrid_full :: "('l, 'k) agentic_env \<Rightarrow> recall_table \<Rightarrow> recall_table \<Rightarrow> string \<Rightarrow> retrieve_fn" where
  "hybrid_full ag facts episodes w q k =
     (let maxsim = (\<lambda>child q k. rl_maxsim (ag_lib ag) q child (parent_fetch episodes w) k FACT_CHILD_CANDIDATES)
      in rl_hybrid (ag_lib ag) q (maxsim (fact_dense facts episodes (ag_embed ag) w))
           (maxsim (fact_sparse facts episodes (ag_tokenize ag) w)) k 50 50 40)"

definition search_episodes_agentic ::
  "('l, 'k) agentic_env \<Rightarrow> recall_table \<Rightarrow> recall_table \<Rightarrow> search_error + 'k list \<Rightarrow> string \<Rightarrow> string \<Rightarrow> nat \<Rightarrow>
   search_error + episode_item list" where
  "search_episodes_agentic ag episodes facts clusters query w top_k =
     bind_result clusters (\<lambda>ks.
     bind_result (fetch_all_for_owner episodes w) (\<lambda>raw.
       let all_docs = map (\<lambda>c. c\<lparr>c_meta := to_doc_metadata (c_meta c)\<rparr>) raw;
           full = hybrid_full ag facts episodes w;
           scoped = (\<lambda>q _. rl_cluster (ag_lib ag) q full None ks all_docs 10);
           rerank = build_rerank_fn (ag_show ag) (ag_reranker ag) ''episode'' (Some RERANK_INSTRUCTION)
       in bind_result
            (rl_agentic (ag_lib ag) query scoped (Some full) (ag_llm ag) rerank
               \<lparr>ap_round2_cap = 40, ap_top_n = top_k, ap_round1_top_n = 50, ap_round1_rerank_top_n = 10,
                ap_refinement = ''multi_query'', ap_multi_query_count = 3, ap_rrf_k = 40\<rparr>)
            shape_agentic_results))"

section \<open>The agent path\<close>

definition EMPTY_PASSAGE :: string where "EMPTY_PASSAGE = ''(empty)''"

definition agent_doc_metadata :: "(lrow \<Rightarrow> string) \<Rightarrow> lrow \<Rightarrow> lrow" where
  "agent_doc_metadata format_passage md =
     (let content = (if format_passage md = [] then EMPTY_PASSAGE else format_passage md);
          m1 = AList.update ''episode''
                 (Plain (JObj [(''subject'', case map_of md ''subject'' of Some (Plain j) \<Rightarrow> j | _ \<Rightarrow> JStr []),
                               (''content'', JStr content)])) md
      in case map_of md ''timestamp'' of
           Some (Instant t) \<Rightarrow> AList.update ''timestamp'' (Plain (JInt (to_timestamp_ms t))) m1
         | _ \<Rightarrow> m1)"

definition agent_restore_metadata :: "lrow \<Rightarrow> search_error + lrow" where
  "agent_restore_metadata md = bind_result (restored_time md) (\<lambda>m. Inr (AList.delete ''episode'' m))"

definition agent_hybrid_full ::
  "('l, 'k) agentic_env \<Rightarrow> (string \<Rightarrow> string \<Rightarrow> nat \<Rightarrow> search_error + cand list) \<Rightarrow>
   (vec \<Rightarrow> string \<Rightarrow> nat \<Rightarrow> search_error + cand list) \<Rightarrow> (lrow \<Rightarrow> string) \<Rightarrow> string \<Rightarrow> retrieve_fn" where
  "agent_hybrid_full ag sparse_recall dense_recall passage w q k =
     bind_result
       (rl_hybrid (ag_lib ag) q
          (\<lambda>q k. bind_result (ag_embed ag q) (\<lambda>v. if v = [] then Inr [] else dense_recall v w k))
          (\<lambda>q k. sparse_recall q w k) k 50 50 60)
       (\<lambda>hits. Inr (map (\<lambda>c. c\<lparr>c_meta := agent_doc_metadata passage (c_meta c)\<rparr>) hits))"

definition run_agentic_retrieve ::
  "('l, 'k) agentic_env \<Rightarrow> (string \<Rightarrow> string \<Rightarrow> nat \<Rightarrow> search_error + cand list) \<Rightarrow>
   (vec \<Rightarrow> string \<Rightarrow> nat \<Rightarrow> search_error + cand list) \<Rightarrow> (lrow \<Rightarrow> string) \<Rightarrow> rerank_fn \<Rightarrow> string \<Rightarrow> string \<Rightarrow> nat \<Rightarrow>
   search_error + cand list" where
  "run_agentic_retrieve ag sparse_recall dense_recall passage rerank query w top_k =
     bind_result
       (rl_agentic (ag_lib ag) query (agent_hybrid_full ag sparse_recall dense_recall passage w) None (ag_llm ag) rerank
          \<lparr>ap_round2_cap = 40, ap_top_n = top_k, ap_round1_top_n = 20, ap_round1_rerank_top_n = 10,
           ap_refinement = ''multi_query'', ap_multi_query_count = 3, ap_rrf_k = 60\<rparr>)
       (collect (\<lambda>c. bind_result (agent_restore_metadata (c_meta c)) (\<lambda>md. Inr (c\<lparr>c_meta := md\<rparr>))))"

definition search_agent_cases_agentic ::
  "('l, 'k) agentic_env \<Rightarrow> recall_table \<Rightarrow> string \<Rightarrow> string \<Rightarrow> nat \<Rightarrow> search_error + agent_case_item list" where
  "search_agent_cases_agentic ag tb query w top_k =
     bind_result
       (run_agentic_retrieve ag (case_sparse_recall (ag_tokenize ag) tb) (case_dense_recall tb)
          (format_case_passage (ag_show ag)) (build_case_rerank_fn (ag_show ag) (ag_reranker ag)) query w top_k)
       (\<lambda>cs. Inr (somes (map shape_agent_case_from_candidate cs)))"

definition search_agent_skills_agentic ::
  "('l, 'k) agentic_env \<Rightarrow> recall_table \<Rightarrow> string \<Rightarrow> string \<Rightarrow> nat \<Rightarrow> search_error + agent_skill_item list" where
  "search_agent_skills_agentic ag tb query w top_k =
     bind_result
       (run_agentic_retrieve ag (skill_sparse_recall (ag_tokenize ag) tb) (skill_dense_recall tb)
          (format_skill_passage (ag_show ag)) (build_skill_rerank_fn (ag_show ag) (ag_reranker ag)) query w top_k)
       (\<lambda>cs. Inr (somes (map shape_agent_skill_from_candidate cs)))"

section \<open>The cross-encoder lane of skills\<close>

definition cross_encoder_rerank ::
  "(colval \<Rightarrow> string) \<Rightarrow> rerank_provider \<Rightarrow> string \<Rightarrow> cand list \<Rightarrow> nat \<Rightarrow> search_error + cand list" where
  "cross_encoder_rerank show_cell provider query candidates top_k =
     (if candidates = [] then Inr []
      else bind_result (build_skill_rerank_fn show_cell provider query candidates) (\<lambda>out. Inr (take top_k out)))"

definition search_agent_skills_hybrid ::
  "(colval \<Rightarrow> string) \<Rightarrow> fusion \<Rightarrow> rerank_provider \<Rightarrow> string \<Rightarrow> cand list \<Rightarrow> cand list \<Rightarrow> nat \<Rightarrow>
   search_error + agent_skill_item list" where
  "search_agent_skills_hybrid show_cell fu provider query sparse dense top_k =
     bind_result (cross_encoder_rerank show_cell provider query (fu_rrf fu sparse dense None) top_k)
       (\<lambda>cs. Inr (somes (map shape_agent_skill_from_candidate cs)))"

end
