(* ===== verification/Search_Manager.thy ===== *)
theory Search_Manager
  imports Search_Agentic Memory_Get Memorize
begin

text \<open>
  \<open>POST /api/v2/memory/search\<close>: the request with its validators (\<open>memory/search/dto.py\<close>), the
  pipeline selector (\<open>memory/search/adapter.py\<close>) and \<open>SearchManager\<close>
  (\<open>memory/search/manager.py\<close>). The manager only reads; its stores, providers and the ranking
  package are parameters. Tracing is left out, but for the top score it reports.
\<close>

section \<open>Requests\<close>

datatype search_method = KEYWORD | VECTOR | HYBRID | AGENTIC

record search_request =
  sr_user_id :: "string option"
  sr_agent_id :: "string option"
  sr_app_id :: string
  sr_project_id :: string
  sr_query :: string
  sr_method :: search_method
  sr_top_k :: int
  sr_radius :: "rat option"
  sr_min_score :: "rat option"
  sr_include_profile :: bool
  sr_enable_llm_rerank :: bool
  sr_filters :: "filter_node option"

definition sr_owner_id :: "search_request \<Rightarrow> string" where
  "sr_owner_id q = (case sr_user_id q of
     Some u \<Rightarrow> if u \<noteq> [] then u else (case sr_agent_id q of Some a \<Rightarrow> a | None \<Rightarrow> [])
   | None \<Rightarrow> (case sr_agent_id q of Some a \<Rightarrow> a | None \<Rightarrow> []))"

definition sr_owner_type :: "search_request \<Rightarrow> string" where
  "sr_owner_type q = (if sr_user_id q \<noteq> None then ''user'' else ''agent'')"

definition in_unit :: "rat option \<Rightarrow> bool" where
  "in_unit x = (case x of None \<Rightarrow> True | Some r \<Rightarrow> 0 \<le> r \<and> r \<le> 1)"

definition validate_search :: "search_request \<Rightarrow> search_error + search_request" where
  "validate_search q =
     (if sr_user_id q = Some [] then Inl (Se_invalid ''user_id'')
      else if sr_agent_id q = Some [] then Inl (Se_invalid ''agent_id'')
      else if sr_query q = [] then Inl (Se_invalid ''query'')
      else if \<not> in_unit (sr_radius q) then Inl (Se_invalid ''radius'')
      else if \<not> in_unit (sr_min_score q) then Inl (Se_invalid ''min_score'')
      else if (sr_user_id q = None) = (sr_agent_id q = None) then Inl (Se_invalid ''owner'')
      else if sr_top_k q = 0 \<or> sr_top_k q < -1 \<or> 100 < sr_top_k q then Inl (Se_invalid ''top_k'')
      else Inr q)"

datatype search_kind = Kind_episode | Kind_atomic_fact | Kind_agent_case | Kind_agent_skill

text \<open>\<open>AGENTIC\<close> never reaches the selector, which raises on it.\<close>

fun resolve_pipeline :: "search_method \<Rightarrow> search_kind \<Rightarrow> search_error + string option" where
  "resolve_pipeline KEYWORD _ = Inr None"
| "resolve_pipeline VECTOR _ = Inr None"
| "resolve_pipeline HYBRID k = Inr (Some
     (case k of Kind_agent_case \<Rightarrow> ''vector_anchored'' | Kind_agent_skill \<Rightarrow> ''skill_hybrid'' | _ \<Rightarrow> ''hierarchy''))"
| "resolve_pipeline AGENTIC _ = Inl Se_value"

section \<open>Limits\<close>

definition RECALL_MULTIPLIER :: int where "RECALL_MULTIPLIER = 2"
definition TOP_K_CAP :: nat where "TOP_K_CAP = 100"
definition AGENT_TOP_K_CAP :: nat where "AGENT_TOP_K_CAP = 10"
definition DEFAULT_UNLIMITED_RADIUS :: rat where "DEFAULT_UNLIMITED_RADIUS = 1 / 2"
definition MAXSIM_FACT_MULTIPLIER :: nat where "MAXSIM_FACT_MULTIPLIER = 20"
definition MAXSIM_FACT_POOL_CAP :: nat where "MAXSIM_FACT_POOL_CAP = 2000"

definition resolve_top_k :: "int \<Rightarrow> nat \<Rightarrow> nat" where
  "resolve_top_k top_k cap = (if top_k = -1 then cap else nat top_k)"

definition recall_limit :: "int \<Rightarrow> nat \<Rightarrow> nat" where
  "recall_limit top_k cap = (if top_k = -1 then cap else nat (max (top_k * RECALL_MULTIPLIER) RECALL_MULTIPLIER))"

definition effective_llm_rerank :: "search_request \<Rightarrow> bool" where
  "effective_llm_rerank q \<longleftrightarrow> sr_method q = HYBRID \<and> sr_enable_llm_rerank q"

definition effective_radius :: "search_request \<Rightarrow> rat option" where
  "effective_radius q = (case sr_radius q of
     Some r \<Rightarrow> Some r
   | None \<Rightarrow> if sr_top_k q = -1 then Some DEFAULT_UNLIMITED_RADIUS else None)"

definition apply_radius :: "cand list \<Rightarrow> rat option \<Rightarrow> cand list" where
  "apply_radius cs radius = (case radius of None \<Rightarrow> cs | Some r \<Rightarrow> filter (\<lambda>c. r \<le> c_score c) cs)"

section \<open>The environment of the manager\<close>

record embedder =
  em_embed :: "string \<Rightarrow> search_error + vec"
  em_dim :: "nat option"

record ('l, 'k, 'v, 't) search_env =
  sv_iso :: "int \<Rightarrow> string option"
  sv_tokenize :: "string \<Rightarrow> string list"
  sv_episode :: recall_table
  sv_fact :: recall_table
  sv_case :: recall_table
  sv_skill :: recall_table
  sv_profile :: "('v, 't) get_env"
  sv_buffer :: "buffer_row list"
  sv_clusters :: "string \<Rightarrow> string \<Rightarrow> string \<Rightarrow> search_error + 'k list"
  sv_embedding :: "embedder option"
  sv_reranker :: "rerank_provider option"
  sv_llm :: "'l option"
  sv_embedding_available :: bool
  sv_rerank_available :: bool
  sv_lib :: "('l, 'k) rank_lib"
  sv_show :: "colval \<Rightarrow> string"

definition embed_query :: "embedder option \<Rightarrow> string \<Rightarrow> search_error + vec" where
  "embed_query emb query =
     (case emb of
        None \<Rightarrow> Inr []
      | Some e \<Rightarrow> bind_result (em_embed e query) (\<lambda>v.
          case em_dim e of
            Some d \<Rightarrow> if d \<noteq> 0 \<and> length v \<noteq> d then Inl Se_dimension else Inr v
          | None \<Rightarrow> Inr v))"

text \<open>The agentic paths use the providers directly; a missing one raises on use.\<close>

definition agentic_env_of :: "('l, 'k, 'v, 't) search_env \<Rightarrow> ('l, 'k) agentic_env" where
  "agentic_env_of sv =
     \<lparr>ag_lib = sv_lib sv, ag_show = sv_show sv, ag_tokenize = sv_tokenize sv,
      ag_embed = (case sv_embedding sv of None \<Rightarrow> (\<lambda>_. Inl Se_attribute) | Some e \<Rightarrow> em_embed e),
      ag_reranker = (case sv_reranker sv of None \<Rightarrow> (\<lambda>_ _ _. Inl Se_attribute) | Some r \<Rightarrow> r),
      ag_llm = sv_llm sv\<rparr>"

section \<open>Component guards\<close>

definition feature_name :: "search_method \<Rightarrow> string \<Rightarrow> string" where
  "feature_name m owner_type = (case m of
     VECTOR \<Rightarrow> ''vector''
   | HYBRID \<Rightarrow> if owner_type = ''agent'' then ''agent_hybrid'' else ''user_hybrid''
   | AGENTIC \<Rightarrow> ''agentic_search''
   | KEYWORD \<Rightarrow> ''keyword'')"

definition validate_components :: "('l, 'k, 'v, 't) search_env \<Rightarrow> search_request \<Rightarrow> search_error + unit" where
  "validate_components sv q =
     (let m = sr_method q;
          no_embedding = (\<not> sv_embedding_available sv \<or> sv_embedding sv = None);
          no_rerank = (\<not> sv_rerank_available sv \<or> sv_reranker sv = None);
          feature = feature_name m (sr_owner_type q)
      in if m \<in> {VECTOR, HYBRID, AGENTIC} \<and> no_embedding then Inl (Se_provider ''embedding'' feature)
         else if m = HYBRID \<and> sr_owner_type q = ''agent'' \<and> \<not> sr_enable_llm_rerank q \<and> no_rerank
              then Inl (Se_provider ''rerank'' ''agent_hybrid'')
         else if m = AGENTIC \<and> no_rerank then Inl (Se_provider ''rerank'' ''agentic_search'')
         else if m = HYBRID \<and> sr_enable_llm_rerank q \<and> sv_llm sv = None then Inl (Se_provider ''llm'' feature)
         else if m = AGENTIC \<and> sv_llm sv = None then Inl (Se_provider ''llm'' feature)
         else Inr ())"

section \<open>Recall helpers\<close>

type_synonym sparse_leg = "string \<Rightarrow> string \<Rightarrow> nat \<Rightarrow> search_error + cand list"
type_synonym dense_leg = "vec \<Rightarrow> string \<Rightarrow> nat \<Rightarrow> search_error + cand list"

definition single_route_recall ::
  "('l, 'k, 'v, 't) search_env \<Rightarrow> sparse_leg \<Rightarrow> dense_leg \<Rightarrow> search_request \<Rightarrow> string \<Rightarrow> nat \<Rightarrow> search_error + cand list" where
  "single_route_recall sv sparse_recall dense_recall q w cap =
     (if sr_method q = KEYWORD then sparse_recall (sr_query q) w (recall_limit (sr_top_k q) cap)
      else bind_result (embed_query (sv_embedding sv) (sr_query q)) (\<lambda>vector.
           bind_result (dense_recall vector w (recall_limit (sr_top_k q) cap)) (\<lambda>cs.
             Inr (apply_radius cs (effective_radius q)))))"

definition recall_sparse_dense ::
  "('l, 'k, 'v, 't) search_env \<Rightarrow> sparse_leg \<Rightarrow> dense_leg \<Rightarrow> search_request \<Rightarrow> string \<Rightarrow> nat \<Rightarrow>
   search_error + cand list \<times> cand list \<times> vec" where
  "recall_sparse_dense sv sparse_recall dense_recall q w cap =
     (let limit = recall_limit (sr_top_k q) cap
      in bind_result (embed_query (sv_embedding sv) (sr_query q)) (\<lambda>vector.
         bind_result (sparse_recall (sr_query q) w limit) (\<lambda>sparse.
         bind_result (if vector \<noteq> [] then dense_recall vector w limit else Inr []) (\<lambda>dense.
           Inr (sparse, apply_radius dense (effective_radius q), vector)))))"

text \<open>The best score of the fs of each episode, in the order the episodes were first met.\<close>

definition max_pool :: "cand list \<Rightarrow> (string \<times> rat) list" where
  "max_pool fs = fold (\<lambda>f d.
     case str_col (c_meta f) ''parent_id'' of
       None \<Rightarrow> d
     | Some p \<Rightarrow>
         if p = [] then d
         else if (case map_of d p of None \<Rightarrow> -1 | Some s \<Rightarrow> s) < c_score f then AList.update p (c_score f) d
         else d) fs []"

definition rescore :: "(string \<times> rat) list \<Rightarrow> cand \<Rightarrow> cand" where
  "rescore scores c = c\<lparr>c_source := ''vector'', c_score :=
     (case str_col (c_meta c) ''entry_id'' of
        None \<Rightarrow> 0
      | Some eid \<Rightarrow> (case map_of scores eid of None \<Rightarrow> 0 | Some s \<Rightarrow> s))\<rparr>"

definition maxsim_atomic_recall ::
  "('l, 'k, 'v, 't) search_env \<Rightarrow> search_request \<Rightarrow> string \<Rightarrow> nat \<Rightarrow> search_error + cand list" where
  "maxsim_atomic_recall sv q w top_k =
     bind_result (embed_query (sv_embedding sv) (sr_query q)) (\<lambda>vector.
       if vector = [] then Inr []
       else bind_result (fact_dense_recall (sv_fact sv) vector w
                           (min (top_k * MAXSIM_FACT_MULTIPLIER) MAXSIM_FACT_POOL_CAP)) (\<lambda>fs.
         let ranked = take top_k (sort_desc snd (max_pool fs))
         in if max_pool fs = [] then Inr []
            else bind_result (fetch_by_entry_ids (sv_episode sv) (map fst ranked) w) (\<lambda>eps.
              Inr (apply_radius (sort_desc c_score (map (rescore ranked) eps)) (effective_radius q)))))"

definition source_ids :: "lrow \<Rightarrow> string list" where
  "source_ids md = as_str_list (map_of md ''source_case_ids'')"

text \<open>\<open>max(..., default=0.0)\<close> over the source cases that were found.\<close>

definition bridge_score :: "(string \<times> rat) list \<Rightarrow> cand \<Rightarrow> rat" where
  "bridge_score case_score sc =
     max_score (somes (map (map_of case_score) (source_ids (c_meta sc))))"

definition case_bridged_skills ::
  "('l, 'k, 'v, 't) search_env \<Rightarrow> (string \<times> rat) list \<Rightarrow> string \<Rightarrow> nat \<Rightarrow> search_error + cand list" where
  "case_bridged_skills sv bridge_cases w top_k =
     (if bridge_cases = [] then Inr []
      else let case_score = dict_of fst snd bridge_cases
           in bind_result (fetch_by_case_ids (sv_skill sv) (map fst case_score) w (max top_k (length case_score * 4)))
                (\<lambda>skills. Inr (map (\<lambda>sc. sc\<lparr>c_score := bridge_score case_score sc, c_source := ''vector''\<rparr>) skills)))"

definition merge_by_id_max :: "cand list \<Rightarrow> cand list \<Rightarrow> cand list" where
  "merge_by_id_max primary extra =
     map snd (fold (\<lambda>c d. case map_of d (c_id c) of
         None \<Rightarrow> AList.update (c_id c) c d
       | Some existing \<Rightarrow> if c_score existing < c_score c then AList.update (c_id c) c d else d)
       extra (dict_of c_id id primary))"

definition scored_as_candidate :: "scored_item \<Rightarrow> cand" where
  "scored_as_candidate s = \<lparr>c_id = si_id s, c_score = si_score s, c_source = ''other'', c_meta = si_meta s\<rparr>"

section \<open>Episodes\<close>

definition shape_episodes :: "cand list \<Rightarrow> search_error + episode_item list" where
  "shape_episodes cs =
     bind_result (collect (\<lambda>c. shape_episode_from_candidate c []) cs) (\<lambda>xs. Inr (somes xs))"

definition hybrid_episodes ::
  "('l, 'k, 'v, 't) search_env \<Rightarrow> search_request \<Rightarrow> string \<Rightarrow> nat \<Rightarrow> cand list \<Rightarrow> cand list \<Rightarrow> vec \<Rightarrow>
   search_error + episode_item list" where
  "hybrid_episodes sv q w top_k sparse dense vector =
     (let fu = rl_fusion (sv_lib sv);
          parents = build_ep_to_fact_parents (fu_rrf fu sparse dense None)
      in bind_result (facts_for_episodes (sv_fact sv) parents w (max (top_k * 2) 20) vector) (\<lambda>fs.
         bind_result (reshape_hybrid_output (production_heap_expand fu sparse dense fs top_k)
                        (dict_of c_id id (sparse @ dense))) (\<lambda>shaped.
           Inr (case sr_min_score q of None \<Rightarrow> shaped | Some m \<Rightarrow> filter (\<lambda>s. m \<le> xe_score s) shaped))))"

text \<open>The selector never names another fusion for episodes, so the fallback to \<open>arank\<close> is dead.\<close>

definition search_episodes ::
  "('l, 'k, 'v, 't) search_env \<Rightarrow> search_request \<Rightarrow> string \<Rightarrow> search_error + episode_item list" where
  "search_episodes sv q w =
     (let top_k = resolve_top_k (sr_top_k q) TOP_K_CAP
      in if sr_method q = AGENTIC
         then search_episodes_agentic (agentic_env_of sv) (sv_episode sv) (sv_fact sv)
                (sv_clusters sv (sr_owner_id q) (sr_app_id q) (sr_project_id q)) (sr_query q) w top_k
         else bind_result (resolve_pipeline (sr_method q) Kind_episode) (\<lambda>mode.
           if mode = None
           then bind_result
                  (if sr_method q = KEYWORD
                   then episode_sparse_recall (sv_tokenize sv) (sv_episode sv) (sr_query q) w
                          (recall_limit (sr_top_k q) TOP_K_CAP)
                   else maxsim_atomic_recall sv q w top_k)
                  (\<lambda>cs. shape_episodes (take top_k cs))
           else bind_result
                  (recall_sparse_dense sv (episode_sparse_recall (sv_tokenize sv) (sv_episode sv))
                     (episode_dense_recall (sv_episode sv)) q w TOP_K_CAP)
                  (\<lambda>(sparse, dense, vector). hybrid_episodes sv q w top_k sparse dense vector)))"

section \<open>Agent cases and skills\<close>

definition search_agent_cases ::
  "('l, 'k, 'v, 't) search_env \<Rightarrow> search_request \<Rightarrow> string \<Rightarrow> search_error + agent_case_item list" where
  "search_agent_cases sv q w =
     (let sparse_recall = case_sparse_recall (sv_tokenize sv) (sv_case sv);
          dense_recall = case_dense_recall (sv_case sv);
          top_k = resolve_top_k (sr_top_k q) AGENT_TOP_K_CAP
      in if sr_method q = AGENTIC
         then search_agent_cases_agentic (agentic_env_of sv) (sv_case sv) (sr_query q) w
                (resolve_top_k (sr_top_k q) TOP_K_CAP)
         else bind_result (resolve_pipeline (sr_method q) Kind_agent_case) (\<lambda>mode.
           case mode of
             None \<Rightarrow>
               bind_result (single_route_recall sv sparse_recall dense_recall q w AGENT_TOP_K_CAP)
                 (\<lambda>cs. Inr (somes (map shape_agent_case_from_candidate (take top_k cs))))
           | Some fusion_mode \<Rightarrow>
               bind_result (recall_sparse_dense sv sparse_recall dense_recall q w AGENT_TOP_K_CAP)
                 (\<lambda>(sparse, dense, _).
                    bind_result
                      (rl_arank (sv_lib sv)
                         \<lparr>ri_query = sr_query q, ri_memory_type = ''case'', ri_sparse = sparse, ri_dense = dense,
                          ri_top_k = top_k, ri_radius = effective_radius q\<rparr>
                         (Some fusion_mode) (sv_llm sv) (effective_llm_rerank q) top_k)
                      (\<lambda>out. Inr (somes (map (shape_agent_case_from_candidate \<circ> scored_as_candidate) out))))))"

definition search_agent_skills ::
  "('l, 'k, 'v, 't) search_env \<Rightarrow> search_request \<Rightarrow> string \<Rightarrow> (string \<times> rat) list \<Rightarrow> search_error + agent_skill_item list" where
  "search_agent_skills sv q w bridge_cases =
     (let sparse_recall = skill_sparse_recall (sv_tokenize sv) (sv_skill sv);
          dense_recall = skill_dense_recall (sv_skill sv);
          top_k = resolve_top_k (sr_top_k q) AGENT_TOP_K_CAP
      in if sr_method q = AGENTIC
         then search_agent_skills_agentic (agentic_env_of sv) (sv_skill sv) (sr_query q) w top_k
         else bind_result (resolve_pipeline (sr_method q) Kind_agent_skill) (\<lambda>mode.
           if mode = None
           then bind_result (single_route_recall sv sparse_recall dense_recall q w AGENT_TOP_K_CAP)
                  (\<lambda>cs. Inr (somes (map shape_agent_skill_from_candidate (take top_k cs))))
           else bind_result (recall_sparse_dense sv sparse_recall dense_recall q w AGENT_TOP_K_CAP)
             (\<lambda>(sparse, dense0, _).
                bind_result (case_bridged_skills sv bridge_cases w top_k) (\<lambda>bridged.
                  let dense = merge_by_id_max dense0 bridged
                  in if effective_llm_rerank q
                     then bind_result
                            (rl_arank (sv_lib sv)
                               \<lparr>ri_query = sr_query q, ri_memory_type = ''skill'', ri_sparse = sparse, ri_dense = dense,
                                ri_top_k = top_k, ri_radius = effective_radius q\<rparr>
                               None (sv_llm sv) True top_k)
                            (\<lambda>out. Inr (somes (map (shape_agent_skill_from_candidate \<circ> scored_as_candidate) out)))
                     else search_agent_skills_hybrid (sv_show sv) (rl_fusion (sv_lib sv))
                            (case sv_reranker sv of None \<Rightarrow> (\<lambda>_ _ _. Inl Se_attribute) | Some r \<Rightarrow> r)
                            (sr_query q) sparse dense top_k))))"

definition search_cases_and_skills ::
  "('l, 'k, 'v, 't) search_env \<Rightarrow> search_request \<Rightarrow> string \<Rightarrow> search_error + agent_case_item list \<times> agent_skill_item list" where
  "search_cases_and_skills sv q w =
     bind_result (search_agent_cases sv q w) (\<lambda>cases.
     bind_result (search_agent_skills sv q w
                    (if effective_llm_rerank q then map (\<lambda>c. (xc_id c, xc_score c)) cases else []))
       (\<lambda>skills. Inr (cases, skills)))"

section \<open>The unprocessed buffer\<close>

definition extract_top_level_session_id :: "filter_node option \<Rightarrow> string option" where
  "extract_top_level_session_id f =
     (case f of
        None \<Rightarrow> None
      | Some n \<Rightarrow> (case map_of (dumped (node_fields n)) ''session_id'' of
          Some (JStr s) \<Rightarrow> if s = [] then None else Some s
        | _ \<Rightarrow> None))"

record unprocessed_message =
  um_id :: string
  um_app :: string
  um_project :: string
  um_session :: string
  um_sender :: string
  um_sender_name :: "string option"
  um_role :: role
  um_content :: "string + content_item list"
  um_timestamp :: time
  um_tool_calls :: "tool_call list option"
  um_tool_call_id :: "string option"

definition shorthand :: "content_item list \<Rightarrow> string + content_item list" where
  "shorthand cs = (case cs of
     [c] \<Rightarrow> (case ci_text c of Some t \<Rightarrow> if ci_type c = ''text'' then Inl t else Inr cs | None \<Rightarrow> Inr cs)
   | _ \<Rightarrow> Inr cs)"

definition unprocessed_buffer_to_dto :: "buffer_row \<Rightarrow> unprocessed_message" where
  "unprocessed_buffer_to_dto b =
     (let m = bu_message b
      in \<lparr>um_id = m_id m, um_app = bu_app b, um_project = bu_project b, um_session = m_session m,
          um_sender = m_sender m, um_sender_name = m_sender_name m, um_role = m_role m,
          um_content = shorthand (m_content m), um_timestamp = m_timestamp m,
          um_tool_calls = m_tool_calls m, um_tool_call_id = m_tool_call_id m\<rparr>)"

definition load_unprocessed :: "('l, 'k, 'v, 't) search_env \<Rightarrow> search_request \<Rightarrow> unprocessed_message list" where
  "load_unprocessed sv q =
     (case extract_top_level_session_id (sr_filters q) of
        None \<Rightarrow> []
      | Some sid \<Rightarrow> map unprocessed_buffer_to_dto
          (list_for_track (sr_app_id q, sr_project_id q, sid) (sv_buffer sv)))"

section \<open>The search\<close>

record search_data =
  sd_episodes :: "episode_item list"
  sd_profiles :: "get_profile_item list"
  sd_agent_cases :: "agent_case_item list"
  sd_agent_skills :: "agent_skill_item list"
  sd_unprocessed :: "unprocessed_message list"

definition search_profile ::
  "('l, 'k, 'v, 't) search_env \<Rightarrow> search_request \<Rightarrow> search_error + get_profile_item list" where
  "search_profile sv q =
     (if \<not> sr_include_profile q \<or> sr_owner_type q \<noteq> ''user'' then Inr []
      else case fetch_profile (sv_profile sv) (sr_owner_id q) of
             Inl _ \<Rightarrow> Inl (Se_store ''profile'') | Inr ps \<Rightarrow> Inr ps)"

definition search_memory :: "('l, 'k, 'v, 't) search_env \<Rightarrow> search_request \<Rightarrow> search_error + search_data" where
  "search_memory sv q =
     (case compile_filters (sv_iso sv) (sr_filters q) (sr_owner_id q) (sr_owner_type q) (sr_app_id q) (sr_project_id q) of
        Inl e \<Rightarrow> Inl (Se_filter e)
      | Inr w \<Rightarrow>
          bind_result (validate_components sv q) (\<lambda>_.
            if sr_owner_type q = ''user''
            then bind_result (search_episodes sv q w) (\<lambda>episodes.
                 bind_result (search_profile sv q) (\<lambda>profiles.
                   Inr \<lparr>sd_episodes = episodes, sd_profiles = profiles, sd_agent_cases = [], sd_agent_skills = [],
                        sd_unprocessed = load_unprocessed sv q\<rparr>))
            else bind_result (search_cases_and_skills sv q w) (\<lambda>(cases, skills).
                   Inr \<lparr>sd_episodes = [], sd_profiles = [], sd_agent_cases = cases, sd_agent_skills = skills,
                        sd_unprocessed = load_unprocessed sv q\<rparr>)))"

definition handle_search :: "('l, 'k, 'v, 't) search_env \<Rightarrow> search_request \<Rightarrow> search_error + search_data" where
  "handle_search sv q = bind_result (validate_search q) (search_memory sv)"

definition top_score :: "search_data \<Rightarrow> rat" where
  "top_score d = max_score (map xe_score (sd_episodes d) @ map xc_score (sd_agent_cases d)
     @ map xs_score (sd_agent_skills d))"

definition recall_hit :: "rat \<Rightarrow> search_request \<Rightarrow> search_data \<Rightarrow> bool option" where
  "recall_hit threshold q d =
     (if sr_method q \<in> {HYBRID, AGENTIC} then Some (threshold \<le> top_score d) else None)"

end
