(* ===== verification/Search_Scope.thy ===== *)
theory Search_Scope
  imports Search_Manager
begin

text \<open>
  Nothing leaves the owner's space: every leg of a search asks the store with a text that keeps
  the partition pins, and neither the ranking package nor the shaping invents a row. What the
  store promises of a query is the locale \<open>recall_store\<close>; what the ranking package promises is
  \<open>lib_promises\<close>.
\<close>

section \<open>Rows of a space\<close>

definition in_space4 :: "string \<Rightarrow> string \<Rightarrow> string \<Rightarrow> string \<Rightarrow> lrow \<Rightarrow> bool" where
  "in_space4 oid ot app proj md \<longleftrightarrow>
     str_col md ''owner_id'' = Some oid \<and> str_col md ''owner_type'' = Some ot \<and>
     str_col md ''app_id'' = Some app \<and> str_col md ''project_id'' = Some proj"

definition pin_keys :: "string set" where
  "pin_keys = {''owner_id'', ''owner_type'', ''app_id'', ''project_id''}"

lemma str_col_filter:
  "(\<And>v. P (k, v)) \<Longrightarrow> str_col (filter P md) k = str_col md k"
proof -
  assume P: "\<And>v. P (k, v)"
  have "map_of (filter P md) k = map_of md k" by (induction md) (auto simp: P)
  then show ?thesis by (simp add: str_col_def)
qed

lemma str_col_update: "k \<noteq> j \<Longrightarrow> str_col (AList.update k v md) j = str_col md j"
  by (simp add: str_col_def update_conv')

lemma str_col_delete: "k \<noteq> j \<Longrightarrow> str_col (AList.delete k md) j = str_col md j"
  by (simp add: str_col_def delete_conv')

lemma in_space4_noise [simp]:
  "in_space4 oid ot app proj (filter (\<lambda>(k, v). k \<notin> set NOISE_COLUMNS \<and> k \<noteq> ''id'') md) = in_space4 oid ot app proj md"
  by (simp add: in_space4_def str_col_filter NOISE_COLUMNS_def)

lemma in_space4_fact_noise [simp]:
  "in_space4 oid ot app proj (filter (\<lambda>(k, v). k \<notin> set FACT_NOISE_COLUMNS \<and> k \<noteq> ''id'') md) = in_space4 oid ot app proj md"
  by (simp add: in_space4_def str_col_filter FACT_NOISE_COLUMNS_def)

lemma in_space4_update: "k \<notin> pin_keys \<Longrightarrow> in_space4 oid ot app proj (AList.update k v md) = in_space4 oid ot app proj md"
  by (auto simp: in_space4_def pin_keys_def str_col_update)

lemma in_space4_delete: "k \<notin> pin_keys \<Longrightarrow> in_space4 oid ot app proj (AList.delete k md) = in_space4 oid ot app proj md"
  by (auto simp: in_space4_def pin_keys_def str_col_delete)

lemma meta_space_in: "in_space4 oid ot app proj md \<Longrightarrow>
  meta_space md = (Some oid, space_or_default app, space_or_default proj)"
  by (simp add: in_space4_def meta_space_def as_str_def)

section \<open>What the store promises of a recall query\<close>

text \<open>
  \<open>matches\<close> is the store's reading of a \<open>where\<close> text. A conjunction of two texts in parentheses
  selects rows both texts select, and a text that starts with the four pins selects rows that
  have the pinned values.
\<close>

definition reads_where :: "(string \<Rightarrow> lrow \<Rightarrow> bool) \<Rightarrow> bool" where
  "reads_where matches \<longleftrightarrow>
     (\<forall>w c r. erase 0 False w \<noteq> None \<and> erase 0 False c \<noteq> None \<and> matches (''('' @ w @ '') AND ('' @ c @ '')'') r
        \<longrightarrow> matches w r) \<and>
     (\<forall>w r oid ot app proj atoms.
        read_pins pin_columns w = Some [oid, ot, app, proj] \<and> set atoms \<subseteq> atom_texts \<and>
        erase 0 False w = Some (join '' AND '' (pin_atoms ot @ atoms)) \<and> matches w r
        \<longrightarrow> in_space4 oid ot app proj r)"

locale recall_store =
  fixes tb :: recall_table and matches :: "string \<Rightarrow> lrow \<Rightarrow> bool"
  assumes text_rows: "rt_text tb fq w n = Inr rows \<Longrightarrow> r \<in> set rows \<Longrightarrow> matches w r"
    and near_rows: "rt_near tb col v w n = Inr rows \<Longrightarrow> r \<in> set rows \<Longrightarrow> matches w r"
    and scan_rows: "rt_scan tb w m = Inr rows \<Longrightarrow> r \<in> set rows \<Longrightarrow> matches w r"
    and where_read: "reads_where matches"
begin

lemma narrowed:
  assumes "erase 0 False w \<noteq> None" and "erase 0 False c \<noteq> None"
    and "rt_scan tb (''('' @ w @ '') AND ('' @ c @ '')'') m = Inr rows \<or>
         rt_near tb col v (''('' @ w @ '') AND ('' @ c @ '')'') n = Inr rows" and "r \<in> set rows"
  shows "matches w r"
proof -
  have "matches (''('' @ w @ '') AND ('' @ c @ '')'') r" using assms(3,4) scan_rows near_rows by blast
  then show ?thesis using where_read assms(1,2) unfolding reads_where_def by blast
qed

end

definition table_promises :: "recall_table \<Rightarrow> bool" where
  "table_promises tb \<longleftrightarrow> (\<exists>matches. recall_store tb matches)"

text \<open>The in-memory table: rows that match, in a given order of relevance.\<close>

definition list_recall_table :: "(string \<Rightarrow> lrow \<Rightarrow> bool) \<Rightarrow> lrow list \<Rightarrow> recall_table" where
  "list_recall_table matches rows =
     \<lparr>rt_text = (\<lambda>_ w n. Inr (take n (filter (matches w) rows))),
      rt_near = (\<lambda>_ _ w n. Inr (take n (filter (matches w) rows))),
      rt_scan = (\<lambda>w m. Inr (case m of None \<Rightarrow> filter (matches w) rows
                            | Some n \<Rightarrow> take n (filter (matches w) rows)))\<rparr>"

text \<open>A reader of \<open>where\<close> texts that looks at the pins only, also at those of a left conjunct.\<close>

definition left_conjuncts :: "string \<Rightarrow> string list" where
  "left_conjuncts w = map (\<lambda>n. take n (tl w))
     (filter (\<lambda>n. take 1 w = ''('' \<and> take 7 (drop n (tl w)) = '') AND ('') [0..<length w])"

definition pins_hold :: "string \<Rightarrow> lrow \<Rightarrow> bool" where
  "pins_hold w r \<longleftrightarrow> (case read_pins pin_columns w of
     Some [oid, ot, app, proj] \<Rightarrow> in_space4 oid ot app proj r | _ \<Rightarrow> True)"

function pin_matches :: "string \<Rightarrow> lrow \<Rightarrow> bool" where
  "pin_matches w r \<longleftrightarrow> pins_hold w r \<and> list_all (\<lambda>w'. pin_matches w' r) (left_conjuncts w)"
  by pat_completeness auto
termination
  by (relation "measure (\<lambda>(w, _). length w)") (auto simp: left_conjuncts_def)

declare pin_matches.simps [simp del]

lemma pin_matches_read: "reads_where pin_matches"
  unfolding reads_where_def
proof (intro conjI allI impI)
  fix w c r assume m: "erase 0 False w \<noteq> None \<and> erase 0 False c \<noteq> None \<and> pin_matches (''('' @ w @ '') AND ('' @ c @ '')'') r"
  have "w \<in> set (left_conjuncts (''('' @ w @ '') AND ('' @ c @ '')''))"
    by (auto simp: left_conjuncts_def intro!: image_eqI [of _ _ "length w"])
  with m show "pin_matches w r" by (subst (asm) pin_matches.simps) (auto simp: list_all_iff)
next
  fix w r oid ot app proj and atoms :: "string list"
  assume "read_pins pin_columns w = Some [oid, ot, app, proj] \<and> set atoms \<subseteq> atom_texts \<and>
    erase 0 False w = Some (join '' AND '' (pin_atoms ot @ atoms)) \<and> pin_matches w r"
  then have "read_pins pin_columns w = Some [oid, ot, app, proj]" and "pins_hold w r"
    by (simp_all add: pin_matches.simps [of w])
  then show "in_space4 oid ot app proj r" by (simp add: pins_hold_def)
qed

interpretation list_recall: recall_store "list_recall_table pin_matches rows" pin_matches
  for rows
proof
  show "reads_where pin_matches" by (rule pin_matches_read)
qed (auto simp: list_recall_table_def dest: in_set_takeD split: option.splits)

lemma list_recall_promises: "table_promises (list_recall_table pin_matches rows)"
  unfolding table_promises_def by (rule exI) (rule list_recall.recall_store_axioms)

section \<open>The texts the legs add\<close>

lemma quoted_list_balanced:
  "balanced (''('' @ join '', '' (map (\<lambda>i. quoted (escape_str i)) ids) @ '')'') []"
proof -
  have "\<forall>x\<in>set (map (\<lambda>i. quoted (escape_str i)) ids). \<exists>out. balanced x out"
    by (auto intro: exI [where x = "[]"])
  from balanced_join_ex [OF this, of "'', ''"] obtain out where
    "balanced (join '', '' (map (\<lambda>i. quoted (escape_str i)) ids)) out" by auto
  then show ?thesis by (rule balanced_paren)
qed

lemma plain_prefixes [simp]: "plain ''entry_id IN ''" "plain ''parent_id IN ''" "plain ''array_has''"
  by (simp_all add: plain_def)

lemma conjunct:
  assumes "balanced c out" and "t = ''('' @ w @ '') AND ('' @ c @ '')''"
  shows "\<exists>c. t = ''('' @ w @ '') AND ('' @ c @ '')'' \<and> erase 0 False c \<noteq> None"
  using assms(2) balanced_erase [OF assms(1)] by (intro exI [of _ c]) simp

lemma in_list_balanced:
  "plain k \<Longrightarrow> balanced (k @ ''('' @ join '', '' (map (\<lambda>i. quoted (escape_str i)) ids) @ '')'') (k @ [])"
  by (rule balanced_append [OF balanced_plain quoted_list_balanced])

lemma entry_ids_where_conj:
  "\<exists>c. entry_ids_where ids w = ''('' @ w @ '') AND ('' @ c @ '')'' \<and> erase 0 False c \<noteq> None"
  by (rule conjunct [OF in_list_balanced [of "''entry_id IN ''" ids]]) (simp_all add: entry_ids_where_def)

lemma parents_where_conj:
  "\<exists>c. parents_where ids w = ''('' @ w @ '') AND ('' @ c @ '')'' \<and> erase 0 False c \<noteq> None"
  by (rule conjunct [OF in_list_balanced [of "''parent_id IN ''" ids]]) (simp_all add: parents_where_def)

lemma case_ids_where_conj:
  "\<exists>c. case_ids_where ids w = ''('' @ w @ '') AND ('' @ c @ '')'' \<and> erase 0 False c \<noteq> None"
proof -
  let ?has = "\<lambda>c. ''array_has(source_case_ids, '' @ quoted (escape_str c) @ '')''"
  have "balanced (?has c) ''array_has''" for c
  proof -
    have "balanced (''source_case_ids, '' @ quoted (escape_str c)) (''source_case_ids, '' @ [])"
      by (rule balanced_append [OF balanced_plain]) (simp_all add: plain_def)
    from balanced_append [OF balanced_plain [of "''array_has''"] balanced_paren [OF this]] show ?thesis by simp
  qed
  then have "\<forall>x\<in>set (map ?has ids). \<exists>out. balanced x out" by auto
  from balanced_join_ex [OF this, of "'' OR ''"] obtain out where "balanced (join '' OR '' (map ?has ids)) out" by auto
  then have "erase 0 False (join '' OR '' (map ?has ids)) \<noteq> None" by (simp add: balanced_erase)
  then show ?thesis by (intro exI [of _ "join '' OR '' (map ?has ids)"]) (simp add: case_ids_where_def)
qed

section \<open>Rows of the legs\<close>

lemma collect_mem: "collect f xs = Inr ys \<Longrightarrow> y \<in> set ys \<Longrightarrow> \<exists>x\<in>set xs. f x = Inr y"
  unfolding collect_Inr by (rule list_all2_right)

lemma row_to_candidate_in:
  "row_to_candidate r src x = Inr c \<Longrightarrow> in_space4 oid ot app proj r \<Longrightarrow> in_space4 oid ot app proj (c_meta c)"
  by (auto simp: row_to_candidate_def split: option.splits)

lemma candidate_in:
  "keyword_candidate r = Inr c \<Longrightarrow> in_space4 oid ot app proj r \<Longrightarrow> in_space4 oid ot app proj (c_meta c)"
  "vector_candidate r = Inr c \<Longrightarrow> in_space4 oid ot app proj r \<Longrightarrow> in_space4 oid ot app proj (c_meta c)"
  "unscored_candidate r = Inr c \<Longrightarrow> in_space4 oid ot app proj r \<Longrightarrow> in_space4 oid ot app proj (c_meta c)"
  by (auto simp: keyword_candidate_def vector_candidate_def unscored_candidate_def dest: row_to_candidate_in
      split: sum.splits)

lemma score_update_in: "in_space4 oid ot app proj r \<Longrightarrow> in_space4 oid ot app proj (AList.update ''_score'' v r)"
  by (simp add: in_space4_update pin_keys_def)

lemma merge_rows_in:
  "merge_rows rs best = Inr best' \<Longrightarrow> (\<forall>r\<in>set rs. in_space4 oid ot app proj r) \<Longrightarrow>
   (\<forall>kv\<in>set best. in_space4 oid ot app proj (snd kv)) \<Longrightarrow> (\<forall>kv\<in>set best'. in_space4 oid ot app proj (snd kv))"
proof (induction rs arbitrary: best)
  case (Cons r rs)
  have r: "in_space4 oid ot app proj (AList.update ''_score'' v r)" for v using Cons.prems(2) by (simp add: score_update_in)
  have upd: "\<forall>kv\<in>set (AList.update k (AList.update ''_score'' v r) best). in_space4 oid ot app proj (snd kv)" for k v
  proof
    fix kv assume "kv \<in> set (AList.update k (AList.update ''_score'' v r) best)"
    then have "kv = (k, AList.update ''_score'' v r) \<or> kv \<in> set best" using set_update_sub by fastforce
    with r Cons.prems(3) show "in_space4 oid ot app proj (snd kv)" by auto
  qed
  have rs: "\<forall>r\<in>set rs. in_space4 oid ot app proj r" using Cons.prems(2) by simp
  consider "merge_rows rs best = Inr best'"
    | k v where "merge_rows rs (AList.update k (AList.update ''_score'' v r) best) = Inr best'"
    using Cons.prems(1) by (simp add: Let_def split: option.splits sum.splits if_splits)
  then show ?case
  proof cases
    case 1
    from Cons.IH [OF this rs Cons.prems(3)] show ?thesis .
  next
    case 2
    from Cons.IH [OF this rs upd] show ?thesis .
  qed
qed simp

lemma merge_bm25_results_in:
  assumes "merge_bm25_results rows n = Inr out" and "\<forall>rs\<in>set rows. \<forall>r\<in>set rs. in_space4 oid ot app proj r" and "r \<in> set out"
  shows "in_space4 oid ot app proj r"
proof -
  obtain best where b: "merge_rows (concat rows) [] = Inr best" and out: "out = take n (sort_desc row_score (map snd best))"
    using assms(1) by (auto simp: merge_bm25_results_def split: sum.splits)
  have "r \<in> snd ` set best" using assms(3) by (auto simp: out dest: in_set_takeD)
  with merge_rows_in [OF b] assms(2) show ?thesis by fastforce
qed

text \<open>A text that pins a space, and the rows a store returns for it.\<close>

definition all_within :: "(lrow \<Rightarrow> bool) \<Rightarrow> cand list \<Rightarrow> bool" where
  "all_within S cs \<longleftrightarrow> (\<forall>c\<in>set cs. S (c_meta c))"

locale pinned_recall = recall_store tb matches for tb matches +
  fixes w oid ot app proj
  assumes closed: "erase 0 False w \<noteq> None"
    and pinned: "matches w r \<Longrightarrow> in_space4 oid ot app proj r"
begin

abbreviation "S \<equiv> in_space4 oid ot app proj"

lemma collected:
  assumes "collect f rows = Inr cs" and "\<And>r c. f r = Inr c \<Longrightarrow> S r \<Longrightarrow> S (c_meta c)" and "\<forall>r\<in>set rows. S r"
  shows "all_within S cs"
  using collect_mem [OF assms(1)] assms(2,3) by (force simp: all_within_def)

lemma text_leg_in: "text_leg col tok tb q w n = Inr cs \<Longrightarrow> all_within S cs"
  using collected [OF _ candidate_in(1)] text_rows pinned
  by (fastforce simp: text_leg_def all_within_def split: option.splits sum.splits)

lemma near_leg_in: "near_leg col tb v w n = Inr cs \<Longrightarrow> all_within S cs"
  using collected [OF _ candidate_in(2)] near_rows pinned
  by (fastforce simp: near_leg_def all_within_def split: if_splits sum.splits)

lemma columns_leg_in:
  assumes "columns_leg cols tok tb q w n = Inr cs"
  shows "all_within S cs"
proof (cases "build_or_query_multi_column tok q cols")
  case None
  with assms show ?thesis by (simp add: columns_leg_def all_within_def)
next
  case (Some qs)
  then obtain rows merged where r: "collect (\<lambda>q. rt_text tb q w n) (map snd qs) = Inr rows"
    "merge_bm25_results rows n = Inr merged" "collect keyword_candidate merged = Inr cs"
    using assms by (auto simp: columns_leg_def split: sum.splits)
  have "\<forall>rs\<in>set rows. \<forall>r\<in>set rs. S r" using collect_mem [OF r(1)] text_rows pinned by blast
  then have "\<forall>r\<in>set merged. S r" using merge_bm25_results_in [OF r(2)] by blast
  from collected [OF r(3) _ this] candidate_in(1) show ?thesis .
qed

lemma narrowed_in:
  assumes "\<exists>c. t = ''('' @ w @ '') AND ('' @ c @ '')'' \<and> erase 0 False c \<noteq> None"
    and "rt_scan tb t m = Inr rows \<or> rt_near tb col v t n = Inr rows"
  shows "\<forall>r\<in>set rows. S r"
  using narrowed [OF closed] assms pinned by blast

lemma fetch_by_entry_ids_in: "fetch_by_entry_ids tb ids w = Inr cs \<Longrightarrow> all_within S cs"
  using collected [OF _ candidate_in(3)] narrowed_in [OF entry_ids_where_conj]
  by (fastforce simp: fetch_by_entry_ids_def all_within_def split: if_splits sum.splits)

lemma fetch_by_case_ids_in: "fetch_by_case_ids tb ids w n = Inr cs \<Longrightarrow> all_within S cs"
  using collected [OF _ candidate_in(3)] narrowed_in [OF case_ids_where_conj]
  by (fastforce simp: fetch_by_case_ids_def all_within_def split: if_splits sum.splits)

lemma inject_parent_id_in: "all_within S cs \<Longrightarrow> all_within S (inject_parent_id cs)"
  by (auto simp: all_within_def inject_parent_id_def in_space4_update pin_keys_def)

lemma fetch_all_in:
  assumes "fetch_all_for_owner tb w = Inr cs"
  shows "all_within S cs"
proof -
  obtain rows css where r: "rt_scan tb w None = Inr rows" "collect rekey_by_entry rows = Inr css" "cs = concat css"
    using assms by (auto simp: fetch_all_for_owner_def split: sum.splits)
  have "all_within S x" if "rekey_by_entry r = Inr x" "S r" for r x
    using that candidate_in(3) [of r]
    by (auto simp: rekey_by_entry_def all_within_def in_space4_update pin_keys_def split: option.splits if_splits sum.splits)
  then have "\<forall>x\<in>set css. all_within S x" using collect_mem [OF r(2)] scan_rows [OF r(1)] pinned by blast
  then show ?thesis by (auto simp: r(3) all_within_def)
qed

end

section \<open>What the ranking package promises\<close>

text \<open>
  A closure law: whatever ids and metadata the functions it is given produce, its results have
  ids and metadata of these; only scores are its own.
\<close>

type_synonym tagset = "(string \<times> lrow) set"

definition drawn :: "tagset \<Rightarrow> cand list \<Rightarrow> bool" where
  "drawn T cs \<longleftrightarrow> (\<forall>c\<in>set cs. (c_id c, c_meta c) \<in> T)"

definition yields :: "tagset \<Rightarrow> retrieve_fn \<Rightarrow> bool" where
  "yields T f \<longleftrightarrow> (\<forall>q k cs. f q k = Inr cs \<longrightarrow> drawn T cs)"

definition reorders :: "tagset \<Rightarrow> rerank_fn \<Rightarrow> bool" where
  "reorders T f \<longleftrightarrow> (\<forall>q cs out. drawn T cs \<longrightarrow> f q cs = Inr out \<longrightarrow> drawn T out)"

locale ranking_package =
  fixes L :: "('l, 'k) rank_lib"
  assumes rrf_drawn: "drawn T xs \<Longrightarrow> drawn T ys \<Longrightarrow> drawn T (fu_rrf (rl_fusion L) xs ys rk)"
    and arank_drawn: "drawn T (ri_sparse inp) \<Longrightarrow> drawn T (ri_dense inp) \<Longrightarrow>
      rl_arank L inp m l e n = Inr out \<Longrightarrow> drawn T (map scored_as_candidate out)"
    and maxsim_drawn: "(\<And>ids ps. pf ids = Inr ps \<Longrightarrow> drawn T ps) \<Longrightarrow>
      rl_maxsim L q child pf n k = Inr cs \<Longrightarrow> drawn T cs"
    and hybrid_drawn: "yields T d \<Longrightarrow> yields T sp \<Longrightarrow> rl_hybrid L q d sp n x y z = Inr cs \<Longrightarrow> drawn T cs"
    and cluster_drawn: "yields T base \<Longrightarrow> drawn T docs \<Longrightarrow> rl_cluster L q base nc ks docs n = Inr cs \<Longrightarrow> drawn T cs"
    and agentic_drawn: "yields T base \<Longrightarrow> (\<And>f. r2 = Some f \<Longrightarrow> yields T f) \<Longrightarrow> reorders T rr \<Longrightarrow>
      rl_agentic L q base r2 lm rr ap = Inr cs \<Longrightarrow> drawn T cs"

text \<open>A small package that keeps the promises: union by id, and one round of retrieval and rerank.\<close>

definition union_by_id :: "cand list \<Rightarrow> cand list \<Rightarrow> cand list" where
  "union_by_id a b = map snd (dict_of c_id id (a @ b))"

definition simple_fusion :: fusion where
  "simple_fusion = \<lparr>fu_rrf = (\<lambda>a b _. sort_desc c_score (union_by_id a b)),
     fu_lr = union_by_id, fu_lr_score = (\<lambda>cosine bm25. cosine)\<rparr>"

definition as_scored :: "cand \<Rightarrow> scored_item" where
  "as_scored c = \<lparr>si_id = c_id c, si_score = c_score c, si_type = ''other'', si_meta = c_meta c, si_parent = None\<rparr>"

definition simple_lib :: "('l, 'k) rank_lib" where
  "simple_lib = \<lparr>rl_fusion = simple_fusion,
     rl_arank = (\<lambda>inp _ _ _ _. Inr (map as_scored (take (ri_top_k inp) (union_by_id (ri_sparse inp) (ri_dense inp))))),
     rl_maxsim = (\<lambda>q child pf n _. bind_result (child q n) (\<lambda>cs.
        bind_result (pf (somes (map (\<lambda>c. str_col (c_meta c) ''parent_id'') cs))) (\<lambda>ps. Inr (take n ps)))),
     rl_hybrid = (\<lambda>q d sp n x y _. bind_result (d q x) (\<lambda>a. bind_result (sp q y) (\<lambda>b. Inr (take n (union_by_id a b))))),
     rl_cluster = (\<lambda>q b _ _ _ n. b q n),
     rl_agentic = (\<lambda>q b _ _ rr ap. bind_result (b q (ap_round1_top_n ap)) (\<lambda>cs.
        bind_result (rr q cs) (\<lambda>out. Inr (take (ap_top_n ap) out))))\<rparr>"

lemma drawn_take: "drawn T cs \<Longrightarrow> drawn T (take n cs)"
  by (auto simp: drawn_def dest: in_set_takeD)

lemma drawn_union: "drawn T a \<Longrightarrow> drawn T b \<Longrightarrow> drawn T (union_by_id a b)"
  by (auto simp: drawn_def union_by_id_def dest!: dict_of_mem)

interpretation simple_ranking: ranking_package simple_lib
proof (unfold_locales, goal_cases)
  case (1 T a b k)
  then have "drawn T (union_by_id a b)" by (rule drawn_union)
  then show ?case by (simp add: simple_lib_def simple_fusion_def drawn_def)
next
  case (2 T inp m l e n out)
  then have "drawn T (take (ri_top_k inp) (union_by_id (ri_sparse inp) (ri_dense inp)))"
    by (intro drawn_take drawn_union)
  with 2(3) show ?case by (auto simp: simple_lib_def drawn_def as_scored_def scored_as_candidate_def)
next
  case (3 pf T q child n k cs)
  then show ?case by (auto simp: simple_lib_def intro!: drawn_take split: sum.splits)
next
  case (4 T d sp q n x y z cs)
  then show ?case by (auto simp: simple_lib_def yields_def intro!: drawn_take drawn_union split: sum.splits)
next
  case (5 T b docs q nc ks n cs)
  then show ?case by (auto simp: simple_lib_def yields_def)
next
  case (6 T b r2 rr q lm ap cs)
  then obtain xs out where "b q (ap_round1_top_n ap) = Inr xs" "rr q xs = Inr out" "cs = take (ap_top_n ap) out"
    by (auto simp: simple_lib_def split: sum.splits)
  with 6(1,3) show ?case unfolding yields_def reorders_def by (metis drawn_take)
qed

section \<open>The legs of one search\<close>

definition space_tags :: "string \<Rightarrow> string \<Rightarrow> string \<Rightarrow> string \<Rightarrow> tagset" where
  "space_tags oid ot app proj = {(i, m). in_space4 oid ot app proj m}"

lemma drawn_space: "drawn (space_tags oid ot app proj) cs \<longleftrightarrow> all_within (in_space4 oid ot app proj) cs"
  by (simp add: drawn_def all_within_def space_tags_def)

definition pinned_table :: "tagset \<Rightarrow> string \<Rightarrow> recall_table \<Rightarrow> bool" where
  "pinned_table T w tb \<longleftrightarrow>
     (\<exists>matches oid ot app proj. T = space_tags oid ot app proj \<and> pinned_recall tb matches w oid ot app proj)"

lemma compiled_pins_table:
  assumes "table_promises tb" and "quote_free isof" and "ot \<in> {''user'', ''agent''}"
    and "compile_filters isof node oid ot app proj = Inr w"
  shows "pinned_table (space_tags oid ot app proj) w tb"
proof -
  obtain matches where m: "recall_store tb matches" using assms(1) by (auto simp: table_promises_def)
  obtain atoms where a: "read_pins pin_columns w = Some [oid, ot, app, proj]" "set atoms \<subseteq> atom_texts"
    "erase 0 False w = Some (join '' AND '' (pin_atoms ot @ atoms))"
    using compiled_shape [OF assms(2-4)] by blast
  have "pinned_recall tb matches w oid ot app proj"
  proof (intro pinned_recall.intro pinned_recall_axioms.intro)
    show "matches w r \<Longrightarrow> in_space4 oid ot app proj r" for r
      using recall_store.where_read [OF m] a unfolding reads_where_def by blast
  qed (use m a in simp_all)
  then show ?thesis unfolding pinned_table_def by blast
qed

lemma legs_drawn:
  assumes "pinned_table T w tb"
  shows "text_leg col tok tb q w n = Inr cs \<Longrightarrow> drawn T cs"
    and "near_leg col tb v w n = Inr cs \<Longrightarrow> drawn T cs"
    and "columns_leg cols tok tb q w n = Inr cs \<Longrightarrow> drawn T cs"
    and "fetch_by_entry_ids tb ids w = Inr cs \<Longrightarrow> drawn T cs"
    and "fetch_by_case_ids tb ids w n = Inr cs \<Longrightarrow> drawn T cs"
    and "fetch_all_for_owner tb w = Inr cs \<Longrightarrow> drawn T cs"
    and "drawn T cs \<Longrightarrow> drawn T (inject_parent_id cs)"
proof -
  obtain matches oid ot app proj where T: "T = space_tags oid ot app proj"
    and p: "pinned_recall tb matches w oid ot app proj"
    using assms by (auto simp: pinned_table_def)
  note d = drawn_space [of oid ot app proj]
  show "text_leg col tok tb q w n = Inr cs \<Longrightarrow> drawn T cs" unfolding T d by (rule pinned_recall.text_leg_in [OF p])
  show "near_leg col tb v w n = Inr cs \<Longrightarrow> drawn T cs" unfolding T d by (rule pinned_recall.near_leg_in [OF p])
  show "columns_leg cols tok tb q w n = Inr cs \<Longrightarrow> drawn T cs" unfolding T d by (rule pinned_recall.columns_leg_in [OF p])
  show "fetch_by_entry_ids tb ids w = Inr cs \<Longrightarrow> drawn T cs" unfolding T d by (rule pinned_recall.fetch_by_entry_ids_in [OF p])
  show "fetch_by_case_ids tb ids w n = Inr cs \<Longrightarrow> drawn T cs" unfolding T d by (rule pinned_recall.fetch_by_case_ids_in [OF p])
  show "fetch_all_for_owner tb w = Inr cs \<Longrightarrow> drawn T cs" unfolding T d by (rule pinned_recall.fetch_all_in [OF p])
  show "drawn T cs \<Longrightarrow> drawn T (inject_parent_id cs)" unfolding T d by (rule pinned_recall.inject_parent_id_in [OF p])
qed

lemma retagged:
  assumes "pinned_table T w tb" and "drawn T cs"
    and "\<And>oid ot app proj md. in_space4 oid ot app proj md \<Longrightarrow> in_space4 oid ot app proj (f md)"
  shows "drawn T (map (\<lambda>c. c\<lparr>c_meta := f (c_meta c)\<rparr>) cs)"
  using assms by (auto simp: pinned_table_def drawn_def space_tags_def)

lemma doc_metadata_in:
  "in_space4 oid ot app proj (to_doc_metadata md) = in_space4 oid ot app proj md"
  "in_space4 oid ot app proj (agent_doc_metadata passage md) = in_space4 oid ot app proj md"
  by (auto simp: to_doc_metadata_def agent_doc_metadata_def in_space4_update pin_keys_def Let_def
      split: option.split colval.split json.split)

lemma restored_in:
  "restored_time md = Inr md' \<Longrightarrow> in_space4 oid ot app proj md' = in_space4 oid ot app proj md"
  "restore_shaper_metadata md = Inr md' \<Longrightarrow> in_space4 oid ot app proj md' = in_space4 oid ot app proj md"
  "agent_restore_metadata md = Inr md' \<Longrightarrow> in_space4 oid ot app proj md' = in_space4 oid ot app proj md"
proof -
  show time: "restored_time md = Inr md' \<Longrightarrow> in_space4 oid ot app proj md' = in_space4 oid ot app proj md" for md'
    by (auto simp: restored_time_def in_space4_update pin_keys_def split: option.splits sum.splits)
  show "restore_shaper_metadata md = Inr md' \<Longrightarrow> in_space4 oid ot app proj md' = in_space4 oid ot app proj md"
    using time by (auto simp: restore_shaper_metadata_def in_space4_update pin_keys_def
        split: sum.splits option.splits colval.splits json.splits)
  show "agent_restore_metadata md = Inr md' \<Longrightarrow> in_space4 oid ot app proj md' = in_space4 oid ot app proj md"
    using time by (auto simp: agent_restore_metadata_def in_space4_delete pin_keys_def split: sum.splits)
qed

lemma reranked_drawn: "drawn T items \<Longrightarrow> drawn T (reranked items results)"
  by (auto simp: drawn_def reranked_def split: if_splits)

lemma rerank_with_reorders: "reorders T (rerank_with provider passage instruction)"
  using reranked_drawn by (auto simp: reorders_def rerank_with_def drawn_def split: sum.splits)

lemma parent_fetch_drawn:
  assumes "pinned_table T w tb" and "parent_fetch tb w ids = Inr ps"
  shows "drawn T ps"
proof -
  obtain eps where e: "fetch_by_entry_ids tb ids w = Inr eps" and ps: "ps = concat (map (\<lambda>c.
         case str_col (c_meta c) ''entry_id'' of
           None \<Rightarrow> []
         | Some eid \<Rightarrow> [\<lparr>c_id = eid, c_score = 0, c_source = c_source c,
             c_meta = to_doc_metadata (AList.update ''episode_id'' (Plain (JStr (c_id c))) (c_meta c))\<rparr>]) eps)"
    using assms(2) by (auto simp: parent_fetch_def split: sum.splits)
  obtain oid ot app proj where T: "T = space_tags oid ot app proj" using assms(1) by (auto simp: pinned_table_def)
  have "drawn T eps" by (rule legs_drawn(4) [OF assms(1) e])
  then show ?thesis
    by (auto simp: ps T drawn_def space_tags_def doc_metadata_in in_space4_update pin_keys_def split: option.splits)
qed

lemma apply_radius_drawn: "drawn T cs \<Longrightarrow> drawn T (apply_radius cs r)"
  by (auto simp: apply_radius_def drawn_def split: option.split)

lemma single_route_drawn:
  assumes "\<And>a n cs. sp a w n = Inr cs \<Longrightarrow> drawn T cs" and "\<And>a n cs. dn a w n = Inr cs \<Longrightarrow> drawn T cs"
    and "single_route_recall sv sp dn q w cap = Inr cs"
  shows "drawn T cs"
  using assms(3) by (auto simp: single_route_recall_def intro: assms(1,2) apply_radius_drawn split: if_splits sum.splits)

lemma sparse_dense_drawn:
  assumes "\<And>a n cs. sp a w n = Inr cs \<Longrightarrow> drawn T cs" and "\<And>a n cs. dn a w n = Inr cs \<Longrightarrow> drawn T cs"
    and "recall_sparse_dense sv sp dn q w cap = Inr (sparse, dense, v)"
  shows "drawn T sparse \<and> drawn T dense"
proof -
  have "drawn T []" by (simp add: drawn_def)
  then show ?thesis
    using assms(3)
    by (auto simp: recall_sparse_dense_def Let_def intro: assms(1,2) apply_radius_drawn split: if_splits sum.splits)
qed

lemma maxsim_atomic_drawn:
  assumes "pinned_table T w (sv_episode sv)" and "maxsim_atomic_recall sv q w k = Inr cs"
  shows "drawn T cs"
proof -
  have r: "drawn T (map (rescore ranked) eps)" if "drawn T eps" for ranked eps
    using that by (auto simp: drawn_def rescore_def)
  have s: "drawn T (sort_desc c_score xs) = drawn T xs" for xs by (simp add: drawn_def)
  have "drawn T []" by (simp add: drawn_def)
  then show ?thesis
    using assms(2)
    by (auto simp: maxsim_atomic_recall_def Let_def s intro!: apply_radius_drawn r
        dest: legs_drawn(4) [OF assms(1)] split: if_splits sum.splits)
qed

lemma merge_by_id_max_drawn:
  assumes "drawn T primary" and "drawn T extra"
  shows "drawn T (merge_by_id_max primary extra)"
proof -
  let ?P = "\<lambda>d. \<forall>kv\<in>set d. (c_id (snd kv), c_meta (snd kv)) \<in> T"
  let ?step = "\<lambda>c d. case map_of d (c_id c) of
         None \<Rightarrow> AList.update (c_id c) c d
       | Some existing \<Rightarrow> if c_score existing < c_score c then AList.update (c_id c) c d else d"
  have up: "?P (AList.update (c_id c) c d)" if "?P d" "(c_id c, c_meta c) \<in> T" for c d
    using that set_update_sub [of "c_id c" c d] by fastforce
  have "?P d \<Longrightarrow> drawn T xs \<Longrightarrow> ?P (fold ?step xs d)" for xs d
  proof (induction xs arbitrary: d)
    case (Cons x xs)
    have "?P (?step x d)" using Cons.prems up [of d x] by (auto simp: drawn_def split: option.split)
    moreover have "drawn T xs" using Cons.prems(2) by (simp add: drawn_def)
    ultimately show ?case using Cons.IH by simp
  qed simp
  moreover have "?P (dict_of c_id id primary)" using assms(1) by (auto simp: drawn_def dest!: dict_of_mem)
  ultimately show ?thesis using assms(2) by (auto simp: merge_by_id_max_def drawn_def)
qed

lemma case_bridged_drawn:
  assumes "pinned_table T w (sv_skill sv)" and "case_bridged_skills sv bridge w k = Inr cs"
  shows "drawn T cs"
proof -
  have "drawn T (map (\<lambda>sc. sc\<lparr>c_score := f sc, c_source := x\<rparr>) xs) = drawn T xs" for f x and xs :: "cand list"
    by (auto simp: drawn_def)
  moreover have "drawn T []" by (simp add: drawn_def)
  ultimately show ?thesis
    using assms(2) by (auto simp: case_bridged_skills_def Let_def dest: legs_drawn(5) [OF assms(1)] split: if_splits sum.splits)
qed

section \<open>The items of an answer\<close>

definition home :: "string \<Rightarrow> string \<Rightarrow> string \<Rightarrow> string option \<times> string \<times> string" where
  "home oid app proj = (Some oid, space_or_default app, space_or_default proj)"

lemma home_in: "in_space4 oid ot app proj md \<Longrightarrow> meta_space md = home oid app proj"
  by (simp add: meta_space_in home_def)

lemma shaped_agent_space:
  "shape_agent_case_from_candidate c = Some x \<Longrightarrow> (Some (xc_agent_id x), xc_app_id x, xc_project_id x) = meta_space (c_meta c)"
  "shape_agent_skill_from_candidate c = Some y \<Longrightarrow> (Some (xs_agent_id y), xs_app_id y, xs_project_id y) = meta_space (c_meta c)"
  by (auto simp: shape_agent_case_from_candidate_def shape_agent_skill_from_candidate_def meta_space_def Let_def
      split: if_splits option.splits)

definition case_space :: "agent_case_item \<Rightarrow> string option \<times> string \<times> string" where
  "case_space x = (Some (xc_agent_id x), xc_app_id x, xc_project_id x)"

definition skill_space :: "agent_skill_item \<Rightarrow> string option \<times> string \<times> string" where
  "skill_space x = (Some (xs_agent_id x), xs_app_id x, xs_project_id x)"

lemma shaped_home:
  assumes "drawn (space_tags oid ot app proj) cs"
  shows "shape_episodes cs = Inr items \<Longrightarrow> it \<in> set items \<Longrightarrow> item_space it = home oid app proj"
    and "x \<in> set (somes (map shape_agent_case_from_candidate cs)) \<Longrightarrow> case_space x = home oid app proj"
    and "y \<in> set (somes (map shape_agent_skill_from_candidate cs)) \<Longrightarrow> skill_space y = home oid app proj"
proof -
  have c: "in_space4 oid ot app proj (c_meta c)" if "c \<in> set cs" for c
    using assms that by (auto simp: drawn_def space_tags_def)
  show "item_space it = home oid app proj" if sh: "shape_episodes cs = Inr items" "it \<in> set items"
  proof -
    obtain xs where xs: "collect (\<lambda>c. shape_episode_from_candidate c []) cs = Inr xs" "items = somes xs"
      using sh(1) by (auto simp: shape_episodes_def split: sum.splits)
    then have "Some it \<in> set xs" using sh(2) by (simp add: in_somes)
    then obtain c0 where "c0 \<in> set cs" "shape_episode_from_candidate c0 [] = Inr (Some it)"
      using collect_mem [OF xs(1)] by blast
    then show ?thesis using shaped_fields(4) c home_in by metis
  qed
  show "case_space x = home oid app proj" if "x \<in> set (somes (map shape_agent_case_from_candidate cs))"
    using that shaped_agent_space(1) c home_in by (fastforce simp: in_somes case_space_def)
  show "skill_space y = home oid app proj" if "y \<in> set (somes (map shape_agent_skill_from_candidate cs))"
    using that shaped_agent_space(2) c home_in by (fastforce simp: in_somes skill_space_def)
qed

context ranking_package
begin

lemma hybrid_full_yields:
  assumes "ag_lib ag = L" and "pinned_table T w episodes"
  shows "yields T (hybrid_full ag fs episodes w)"
proof -
  have "yields T (\<lambda>q k. rl_maxsim L q child (parent_fetch episodes w) k FACT_CHILD_CANDIDATES)" for child
    using maxsim_drawn [OF parent_fetch_drawn [OF assms(2)]] by (simp add: yields_def)
  from hybrid_drawn [OF this this] show ?thesis by (simp add: yields_def hybrid_full_def assms(1))
qed

lemma episodes_agentic_home:
  assumes "ag_lib ag = L" and "T = space_tags oid ot app proj" and "pinned_table T w episodes"
    and "search_episodes_agentic ag episodes fs clusters query w k = Inr items" and "it \<in> set items"
  shows "item_space it = home oid app proj"
proof -
  let ?full = "hybrid_full ag fs episodes w"
  obtain ks raw cs where c: "fetch_all_for_owner episodes w = Inr raw"
    "rl_agentic L query (\<lambda>q _. rl_cluster L q ?full None ks (map (\<lambda>c. c\<lparr>c_meta := to_doc_metadata (c_meta c)\<rparr>) raw) 10)
       (Some ?full) (ag_llm ag) (build_rerank_fn (ag_show ag) (ag_reranker ag) ''episode'' (Some RERANK_INSTRUCTION))
       \<lparr>ap_round2_cap = 40, ap_top_n = k, ap_round1_top_n = 50, ap_round1_rerank_top_n = 10,
        ap_refinement = ''multi_query'', ap_multi_query_count = 3, ap_rrf_k = 40\<rparr> = Inr cs"
    "shape_agentic_results cs = Inr items"
    using assms(4) by (auto simp: search_episodes_agentic_def assms(1) Let_def split: sum.splits)
  have full: "yields T ?full" by (rule hybrid_full_yields [OF assms(1,3)])
  have docs: "drawn T (map (\<lambda>c. c\<lparr>c_meta := to_doc_metadata (c_meta c)\<rparr>) raw)"
    using legs_drawn(6) [OF assms(3) c(1)] by (rule retagged [OF assms(3)]) (simp add: doc_metadata_in)
  have "yields T (\<lambda>q _. rl_cluster L q ?full None ks (map (\<lambda>c. c\<lparr>c_meta := to_doc_metadata (c_meta c)\<rparr>) raw) 10)"
    using cluster_drawn [OF full docs] by (simp add: yields_def)
  then have cs: "drawn T cs"
    using agentic_drawn [OF _ _ _ c(2)] full rerank_with_reorders by (simp add: build_rerank_fn_def)
  obtain xs where xs: "collect (\<lambda>c. case str_col (c_meta c) ''episode_id'' of None \<Rightarrow> Inr None
       | Some i \<Rightarrow> bind_result (restore_shaper_metadata (c_meta c)) (\<lambda>md.
           shape_episode_from_candidate (c\<lparr>c_id := i, c_meta := md\<rparr>) [])) cs = Inr xs" "Some it \<in> set xs"
    using c(3) assms(5) by (auto simp: shape_agentic_results_def in_somes split: sum.splits)
  obtain c0 where m: "c0 \<in> set cs" "(case str_col (c_meta c0) ''episode_id'' of None \<Rightarrow> Inr None
       | Some i \<Rightarrow> bind_result (restore_shaper_metadata (c_meta c0)) (\<lambda>md.
           shape_episode_from_candidate (c0\<lparr>c_id := i, c_meta := md\<rparr>) [])) = Inr (Some it)"
    using collect_mem [OF xs] by blast
  obtain i md where c0: "restore_shaper_metadata (c_meta c0) = Inr md"
    "shape_episode_from_candidate (c0\<lparr>c_id := i, c_meta := md\<rparr>) [] = Inr (Some it)"
    using m(2) by (cases "str_col (c_meta c0) ''episode_id''"; cases "restore_shaper_metadata (c_meta c0)") simp_all
  have "in_space4 oid ot app proj (c_meta c0)"
    using cs m(1) by (auto simp: drawn_def assms(2) space_tags_def)
  then have "in_space4 oid ot app proj md" using restored_in(2) [OF c0(1)] by simp
  with shaped_fields(4) [OF c0(2)] home_in show ?thesis by simp
qed

lemma run_agentic_drawn:
  assumes "ag_lib ag = L" and "pinned_table T w tb"
    and "\<And>a n cs. sp a w n = Inr cs \<Longrightarrow> drawn T cs" and "\<And>a n cs. dn a w n = Inr cs \<Longrightarrow> drawn T cs"
    and "reorders T rr" and "run_agentic_retrieve ag sp dn passage rr query w k = Inr cs"
  shows "drawn T cs"
proof -
  have nil: "drawn T []" by (simp add: drawn_def)
  have h: "yields T (agent_hybrid_full ag sp dn passage w)"
    unfolding yields_def
  proof (intro allI impI)
    fix q n cs assume "agent_hybrid_full ag sp dn passage w q n = Inr cs"
    then obtain hits where hits: "rl_hybrid L q
          (\<lambda>q k. bind_result (ag_embed ag q) (\<lambda>v. if v = [] then Inr [] else dn v w k))
          (\<lambda>q k. sp q w k) n 50 50 60 = Inr hits" and cs: "cs = map (\<lambda>c. c\<lparr>c_meta := agent_doc_metadata passage (c_meta c)\<rparr>) hits"
      by (auto simp: agent_hybrid_full_def assms(1) split: sum.splits)
    have "drawn T hits"
      by (rule hybrid_drawn [OF _ _ hits]) (use assms(3,4) nil in \<open>auto simp: yields_def split: sum.splits if_splits\<close>)
    then show "drawn T cs" unfolding cs by (rule retagged [OF assms(2)]) (simp add: doc_metadata_in)
  qed
  obtain out ap where out: "rl_agentic L query (agent_hybrid_full ag sp dn passage w) None (ag_llm ag) rr ap = Inr out"
    "collect (\<lambda>c. bind_result (agent_restore_metadata (c_meta c)) (\<lambda>md. Inr (c\<lparr>c_meta := md\<rparr>))) out = Inr cs"
    using assms(6) by (auto simp: run_agentic_retrieve_def assms(1) split: sum.splits)
  have out_in: "drawn T out" by (rule agentic_drawn [OF h _ assms(5) out(1)]) simp
  obtain oid ot app proj where T: "T = space_tags oid ot app proj" using assms(2) by (auto simp: pinned_table_def)
  have "in_space4 oid ot app proj (c_meta c)" if c: "c \<in> set cs" for c
  proof -
    obtain c0 where c0: "c0 \<in> set out"
      "bind_result (agent_restore_metadata (c_meta c0)) (\<lambda>md. Inr (c0\<lparr>c_meta := md\<rparr>)) = Inr c"
      using collect_mem [OF out(2) c] by blast
    obtain md where md: "agent_restore_metadata (c_meta c0) = Inr md" "c = c0\<lparr>c_meta := md\<rparr>"
      using c0(2) by (cases "agent_restore_metadata (c_meta c0)") simp_all
    have "(c_id c0, c_meta c0) \<in> T" using out_in c0(1) by (simp add: drawn_def)
    then have "in_space4 oid ot app proj (c_meta c0)" by (simp add: T space_tags_def)
    with restored_in(3) [OF md(1)] show ?thesis by (simp add: md(2))
  qed
  then show ?thesis by (auto simp: drawn_def T space_tags_def)
qed

end

end
