(* ===== verification/Search_Home.thy ===== *)
theory Search_Home
  imports Search_Scope
begin

text \<open>
  The theorem of the search: an answer holds nothing of another owner, application or project,
  whatever the method, the filters, the providers and the ranking package do within their
  contracts.
\<close>

lemma keyed_dict: "keyed_pool (dict_of c_id id cs)"
  by (auto simp: keyed_pool_def list_all_iff dest!: dict_of_mem)

lemma resolved_positive: "validate_search q = Inr q' \<Longrightarrow> 0 < cap \<Longrightarrow> 0 < resolve_top_k (sr_top_k q) cap"
  by (auto simp: validate_search_def resolve_top_k_def split: if_splits)

section \<open>Episodes\<close>

lemma hybrid_answer:
  assumes "hybrid_episodes sv q w top_k sparse dense vector = Inr items"
  obtains fs shaped where
    "facts_for_episodes (sv_fact sv) (build_ep_to_fact_parents (fu_rrf (rl_fusion (sv_lib sv)) sparse dense None)) w
       (max (top_k * 2) 20) vector = Inr fs"
    and "reshape_hybrid_output (production_heap_expand (rl_fusion (sv_lib sv)) sparse dense fs top_k)
       (dict_of c_id id (sparse @ dense)) = Inr shaped"
    and "items = (case sr_min_score q of None \<Rightarrow> shaped | Some m \<Rightarrow> filter (\<lambda>s. m \<le> xe_score s) shaped)"
  using assms by (auto simp: hybrid_episodes_def Let_def split: sum.splits)

lemma hybrid_episodes_home:
  assumes "ranking_package (sv_lib sv)" and "0 < top_k"
    and sp: "drawn (space_tags oid ot app proj) sparse" and de: "drawn (space_tags oid ot app proj) dense"
    and "hybrid_episodes sv q w top_k sparse dense vector = Inr items" and "it \<in> set items"
  shows "item_space it = home oid app proj"
proof -
  let ?fu = "rl_fusion (sv_lib sv)" and ?T = "space_tags oid ot app proj"
  obtain fs shaped where
    shaped: "reshape_hybrid_output (production_heap_expand ?fu sparse dense fs top_k) (dict_of c_id id (sparse @ dense)) = Inr shaped"
    and items: "items = (case sr_min_score q of None \<Rightarrow> shaped | Some m \<Rightarrow> filter (\<lambda>s. m \<le> xe_score s) shaped)"
    by (rule hybrid_answer [OF assms(5)])
  note ranked = heap_expand_ranked [OF assms(2) refl]
  have "it \<in> set shaped" using items assms(6) by (auto split: option.splits)
  from reshape_items(3) [OF ranked(2) keyed_dict shaped this] show ?thesis
    unfolding item_source_def
  proof (elim disjE bexE conjE exE)
    fix s assume s: "s \<in> set (production_heap_expand ?fu sparse dense fs top_k)" "si_type s = ''episode''"
      "item_space it = meta_space (si_meta s)"
    have "(si_id s, si_meta s) \<in> (\<lambda>c. (c_id c, c_meta c)) ` set (fu_rrf ?fu sparse dense (Some 60))"
      using ranked(4) [OF s(1)] s(2) by (auto simp: ranked_item_def split: option.splits)
    then have "(si_id s, si_meta s) \<in> ?T"
      using ranking_package.rrf_drawn [OF assms(1) sp de] by (auto simp: drawn_def)
    then show ?thesis using s(3) home_in by (simp add: space_tags_def)
  next
    fix c assume c: "map_of (dict_of c_id id (sparse @ dense)) (xe_id it) = Some c" "item_space it = meta_space (c_meta c)"
    then have "c \<in> set (sparse @ dense)" by (auto dest!: map_of_SomeD dict_of_mem)
    then have "(c_id c, c_meta c) \<in> ?T" using sp de by (auto simp: drawn_def)
    then show ?thesis using c(2) home_in by (simp add: space_tags_def)
  qed
qed

lemma episode_legs_drawn:
  assumes "pinned_table T w tb"
  shows "episode_sparse_recall tok tb a w n = Inr cs \<Longrightarrow> drawn T cs" and "episode_dense_recall tb v w n = Inr cs \<Longrightarrow> drawn T cs"
  using legs_drawn [OF assms] by (auto simp: episode_sparse_recall_def episode_dense_recall_def)

lemma search_episodes_home:
  assumes "ranking_package (sv_lib sv)" and "validate_search q = Inr q"
    and "pinned_table (space_tags oid ot app proj) w (sv_episode sv)"
    and "search_episodes sv q w = Inr items" and "it \<in> set items"
  shows "item_space it = home oid app proj"
proof (cases "sr_method q")
  case AGENTIC
  have "ag_lib (agentic_env_of sv) = sv_lib sv" by (simp add: agentic_env_of_def)
  from ranking_package.episodes_agentic_home [OF assms(1) this refl assms(3) _ assms(5)] show ?thesis
    using assms(4) by (simp add: search_episodes_def AGENTIC)
next
  case KEYWORD
  then obtain cs where cs: "episode_sparse_recall (sv_tokenize sv) (sv_episode sv) (sr_query q) w (recall_limit (sr_top_k q) TOP_K_CAP) = Inr cs"
    "shape_episodes (take (resolve_top_k (sr_top_k q) TOP_K_CAP) cs) = Inr items"
    using assms(4) by (auto simp: search_episodes_def split: sum.splits)
  from shaped_home(1) [OF drawn_take [OF episode_legs_drawn(1) [OF assms(3) cs(1)]] cs(2) assms(5)] show ?thesis .
next
  case VECTOR
  then obtain cs where cs: "maxsim_atomic_recall sv q w (resolve_top_k (sr_top_k q) TOP_K_CAP) = Inr cs"
    "shape_episodes (take (resolve_top_k (sr_top_k q) TOP_K_CAP) cs) = Inr items"
    using assms(4) by (auto simp: search_episodes_def Let_def split: sum.splits)
  from shaped_home(1) [OF drawn_take [OF maxsim_atomic_drawn [OF assms(3) cs(1)]] cs(2) assms(5)] show ?thesis .
next
  case HYBRID
  then obtain sparse dense vector where r: "recall_sparse_dense sv (episode_sparse_recall (sv_tokenize sv) (sv_episode sv))
      (episode_dense_recall (sv_episode sv)) q w TOP_K_CAP = Inr (sparse, dense, vector)"
    "hybrid_episodes sv q w (resolve_top_k (sr_top_k q) TOP_K_CAP) sparse dense vector = Inr items"
    using assms(4) by (auto simp: search_episodes_def Let_def split: sum.splits)
  have "drawn (space_tags oid ot app proj) sparse \<and> drawn (space_tags oid ot app proj) dense"
    using sparse_dense_drawn [OF _ _ r(1)] episode_legs_drawn [OF assms(3)] by blast
  moreover have "0 < resolve_top_k (sr_top_k q) TOP_K_CAP"
    using resolved_positive [OF assms(2)] by (simp add: TOP_K_CAP_def)
  ultimately show ?thesis using hybrid_episodes_home [OF assms(1) _ _ _ r(2) assms(5)] by blast
qed

section \<open>Cases and skills\<close>

lemma agent_legs_drawn:
  assumes "pinned_table T w tb"
  shows "case_sparse_recall tok tb a w n = Inr cs \<Longrightarrow> drawn T cs" and "case_dense_recall tb v w n = Inr cs \<Longrightarrow> drawn T cs"
    and "skill_sparse_recall tok tb a w n = Inr cs \<Longrightarrow> drawn T cs" and "skill_dense_recall tb v w n = Inr cs \<Longrightarrow> drawn T cs"
  using legs_drawn [OF assms]
  by (auto simp: case_sparse_recall_def case_dense_recall_def skill_sparse_recall_def skill_dense_recall_def)

lemma scored_home:
  assumes "drawn (space_tags oid ot app proj) (map scored_as_candidate out)"
  shows "x \<in> set (somes (map (shape_agent_case_from_candidate \<circ> scored_as_candidate) out)) \<Longrightarrow> case_space x = home oid app proj"
    and "y \<in> set (somes (map (shape_agent_skill_from_candidate \<circ> scored_as_candidate) out)) \<Longrightarrow> skill_space y = home oid app proj"
  using shaped_home(2,3) [OF assms] by (simp_all add: comp_def)

lemma search_cases_home:
  assumes "ranking_package (sv_lib sv)" and "pinned_table (space_tags oid ot app proj) w (sv_case sv)"
    and "search_agent_cases sv q w = Inr xs" and "x \<in> set xs"
  shows "case_space x = home oid app proj"
proof -
  let ?T = "space_tags oid ot app proj" and ?sp = "case_sparse_recall (sv_tokenize sv) (sv_case sv)" and ?dn = "case_dense_recall (sv_case sv)"
  note legs = agent_legs_drawn(1,2) [OF assms(2)]
  have lib: "ag_lib (agentic_env_of sv) = sv_lib sv" by (simp add: agentic_env_of_def)
  consider (agentic) "sr_method q = AGENTIC" | (single) "sr_method q \<in> {KEYWORD, VECTOR}" | (hybrid) "sr_method q = HYBRID"
    by (cases "sr_method q") auto
  then show ?thesis
  proof cases
    case agentic
    then obtain cs where cs: "run_agentic_retrieve (agentic_env_of sv) (case_sparse_recall (ag_tokenize (agentic_env_of sv)) (sv_case sv)) ?dn
        (format_case_passage (ag_show (agentic_env_of sv)))
        (build_case_rerank_fn (ag_show (agentic_env_of sv)) (ag_reranker (agentic_env_of sv))) (sr_query q) w
        (resolve_top_k (sr_top_k q) TOP_K_CAP) = Inr cs" "xs = somes (map shape_agent_case_from_candidate cs)"
      using assms(3) by (auto simp: search_agent_cases_def search_agent_cases_agentic_def split: sum.splits)
    have "drawn ?T cs"
      by (rule ranking_package.run_agentic_drawn [OF assms(1) lib assms(2) agent_legs_drawn(1) [OF assms(2)] legs(2) _ cs(1)])
        (simp_all add: build_case_rerank_fn_def rerank_with_reorders)
    with shaped_home(2) assms(4) cs(2) show ?thesis by blast
  next
    case single
    then have "resolve_pipeline (sr_method q) Kind_agent_case = Inr None" by auto
    then obtain cs where cs: "single_route_recall sv ?sp ?dn q w AGENT_TOP_K_CAP = Inr cs"
      "xs = somes (map shape_agent_case_from_candidate (take (resolve_top_k (sr_top_k q) AGENT_TOP_K_CAP) cs))"
      using assms(3) single by (auto simp: search_agent_cases_def Let_def split: sum.splits)
    have "drawn ?T cs" using single_route_drawn [OF _ _ cs(1)] legs by blast
    with shaped_home(2) [OF drawn_take] assms(4) cs(2) show ?thesis by blast
  next
    case hybrid
    then obtain sparse dense v out inp m l e n where r: "recall_sparse_dense sv ?sp ?dn q w AGENT_TOP_K_CAP = Inr (sparse, dense, v)"
      "rl_arank (sv_lib sv) inp m l e n = Inr out" "ri_sparse inp = sparse" "ri_dense inp = dense"
      "xs = somes (map (shape_agent_case_from_candidate \<circ> scored_as_candidate) out)"
      using assms(3) by (auto simp: search_agent_cases_def Let_def split: sum.splits)
    have "drawn ?T sparse \<and> drawn ?T dense" using sparse_dense_drawn [OF _ _ r(1)] legs by blast
    with ranking_package.arank_drawn [OF assms(1) _ _ r(2)] r(3,4) have "drawn ?T (map scored_as_candidate out)" by simp
    with scored_home(1) assms(4) r(5) show ?thesis by blast
  qed
qed

lemma search_skills_home:
  assumes "ranking_package (sv_lib sv)" and "pinned_table (space_tags oid ot app proj) w (sv_skill sv)"
    and "search_agent_skills sv q w bridge = Inr xs" and "x \<in> set xs"
  shows "skill_space x = home oid app proj"
proof -
  let ?T = "space_tags oid ot app proj" and ?sp = "skill_sparse_recall (sv_tokenize sv) (sv_skill sv)" and ?dn = "skill_dense_recall (sv_skill sv)"
  let ?k = "resolve_top_k (sr_top_k q) AGENT_TOP_K_CAP"
  let ?rr = "case sv_reranker sv of None \<Rightarrow> (\<lambda>_ _ _. Inl Se_attribute) | Some r \<Rightarrow> r"
  note legs = agent_legs_drawn(3,4) [OF assms(2)]
  have lib: "ag_lib (agentic_env_of sv) = sv_lib sv" by (simp add: agentic_env_of_def)
  consider (agentic) "sr_method q = AGENTIC" | (single) "sr_method q \<in> {KEYWORD, VECTOR}" | (hybrid) "sr_method q = HYBRID"
    by (cases "sr_method q") auto
  then show ?thesis
  proof cases
    case agentic
    then obtain cs where cs: "run_agentic_retrieve (agentic_env_of sv) (skill_sparse_recall (ag_tokenize (agentic_env_of sv)) (sv_skill sv)) ?dn
        (format_skill_passage (ag_show (agentic_env_of sv)))
        (build_skill_rerank_fn (ag_show (agentic_env_of sv)) (ag_reranker (agentic_env_of sv))) (sr_query q) w ?k = Inr cs"
      "xs = somes (map shape_agent_skill_from_candidate cs)"
      using assms(3) by (auto simp: search_agent_skills_def search_agent_skills_agentic_def Let_def split: sum.splits)
    have "drawn ?T cs"
      by (rule ranking_package.run_agentic_drawn [OF assms(1) lib assms(2) agent_legs_drawn(3) [OF assms(2)] legs(2) _ cs(1)])
        (simp_all add: build_skill_rerank_fn_def rerank_with_reorders)
    with shaped_home(3) assms(4) cs(2) show ?thesis by blast
  next
    case single
    then have "resolve_pipeline (sr_method q) Kind_agent_skill = Inr None" by auto
    then obtain cs where cs: "single_route_recall sv ?sp ?dn q w AGENT_TOP_K_CAP = Inr cs"
      "xs = somes (map shape_agent_skill_from_candidate (take ?k cs))"
      using assms(3) single by (auto simp: search_agent_skills_def Let_def split: sum.splits)
    have "drawn ?T cs" using single_route_drawn [OF _ _ cs(1)] legs by blast
    with shaped_home(3) [OF drawn_take] assms(4) cs(2) show ?thesis by blast
  next
    case hybrid
    then obtain sparse dense0 v bridged where r: "recall_sparse_dense sv ?sp ?dn q w AGENT_TOP_K_CAP = Inr (sparse, dense0, v)"
      "case_bridged_skills sv bridge w ?k = Inr bridged"
      and rest: "(if effective_llm_rerank q
         then bind_result (rl_arank (sv_lib sv)
                \<lparr>ri_query = sr_query q, ri_memory_type = ''skill'', ri_sparse = sparse, ri_dense = merge_by_id_max dense0 bridged,
                 ri_top_k = ?k, ri_radius = effective_radius q\<rparr> None (sv_llm sv) True ?k)
                (\<lambda>out. Inr (somes (map (shape_agent_skill_from_candidate \<circ> scored_as_candidate) out)))
         else search_agent_skills_hybrid (sv_show sv) (rl_fusion (sv_lib sv)) ?rr (sr_query q) sparse (merge_by_id_max dense0 bridged) ?k)
         = Inr xs"
      using assms(3) by (auto simp: search_agent_skills_def Let_def split: sum.splits)
    have sp: "drawn ?T sparse" and "drawn ?T dense0" using sparse_dense_drawn [OF _ _ r(1)] legs by blast+
    then have de: "drawn ?T (merge_by_id_max dense0 bridged)"
      using merge_by_id_max_drawn case_bridged_drawn [OF assms(2) r(2)] by blast
    show ?thesis
    proof (cases "effective_llm_rerank q")
      case True
      then obtain out inp m l e n where o: "rl_arank (sv_lib sv) inp m l e n = Inr out" "ri_sparse inp = sparse"
        "ri_dense inp = merge_by_id_max dense0 bridged"
        "xs = somes (map (shape_agent_skill_from_candidate \<circ> scored_as_candidate) out)"
        using rest by (auto split: sum.splits)
      have "drawn ?T (map scored_as_candidate out)"
        using ranking_package.arank_drawn [OF assms(1) _ _ o(1)] sp de o(2,3) by simp
      with scored_home(2) assms(4) o(4) show ?thesis by blast
    next
      case False
      then obtain cs where cs: "cross_encoder_rerank (sv_show sv) ?rr (sr_query q)
          (fu_rrf (rl_fusion (sv_lib sv)) sparse (merge_by_id_max dense0 bridged) None) ?k = Inr cs"
        "xs = somes (map shape_agent_skill_from_candidate cs)"
        using rest by (auto simp: search_agent_skills_hybrid_def split: sum.splits)
      have f: "drawn ?T (fu_rrf (rl_fusion (sv_lib sv)) sparse (merge_by_id_max dense0 bridged) None)"
        by (rule ranking_package.rrf_drawn [OF assms(1) sp de])
      have "drawn ?T []" by (simp add: drawn_def)
      then have "drawn ?T cs"
        using cs(1) f rerank_with_reorders
        by (auto simp: cross_encoder_rerank_def build_skill_rerank_fn_def reorders_def intro!: drawn_take
            split: if_splits sum.splits)
      with shaped_home(3) assms(4) cs(2) show ?thesis by blast
    qed
  qed
qed

section \<open>The whole answer\<close>

definition item_homes :: "search_data \<Rightarrow> (string option \<times> string \<times> string) list" where
  "item_homes d = map item_space (sd_episodes d) @ map case_space (sd_agent_cases d) @ map skill_space (sd_agent_skills d)"

lemma search_owner_type: "sr_owner_type q \<in> {''user'', ''agent''}"
  by (simp add: sr_owner_type_def)

lemma answers_stay_home:
  assumes "quote_free (sv_iso sv)" and "ranking_package (sv_lib sv)"
    and "table_promises (sv_episode sv)" and "table_promises (sv_case sv)" and "table_promises (sv_skill sv)"
    and "handle_search sv q = Inr d"
  shows "set (item_homes d) \<subseteq> {home (sr_owner_id q) (sr_app_id q) (sr_project_id q)}"
    and "sr_owner_type q = ''user'' \<Longrightarrow> sd_agent_cases d = [] \<and> sd_agent_skills d = []"
    and "sr_owner_type q = ''agent'' \<Longrightarrow> sd_episodes d = [] \<and> sd_profiles d = []"
proof -
  let ?oid = "sr_owner_id q" and ?ot = "sr_owner_type q" and ?app = "sr_app_id q" and ?proj = "sr_project_id q"
  have v: "validate_search q = Inr q" and m: "search_memory sv q = Inr d"
    using assms(6) by (auto simp: handle_search_def validate_search_def split: sum.splits if_splits)
  obtain w where w: "compile_filters (sv_iso sv) (sr_filters q) ?oid ?ot ?app ?proj = Inr w"
    using m by (auto simp: search_memory_def split: sum.splits)
  note pinned = compiled_pins_table [OF _ assms(1) search_owner_type w]
  consider (user) "?ot = ''user''" | (agent) "?ot = ''agent''" "?ot \<noteq> ''user''"
    using search_owner_type [of q] by auto
  then have "set (item_homes d) \<subseteq> {home ?oid ?app ?proj} \<and>
      (?ot = ''user'' \<longrightarrow> sd_agent_cases d = [] \<and> sd_agent_skills d = []) \<and>
      (?ot = ''agent'' \<longrightarrow> sd_episodes d = [] \<and> sd_profiles d = [])"
  proof cases
    case user
    then obtain ps where d: "search_episodes sv q w = Inr (sd_episodes d)" "sd_agent_cases d = []" "sd_agent_skills d = []"
      using m w user by (auto simp: search_memory_def split: sum.splits)
    have "item_space it = home ?oid ?app ?proj" if "it \<in> set (sd_episodes d)" for it
      by (rule search_episodes_home [OF assms(2) v pinned [OF assms(3)] d(1) that])
    then show ?thesis using d user by (auto simp: item_homes_def)
  next
    case agent
    then obtain cases skills where c: "search_cases_and_skills sv q w = Inr (cases, skills)"
      and d: "sd_episodes d = []" "sd_profiles d = []" "sd_agent_cases d = cases" "sd_agent_skills d = skills"
      using m w agent by (auto simp: search_memory_def split: sum.splits)
    obtain bridge where cs: "search_agent_cases sv q w = Inr cases" "search_agent_skills sv q w bridge = Inr skills"
      using c by (auto simp: search_cases_and_skills_def split: sum.splits)
    have "case_space x = home ?oid ?app ?proj" if "x \<in> set cases" for x
      by (rule search_cases_home [OF assms(2) pinned [OF assms(4)] cs(1) that])
    moreover have "skill_space x = home ?oid ?app ?proj" if "x \<in> set skills" for x
      by (rule search_skills_home [OF assms(2) pinned [OF assms(5)] cs(2) that])
    ultimately show ?thesis using d agent by (auto simp: item_homes_def)
  qed
  then show "set (item_homes d) \<subseteq> {home ?oid ?app ?proj}"
    and "?ot = ''user'' \<Longrightarrow> sd_agent_cases d = [] \<and> sd_agent_skills d = []"
    and "?ot = ''agent'' \<Longrightarrow> sd_episodes d = [] \<and> sd_profiles d = []"
    by simp_all
qed

text \<open>
  C12: an accepted search answers within one space. Every episode, case and skill of the answer
  belongs to the owner, the application and the project of the request (an empty one is
  \<open>default\<close>), for all four methods, whatever the filters say; a user is given no cases and no
  skills, an agent no episodes and no profile. The store must read a \<open>where\<close> text by its
  conjuncts and the ranking package may only reorder and rescore what it was given.
\<close>

theorem search_stays_in_space:
  assumes "quote_free (sv_iso sv)" and "ranking_package (sv_lib sv)"
    and "table_promises (sv_episode sv)" and "table_promises (sv_case sv)" and "table_promises (sv_skill sv)"
    and "handle_search sv q = Inr d"
  shows "set (item_homes d) \<subseteq> {home (sr_owner_id q) (sr_app_id q) (sr_project_id q)}
    \<and> (if sr_owner_type q = ''user'' then sd_agent_cases d = [] \<and> sd_agent_skills d = []
        else sd_episodes d = [] \<and> sd_profiles d = [])"
  using answers_stay_home [OF assms] search_owner_type [of q] by auto

definition demo_episode_row :: "string \<Rightarrow> string \<Rightarrow> string \<Rightarrow> rat \<Rightarrow> lrow" where
  "demo_episode_row i owner project distance =
     [(''id'', Plain (JStr i)), (''entry_id'', Plain (JStr (i @ ''_e''))), (''owner_id'', Plain (JStr owner)),
      (''owner_type'', Plain (JStr ''user'')), (''app_id'', Plain (JStr ''default'')),
      (''project_id'', Plain (JStr project)), (''timestamp'', Instant 1780000000000000),
      (''episode'', Plain (JStr ''talk'')), (''_distance'', Plain (JFloat distance)),
      (''_score'', Plain (JFloat (1 - distance)))]"

definition demo_fact_row :: "string \<Rightarrow> string \<Rightarrow> rat \<Rightarrow> lrow" where
  "demo_fact_row i ep distance =
     [(''id'', Plain (JStr i)), (''parent_id'', Plain (JStr (ep @ ''_e''))), (''owner_id'', Plain (JStr ''u1'')),
      (''owner_type'', Plain (JStr ''user'')), (''app_id'', Plain (JStr ''default'')),
      (''project_id'', Plain (JStr ''p'')), (''fact'', Plain (JStr ''said'')), (''_distance'', Plain (JFloat distance))]"

definition demo_search_env :: "(string \<Rightarrow> lrow \<Rightarrow> bool) \<Rightarrow> lrow list \<Rightarrow> lrow list \<Rightarrow> (unit, unit, unit, profile_cols lance_row list) search_env" where
  "demo_search_env matches episodes fact_rows =
     \<lparr>sv_iso = (\<lambda>_. None), sv_tokenize = (\<lambda>s. [s]), sv_episode = list_recall_table matches episodes,
      sv_fact = list_recall_table matches fact_rows, sv_case = list_recall_table matches [],
      sv_skill = list_recall_table matches [], sv_profile = demo_get_env [], sv_buffer = [],
      sv_clusters = (\<lambda>_ _ _. Inr []), sv_embedding = Some \<lparr>em_embed = (\<lambda>_. Inr [1]), em_dim = Some 1\<rparr>,
      sv_reranker = None, sv_llm = None, sv_embedding_available = True, sv_rerank_available = False,
      sv_lib = simple_lib, sv_show = (\<lambda>_. [])\<rparr>"

definition demo_search :: "search_method \<Rightarrow> int \<Rightarrow> search_request" where
  "demo_search m k = \<lparr>sr_user_id = Some ''u1'', sr_agent_id = None, sr_app_id = ''default'', sr_project_id = ''p'',
     sr_query = ''x'', sr_method = m, sr_top_k = k, sr_radius = None, sr_min_score = None, sr_include_profile = False,
     sr_enable_llm_rerank = False, sr_filters = None\<rparr>"

lemma demo_promises:
  "quote_free (sv_iso (demo_search_env pin_matches es fs))" "ranking_package (sv_lib (demo_search_env pin_matches es fs))"
  "table_promises (sv_episode (demo_search_env pin_matches es fs))" "table_promises (sv_case (demo_search_env pin_matches es fs))"
  "table_promises (sv_skill (demo_search_env pin_matches es fs))"
  by (simp_all add: demo_search_env_def quote_free_def list_recall_promises simple_ranking.ranking_package_axioms)

theorem search_stays_in_space_witness:
  "\<exists>d. handle_search (demo_search_env pin_matches [demo_episode_row ''a'' ''u1'' ''p'' 0, demo_episode_row ''b'' ''u2'' ''p'' 0,
       demo_episode_row ''c'' ''u1'' ''q'' 0] []) (demo_search HYBRID 5) = Inr d
     \<and> length (sd_episodes d) = 1 \<and> set (item_homes d) \<subseteq> {(Some ''u1'', ''default'', ''p'')}"
proof -
  let ?sv = "demo_search_env pin_matches [demo_episode_row ''a'' ''u1'' ''p'' 0, demo_episode_row ''b'' ''u2'' ''p'' 0,
       demo_episode_row ''c'' ''u1'' ''q'' 0] []" and ?q = "demo_search HYBRID 5"
  have "case handle_search ?sv ?q of Inl _ \<Rightarrow> False | Inr d \<Rightarrow> length (sd_episodes d) = 1" by code_simp
  then obtain d where d: "handle_search ?sv ?q = Inr d" "length (sd_episodes d) = 1"
    by (auto split: sum.splits)
  have "set (item_homes d) \<subseteq> {home (sr_owner_id ?q) (sr_app_id ?q) (sr_project_id ?q)}"
    using search_stays_in_space [OF demo_promises d(1)] by blast
  moreover have "home (sr_owner_id ?q) (sr_app_id ?q) (sr_project_id ?q) = (Some ''u1'', ''default'', ''p'')" by code_simp
  ultimately show ?thesis using d by auto
qed

end
