(* ===== verification/Search_Times.thy ===== *)
theory Search_Times
  imports Search_Agentic
begin

text \<open>
  The agentic path turns the time of an episode into milliseconds and back. Between 2001 and
  2096 it comes back to the millisecond, or one millisecond early when it was whole: the float
  product can fall just below the whole number it stands for.
\<close>

lemma trunc_pos: "0 \<le> r \<Longrightarrow> trunc r = \<lfloor>r\<rfloor>"
  by (simp add: trunc_def)

lemma fl_near:
  assumes "\<bar>x\<bar> \<le> b"
  shows "\<bar>fl x - x\<bar> \<le> b / 2 ^ 53"
  using fl_error [of x] divide_right_mono [OF assms, of "2 ^ 53"] by simp

lemma product_near:
  fixes t :: int
  assumes "0 \<le> t" and "t \<le> 4000000000000000"
  shows "\<bar>fl (fl (of_int t / 1000000) * 1000) - of_int t / 1000\<bar> < 1 / 1000"
proof -
  let ?x = "of_int t / 1000000 :: rat"
  have t: "(of_int t :: rat) \<le> 4000000000000000" "(0 :: rat) \<le> of_int t"
    using assms by (metis of_int_le_iff of_int_numeral, simp)
  have x: "\<bar>?x\<bar> \<le> 4000000000" using t by simp
  have a: "\<bar>fl ?x - ?x\<bar> \<le> 4000000000 / 2 ^ 53" by (rule fl_near [OF x])
  have "\<bar>fl ?x * 1000\<bar> \<le> 4000000001000" using a x unfolding abs_le_iff by (simp add: field_simps)
  from fl_near [OF this] a show ?thesis unfolding abs_le_iff abs_less_iff by (simp add: field_simps)
qed

lemma ms_of_instant:
  assumes "0 < t" and "t \<le> 4000000000000000"
  shows "to_timestamp_ms t = t div 1000 \<or> (1000 dvd t \<and> to_timestamp_ms t = t div 1000 - 1)"
proof -
  let ?p = "fl (fl (of_int t / 1000000) * 1000)"
  have p: "\<bar>?p - of_int t / 1000\<bar> < 1 / 1000" using product_near assms by simp
  have p': "of_int t / 1000 - 1 / 1000 < ?p" "?p < of_int t / 1000 + 1 / 1000"
    using p unfolding abs_less_iff by linarith+
  have split: "t = 1000 * (t div 1000) + t mod 1000" by simp
  have r: "0 \<le> t mod 1000" "t mod 1000 \<le> 999" using pos_mod_bound [of 1000 t] by simp_all
  have q: "of_int t / 1000 = (of_int (t div 1000) :: rat) + of_int (t mod 1000) / 1000"
  proof -
    have "of_int t = 1000 * of_int (t div 1000) + (of_int (t mod 1000) :: rat)"
      by (metis split of_int_add of_int_mult of_int_numeral)
    then show ?thesis by (simp add: field_simps)
  qed
  have r': "(0 :: rat) \<le> of_int (t mod 1000)" "of_int (t mod 1000) \<le> (999 :: rat)"
    using r by (simp, metis of_int_le_iff of_int_numeral)
  have "(1 :: rat) \<le> of_int t" using assms(1) by simp
  then have "0 \<le> ?p" using p unfolding abs_less_iff by simp
  then have e: "to_timestamp_ms t = \<lfloor>?p\<rfloor>" by (simp add: to_timestamp_ms_def trunc_pos)
  have hi: "?p < of_int (t div 1000) + 1" and lo: "of_int (t div 1000) - 1 \<le> ?p"
    using p' r' q by linarith+
  show ?thesis
  proof (cases "t mod 1000 = 0")
    case True
    have "\<lfloor>?p\<rfloor> = t div 1000 \<or> \<lfloor>?p\<rfloor> = t div 1000 - 1" using hi lo by linarith
    then show ?thesis using True e by auto
  next
    case False
    then have "(1 :: rat) \<le> of_int (t mod 1000)" using r(1) by simp
    then have "of_int (t div 1000) \<le> ?p" using p' q by linarith
    then have "\<lfloor>?p\<rfloor> = t div 1000" using hi by linarith
    then show ?thesis using e by simp
  qed
qed

lemma instant_of_ms:
  assumes "1000000000000 \<le> m" and "m \<le> 4000000000000"
  shows "from_timestamp (of_int m) = Inr (m * 1000)"
proof -
  let ?s = "fl (of_int m / 1000)"
  let ?f = "(?s - of_int (trunc ?s)) * 1000000"
  have m: "(1000000000000 :: rat) \<le> of_int m" "(of_int m :: rat) \<le> 4000000000000"
    using assms by (metis of_int_le_iff of_int_numeral)+
  have s: "\<bar>?s - of_int m / 1000\<bar> \<le> 4000000000 / 2 ^ 53" using m by (intro fl_near) simp
  have "0 \<le> ?s" using s m(1) unfolding abs_le_iff by (simp add: field_simps)
  then have tr: "trunc ?s = \<lfloor>?s\<rfloor>" by (rule trunc_pos)
  have fr: "0 \<le> ?s - of_int (trunc ?s)" "?s - of_int (trunc ?s) < 1" unfolding tr by linarith+
  then have f: "\<bar>fl ?f - ?f\<bar> \<le> 1000000 / 2 ^ 53" by (intro fl_near) simp
  have "\<bar>fl ?f - of_int (m * 1000 - trunc ?s * 1000000)\<bar> < 1 / 2"
    using s f unfolding abs_le_iff abs_less_iff by (simp add: field_simps)
  then have "micros_of ?s = m * 1000" using round_half_even_near unfolding micros_of_def by fastforce
  moreover have "valid_instant (m * 1000)" using assms by (simp add: valid_instant_def)
  ultimately show ?thesis using m(1) by (simp add: from_timestamp_def MS_THRESHOLD_def)
qed

lemma restored_update:
  assumes "map_of md ''timestamp'' = Some (Instant t)" and "map_of md ''episode'' = Some (Plain (JStr e))"
    and "from_timestamp (of_int (to_timestamp_ms t)) = Inr t'"
  shows "\<exists>r. restore_shaper_metadata (to_doc_metadata md) = Inr r \<and>
    (\<forall>k. map_of r k = (if k = ''timestamp'' then Some (Instant t') else if k = ''text'' then Some (Plain (JStr e)) else map_of md k))"
  using assms
  by (auto simp: restore_shaper_metadata_def to_doc_metadata_def restored_time_def num_col_def update_conv' Let_def
      split: option.splits if_splits)

lemma restored_instant:
  assumes "1000000000001000 \<le> t" and "t \<le> 4000000000000000"
  obtains t' where "from_timestamp (of_int (to_timestamp_ms t)) = Inr t'"
    and "t' \<le> t \<and> t - t' \<le> 1000 \<and> (\<not> 1000 dvd t \<longrightarrow> t' = t - t mod 1000)"
proof -
  have d: "t div 1000 * 1000 = t - t mod 1000" by (simp add: minus_mod_eq_div_mult)
  have "1000000000001 \<le> t div 1000" "t div 1000 \<le> 4000000000000" using assms by linarith+
  moreover have ms: "to_timestamp_ms t = t div 1000 \<or> (1000 dvd t \<and> to_timestamp_ms t = t div 1000 - 1)"
    using assms by (intro ms_of_instant) simp_all
  ultimately have "from_timestamp (of_int (to_timestamp_ms t)) = Inr (to_timestamp_ms t * 1000)"
    by (intro instant_of_ms) auto
  moreover have "0 \<le> t mod 1000" "t mod 1000 < 1000" by simp_all
  ultimately show thesis using ms d by (intro that [of "to_timestamp_ms t * 1000"]) (auto simp: left_diff_distrib)
qed

end
