(* ===== verification/Search_Answers.thy ===== *)
theory Search_Answers
  imports Search_Home Search_Times
begin

text \<open>
  What the answer of a search is, beyond where it comes from: its size and order, the scores of the
  vector method, what the expansion of the hybrid method drops, the times of the agentic method, and
  what a search needs of the providers.
\<close>

section \<open>Order and size\<close>

abbreviation descending :: "('a \<Rightarrow> rat) \<Rightarrow> 'a list \<Rightarrow> bool" where
  "descending f xs \<equiv> sorted_wrt (\<lambda>x y. f y \<le> f x) xs"

lemma shape_episodes_keeps:
  assumes "shape_episodes cs = Inr items"
  shows "length items \<le> length cs" and "descending c_score cs \<Longrightarrow> descending xe_score items"
    and "it \<in> set items \<Longrightarrow> \<exists>c\<in>set cs. c_id c = xe_id it \<and> c_score c = xe_score it"
proof -
  obtain ys where ys: "collect (\<lambda>c. shape_episode_from_candidate c []) cs = Inr ys" "items = somes ys"
    using assms by (auto simp: shape_episodes_def split: sum.splits)
  have all: "list_all2 (\<lambda>c y. shape_episode_from_candidate c [] = Inr y) cs ys" using ys(1) by (simp add: collect_Inr)
  then have "length ys = length cs" by (simp add: list_all2_lengthD)
  then show "length items \<le> length cs" using length_somes [of ys] ys(2) by simp
  have src: "\<exists>c\<in>set cs. c_id c = xe_id it \<and> c_score c = xe_score it"
    if "list_all2 (\<lambda>c y. shape_episode_from_candidate c [] = Inr y) cs ys" "it \<in> set (somes ys)" for cs ys it
    using list_all2_right [OF that(1), of "Some it"] that(2) shaped_fields [of _ "[]" it] by (force simp: in_somes)
  then show "it \<in> set items \<Longrightarrow> \<exists>c\<in>set cs. c_id c = xe_id it \<and> c_score c = xe_score it" using all ys(2) by blast
  have "descending c_score cs \<Longrightarrow> descending xe_score (somes ys)"
    using all
  proof (induction rule: list_all2_induct)
    case (Cons c cs y ys)
    then have tail: "descending xe_score (somes ys)" by simp
    show ?case
    proof (cases y)
      case (Some it)
      have "xe_score it = c_score c" using shaped_fields [of c "[]" it] Cons.hyps(1) Some by simp
      moreover have "\<forall>x\<in>set (somes ys). xe_score x \<le> c_score c" using src [OF Cons.hyps(2)] Cons.prems by fastforce
      ultimately show ?thesis using tail by (simp add: somes_Cons Some)
    qed (use tail in \<open>simp add: somes_Cons\<close>)
  qed (simp add: somes_def)
  then show "descending c_score cs \<Longrightarrow> descending xe_score items" by (simp add: ys(2))
qed

lemma maxsim_descending: "maxsim_atomic_recall sv q w k = Inr cs \<Longrightarrow> descending c_score cs"
  using sorted_sort_desc [of c_score]
  by (auto simp: maxsim_atomic_recall_def apply_radius_def Let_def sorted_wrt_filter split: sum.splits if_splits option.splits)

text \<open>Each hit of the expansion counts for one episode of the answer.\<close>

definition counts_for :: "scored_item \<Rightarrow> string" where
  "counts_for s = (if si_type s = ''episode'' then si_id s else case si_parent s of None \<Rightarrow> si_id s | Some p \<Rightarrow> p)"

lemma hybrid_episodes_ranked:
  assumes "0 < top_k" and "hybrid_episodes sv q w top_k sparse dense vector = Inr items"
  shows "length items \<le> top_k" and "descending xe_score items" and "distinct (map xe_id items)"
    and "sr_min_score q = Some m \<Longrightarrow> it \<in> set items \<Longrightarrow> m \<le> xe_score it"
proof -
  let ?fu = "rl_fusion (sv_lib sv)"
  obtain fs shaped where
    shaped: "reshape_hybrid_output (production_heap_expand ?fu sparse dense fs top_k) (dict_of c_id id (sparse @ dense)) = Inr shaped"
    and items: "items = (case sr_min_score q of None \<Rightarrow> shaped | Some m \<Rightarrow> filter (\<lambda>s. m \<le> xe_score s) shaped)"
    by (rule hybrid_answer [OF assms(2)])
  let ?out = "production_heap_expand ?fu sparse dense fs top_k"
  note ranked = heap_expand_ranked [OF assms(1) refl]
  note shape = reshape_items [OF ranked(2) keyed_dict shaped]
  have sub: "length items \<le> length shaped" and ds: "distinct (map xe_id shaped) \<Longrightarrow> distinct (map xe_id items)"
    and so: "descending xe_score shaped \<Longrightarrow> descending xe_score items"
    by (auto simp: items distinct_map_filter sorted_wrt_filter split: option.split)
  have "xe_id ` set shaped \<subseteq> counts_for ` set ?out"
  proof
    fix i assume "i \<in> xe_id ` set shaped"
    then obtain it where it: "it \<in> set shaped" "i = xe_id it" by blast
    from shape(3) [OF it(1)] show "i \<in> counts_for ` set ?out"
      unfolding item_source_def
    proof (elim disjE bexE conjE)
      fix s assume "s \<in> set ?out" "si_type s = ''episode''" "si_id s = xe_id it"
      then show ?thesis by (auto simp: counts_for_def it(2) intro!: rev_image_eqI [of s])
    next
      assume "nested ?out (xe_id it) \<noteq> []"
      then obtain s where "s \<in> set (nested ?out (xe_id it))" by (meson last_in_set)
      then have "s \<in> set ?out" "si_type s \<noteq> ''episode''" "si_parent s = Some (xe_id it)"
        by (auto simp: nested_def)
      then show ?thesis by (auto simp: counts_for_def it(2) intro!: rev_image_eqI [of s])
    qed
  qed
  then have "card (xe_id ` set shaped) \<le> length ?out"
    by (meson List.finite_set card_image_le card_length card_mono finite_imageI le_trans)
  then have "length shaped \<le> top_k"
    using ranked(1) shape(1) by (metis distinct_card le_trans length_map set_map)
  then show "length items \<le> top_k" using sub by simp
  show "descending xe_score items" by (rule so [OF shape(2)])
  show "distinct (map xe_id items)" by (rule ds [OF shape(1)])
  show "sr_min_score q = Some m \<Longrightarrow> it \<in> set items \<Longrightarrow> m \<le> xe_score it" by (auto simp: items)
qed

lemma user_answer:
  assumes "handle_search sv q = Inr d"
  shows "validate_search q = Inr q"
    and "sr_owner_type q = ''user'' \<Longrightarrow> \<exists>w. compile_filters (sv_iso sv) (sr_filters q) (sr_owner_id q)
      ''user'' (sr_app_id q) (sr_project_id q) = Inr w \<and> search_episodes sv q w = Inr (sd_episodes d)"
    and "sr_owner_type q \<noteq> ''user'' \<Longrightarrow> sd_episodes d = []"
  using assms by (auto simp: handle_search_def validate_search_def search_memory_def split: sum.splits if_splits)

lemma search_episodes_ranked:
  assumes "validate_search q = Inr q" and "search_episodes sv q w = Inr items" and "sr_method q \<noteq> AGENTIC"
  shows "length items \<le> resolve_top_k (sr_top_k q) TOP_K_CAP"
    and "sr_method q \<noteq> KEYWORD \<Longrightarrow> descending xe_score items"
    and "sr_method q = HYBRID \<Longrightarrow> distinct (map xe_id items)
      \<and> (case sr_min_score q of None \<Rightarrow> True | Some m \<Rightarrow> list_all (\<lambda>it. m \<le> xe_score it) items)"
proof -
  let ?k = "resolve_top_k (sr_top_k q) TOP_K_CAP"
  have "length items \<le> ?k \<and> (sr_method q \<noteq> KEYWORD \<longrightarrow> descending xe_score items) \<and>
      (sr_method q = HYBRID \<longrightarrow> distinct (map xe_id items)
        \<and> (case sr_min_score q of None \<Rightarrow> True | Some m \<Rightarrow> list_all (\<lambda>it. m \<le> xe_score it) items))"
  proof (cases "sr_method q")
    case KEYWORD
    then obtain cs where "shape_episodes (take ?k cs) = Inr items"
      using assms(2) by (auto simp: search_episodes_def Let_def split: sum.splits)
    from shape_episodes_keeps(1) [OF this] show ?thesis using KEYWORD by simp
  next
    case VECTOR
    then obtain cs where cs: "maxsim_atomic_recall sv q w ?k = Inr cs" "shape_episodes (take ?k cs) = Inr items"
      using assms(2) by (auto simp: search_episodes_def Let_def split: sum.splits)
    have "descending c_score (take ?k cs)" using maxsim_descending [OF cs(1)] by (simp add: sorted_wrt_take)
    with shape_episodes_keeps(1,2) [OF cs(2)] show ?thesis using VECTOR by simp
  next
    case HYBRID
    then obtain sparse dense vector where h: "hybrid_episodes sv q w ?k sparse dense vector = Inr items"
      using assms(2) by (auto simp: search_episodes_def Let_def split: sum.splits)
    have "0 < ?k" using resolved_positive [OF assms(1)] by (simp add: TOP_K_CAP_def)
    from hybrid_episodes_ranked [OF this h] show ?thesis
      by (auto simp: list_all_iff split: option.split)
  qed (use assms(3) in simp)
  then show "length items \<le> ?k"
    and "sr_method q \<noteq> KEYWORD \<Longrightarrow> descending xe_score items"
    and "sr_method q = HYBRID \<Longrightarrow> distinct (map xe_id items)
      \<and> (case sr_min_score q of None \<Rightarrow> True | Some m \<Rightarrow> list_all (\<lambda>it. m \<le> xe_score it) items)"
    by simp_all
qed

text \<open>
  C13: the answer to a user is bounded and ordered. With any method but the agentic one it has at
  most \<open>top_k\<close> episodes (100 when \<open>top_k\<close> is -1); the vector and the hybrid method order them by
  falling score; the hybrid method returns no episode twice and, when the request sets
  \<open>min_score\<close>, none below it. This holds of any store, provider and fusion function.
\<close>

theorem user_answer_is_ranked:
  assumes "handle_search sv q = Inr d" and "sr_method q \<noteq> AGENTIC"
  shows "length (sd_episodes d) \<le> (if sr_top_k q = -1 then 100 else nat (sr_top_k q))
    \<and> (sr_method q \<noteq> KEYWORD \<longrightarrow> descending xe_score (sd_episodes d))
    \<and> (sr_method q = HYBRID \<longrightarrow> distinct (map xe_id (sd_episodes d))
        \<and> (case sr_min_score q of None \<Rightarrow> True | Some m \<Rightarrow> list_all (\<lambda>it. m \<le> xe_score it) (sd_episodes d)))"
proof (cases "sr_owner_type q = ''user''")
  case True
  obtain w where "search_episodes sv q w = Inr (sd_episodes d)" using user_answer(2) [OF assms(1) True] by blast
  from search_episodes_ranked [OF user_answer(1) [OF assms(1)] this assms(2)] show ?thesis
    by (simp add: resolve_top_k_def TOP_K_CAP_def)
qed (use user_answer(3) [OF assms(1)] in \<open>simp split: option.split\<close>)

definition two_episodes :: "lrow list" where
  "two_episodes = [demo_episode_row ''a'' ''u1'' ''p'' (1 / 10), demo_episode_row ''b'' ''u1'' ''p'' (1 / 2)]"

definition answer_ids :: "search_error + search_data \<Rightarrow> string list" where
  "answer_ids r = (case r of Inl _ \<Rightarrow> [] | Inr d \<Rightarrow> map xe_id (sd_episodes d))"

theorem user_answer_is_ranked_witness:
  "\<exists>d. handle_search (demo_search_env (\<lambda>_ _. True) two_episodes []) (demo_search HYBRID 5) = Inr d
     \<and> map xe_id (sd_episodes d) = [''a'', ''b''] \<and> descending xe_score (sd_episodes d)"
proof -
  let ?r = "handle_search (demo_search_env (\<lambda>_ _. True) two_episodes []) (demo_search HYBRID 5)"
  have "answer_ids ?r = [''a'', ''b'']" by code_simp
  then obtain d where d: "?r = Inr d" "map xe_id (sd_episodes d) = [''a'', ''b'']"
    by (auto simp: answer_ids_def split: sum.splits)
  have "sr_method (demo_search HYBRID 5) \<noteq> AGENTIC" "sr_method (demo_search HYBRID 5) \<noteq> KEYWORD"
    by (simp_all add: demo_search_def)
  then have "descending xe_score (sd_episodes d)" using user_answer_is_ranked [OF d(1)] by blast
  then show ?thesis using d by auto
qed


section \<open>The vector method\<close>

text \<open>The scores of the facts that name an entry.\<close>

definition fact_scores :: "cand list \<Rightarrow> string \<Rightarrow> rat set" where
  "fact_scores fs p = c_score ` set (filter (\<lambda>f. str_col (c_meta f) ''parent_id'' = Some p) fs)"

lemma cosine_score_bounds: "0 \<le> cosine_score_from_distance d \<and> cosine_score_from_distance d \<le> 1"
  by (simp add: cosine_score_from_distance_def Let_def split: option.split)

lemma read_distance_cosine:
  assumes "read_distance r = Inr x"
  shows "\<exists>d. x = cosine_score_from_distance d"
proof (cases "map_of r ''_distance''")
  case None
  then have "x = cosine_score_from_distance None" using assms by (simp add: read_distance_def)
  then show ?thesis by blast
next
  case (Some v)
  then have "x = cosine_score_from_distance None \<or> (\<exists>d. x = cosine_score_from_distance (Some d))"
    using assms unfolding read_distance_def
    by (cases v rule: float_of.cases; cases "float_of v") auto
  then show ?thesis by blast
qed

lemma near_leg_scores:
  assumes "near_leg col tb v w n = Inr fs" and "f \<in> set fs"
  shows "0 \<le> c_score f \<and> c_score f \<le> 1"
proof -
  consider (rows) rows where "collect vector_candidate rows = Inr fs" | (none) "fs = []"
    using assms(1) by (cases "v = []"; cases "rt_near tb col v w n") (simp_all add: near_leg_def)
  then show ?thesis
  proof cases
    case rows
    then obtain r where "vector_candidate r = Inr f" using collect_mem [OF rows assms(2)] by blast
    then obtain x where x: "read_distance r = Inr x" "row_to_candidate r ''vector'' x = Inr f"
      by (auto simp: vector_candidate_def split: sum.splits)
    obtain d where "x = cosine_score_from_distance d"
      using read_distance_cosine [OF x(1)] by blast
    then have "0 \<le> x \<and> x \<le> 1" by (simp add: cosine_score_bounds)
    then show ?thesis using x(2) by (auto simp: row_to_candidate_def split: option.splits)
  qed (use assms(2) in simp)
qed

lemma fact_scores_simps:
  "fact_scores [] p = {}"
  "fact_scores (fs @ [f]) p =
     (if str_col (c_meta f) ''parent_id'' = Some p then insert (c_score f) (fact_scores fs p) else fact_scores fs p)"
  "finite (fact_scores fs p)"
  by (auto simp: fact_scores_def)

lemma max_pool_scores:
  assumes "\<forall>f\<in>set fs. 0 \<le> c_score f"
  shows "distinct (map fst (max_pool fs))"
    and "map_of (max_pool fs) p = (if p = [] \<or> fact_scores fs p = {} then None else Some (Max (fact_scores fs p)))"
proof -
  have "distinct (map fst (max_pool fs)) \<and>
      (\<forall>p. map_of (max_pool fs) p = (if p = [] \<or> fact_scores fs p = {} then None else Some (Max (fact_scores fs p))))"
    using assms
  proof (induction fs rule: rev_induct)
    case (snoc f fs)
    let ?pool = "max_pool fs"
    have IH: "distinct (map fst ?pool)"
      "\<And>p. map_of ?pool p = (if p = [] \<or> fact_scores fs p = {} then None else Some (Max (fact_scores fs p)))"
      using snoc by simp_all
    have f: "0 \<le> c_score f" using snoc.prems by simp
    show ?case
    proof (cases "str_col (c_meta f) ''parent_id''")
      case None
      then have "max_pool (fs @ [f]) = ?pool" by (simp add: max_pool_def)
      then show ?thesis using IH None by (simp add: fact_scores_simps)
    next
      case (Some i)
      show ?thesis
      proof (cases "i = []")
        case True
        then have "max_pool (fs @ [f]) = ?pool" using Some by (simp add: max_pool_def)
        then show ?thesis using IH Some True by (simp add: fact_scores_simps)
      next
        case False
        have step: "max_pool (fs @ [f]) =
            (if (case map_of ?pool i of None \<Rightarrow> -1 | Some s \<Rightarrow> s) < c_score f then AList.update i (c_score f) ?pool else ?pool)"
          using Some False by (simp add: max_pool_def)
        show ?thesis
        proof (cases "fact_scores fs i = {}")
          case True
          then have "max_pool (fs @ [f]) = AList.update i (c_score f) ?pool" using step IH(2) [of i] f by simp
          then show ?thesis
            using IH Some True False by (auto simp: fact_scores_simps update_conv' distinct_update)
        next
          case n: False
          then have m: "map_of ?pool i = Some (Max (fact_scores fs i))" using IH(2) False by simp
          have M: "Max (insert (c_score f) (fact_scores fs i)) = max (c_score f) (Max (fact_scores fs i))"
            using n by (simp add: fact_scores_simps(3))
          show ?thesis
          proof (cases "Max (fact_scores fs i) < c_score f")
            case True
            then have "max_pool (fs @ [f]) = AList.update i (c_score f) ?pool" using step m by (simp del: Max_less_iff)
            moreover have "Max (insert (c_score f) (fact_scores fs i)) = c_score f" using M True by linarith
            ultimately show ?thesis
              using IH Some False n by (simp add: fact_scores_simps update_conv' distinct_update)
          next
            case less: False
            then have "max_pool (fs @ [f]) = ?pool" using step m by (simp del: Max_less_iff)
            moreover have "Max (insert (c_score f) (fact_scores fs i)) = Max (fact_scores fs i)" using M less by linarith
            ultimately show ?thesis using IH Some False n by (simp add: fact_scores_simps)
          qed
        qed
      qed
    qed
  qed (simp add: max_pool_def fact_scores_simps)
  then show "distinct (map fst (max_pool fs))"
    and "map_of (max_pool fs) p = (if p = [] \<or> fact_scores fs p = {} then None else Some (Max (fact_scores fs p)))"
    by simp_all
qed

lemma descending_take:
  assumes "descending f xs" and "x \<in> set (drop k xs)"
  shows "k = length (take k xs) \<and> (\<forall>y\<in>set (take k xs). f x \<le> f y)"
proof -
  have "descending f (take k xs @ drop k xs)" using assms(1) by simp
  moreover have "k \<le> length xs" using assms(2) by (metis drop_all in_set_dropD length_pos_if_in_set linorder_le_cases list.set(1) empty_iff)
  ultimately show ?thesis using assms(2) unfolding sorted_wrt_append by simp
qed

definition vector_score :: "cand list \<Rightarrow> string list \<Rightarrow> cand \<Rightarrow> rat" where
  "vector_score fs ranked c = (case str_col (c_meta c) ''entry_id'' of
     None \<Rightarrow> 0 | Some e \<Rightarrow> if e \<in> set ranked then Max (fact_scores fs e) else 0)"

lemma maxsim_by_facts:
  assumes "maxsim_atomic_recall sv q w k = Inr cs" and "cs \<noteq> []"
  obtains vector fs ranked where "embed_query (sv_embedding sv) (sr_query q) = Inr vector"
    and "fact_dense_recall (sv_fact sv) vector w (min (k * 20) 2000) = Inr fs"
    and "distinct ranked \<and> length ranked \<le> k \<and> list_all (\<lambda>p. p \<noteq> [] \<and> fact_scores fs p \<noteq> {}) ranked"
    and "\<And>p. p \<noteq> [] \<Longrightarrow> fact_scores fs p \<noteq> {} \<Longrightarrow> p \<notin> set ranked \<Longrightarrow>
      length ranked = k \<and> list_all (\<lambda>r. Max (fact_scores fs p) \<le> Max (fact_scores fs r)) ranked"
    and "\<And>c. c \<in> set cs \<Longrightarrow> c_score c = vector_score fs ranked c"
proof -
  obtain vector fs where v: "embed_query (sv_embedding sv) (sr_query q) = Inr vector"
    and fs: "fact_dense_recall (sv_fact sv) vector w (min (k * 20) 2000) = Inr fs" and pool: "max_pool fs \<noteq> []"
    using assms by (auto simp: maxsim_atomic_recall_def Let_def MAXSIM_FACT_MULTIPLIER_def MAXSIM_FACT_POOL_CAP_def
        split: sum.splits if_splits)
  let ?sorted = "sort_desc snd (max_pool fs)"
  let ?ranked = "take k ?sorted"
  obtain eps where eps: "fetch_by_entry_ids (sv_episode sv) (map fst ?ranked) w = Inr eps"
    and cs: "cs = apply_radius (sort_desc c_score (map (rescore ?ranked) eps)) (effective_radius q)"
    using assms v fs by (auto simp: maxsim_atomic_recall_def Let_def MAXSIM_FACT_MULTIPLIER_def MAXSIM_FACT_POOL_CAP_def
        split: sum.splits if_splits)
  have "\<forall>f\<in>set fs. 0 \<le> c_score f" using near_leg_scores fs by (auto simp: fact_dense_recall_def)
  note pooled = max_pool_scores [OF this]
  have ds: "distinct (map fst ?sorted)" using pooled(1) by (simp add: distinct_sort_desc)
  then have dr: "distinct (map fst ?ranked)" by (simp add: take_map [symmetric])
  have look: "map_of ?sorted p = map_of (max_pool fs) p" for p
    using map_of_eq_Some_iff [OF ds] map_of_eq_Some_iff [OF pooled(1)] by (metis not_None_eq set_sort_desc)
  have val: "s = Max (fact_scores fs p) \<and> p \<noteq> [] \<and> fact_scores fs p \<noteq> {}" if "(p, s) \<in> set ?sorted" for p s
    using map_of_is_SomeI [OF ds that] look pooled(2) by (auto split: if_splits)
  have vt: "s = Max (fact_scores fs p) \<and> p \<noteq> [] \<and> fact_scores fs p \<noteq> {}" if "(p, s) \<in> set ?ranked" for p s
    using val [OF in_set_takeD [OF that]] .
  show thesis
  proof (rule that [OF v fs, of "map fst ?ranked"])
    show "distinct (map fst ?ranked) \<and> length (map fst ?ranked) \<le> k
        \<and> list_all (\<lambda>p. p \<noteq> [] \<and> fact_scores fs p \<noteq> {}) (map fst ?ranked)"
      using dr by (auto simp: list_all_iff dest: vt)
    show "length (map fst ?ranked) = k \<and> list_all (\<lambda>r. Max (fact_scores fs p) \<le> Max (fact_scores fs r)) (map fst ?ranked)"
      if p: "p \<noteq> []" "fact_scores fs p \<noteq> {}" "p \<notin> set (map fst ?ranked)" for p
    proof -
      have "map_of ?sorted p = Some (Max (fact_scores fs p))" using look pooled(2) p by simp
      then have "(p, Max (fact_scores fs p)) \<in> set (take k ?sorted @ drop k ?sorted)"
        using map_of_SomeD by fastforce
      moreover have "(p, Max (fact_scores fs p)) \<notin> set (take k ?sorted)" using p(3) by (force simp: image_iff)
      ultimately have "(p, Max (fact_scores fs p)) \<in> set (drop k ?sorted)" unfolding set_append by blast
      from descending_take [OF sorted_sort_desc this]
      show ?thesis by (fastforce simp: list_all_iff dest: vt)
    qed
    show "c_score c = vector_score fs (map fst ?ranked) c" if "c \<in> set cs" for c
    proof -
      have "c \<in> rescore ?ranked ` set eps" using that by (auto simp: cs apply_radius_def split: option.splits)
      then obtain c0 where c: "c = rescore ?ranked c0" by blast
      have "map_of ?ranked e = (if e \<in> set (map fst ?ranked) then Some (Max (fact_scores fs e)) else None)" for e
      proof (cases "e \<in> set (map fst ?ranked)")
        case True
        then obtain x where "(e, x) \<in> set ?ranked" by auto
        moreover from this have "x = Max (fact_scores fs e)" using vt by blast
        ultimately show ?thesis using True map_of_is_SomeI [OF dr] by auto
      qed (simp add: map_of_eq_None_iff)
      then show ?thesis by (auto simp: c rescore_def vector_score_def split: option.split)
    qed
  qed
qed



section \<open>The times of the agentic method\<close>



definition demo_agentic_env :: "time \<Rightarrow> (unit, unit, unit, profile_cols lance_row list) search_env" where
  "demo_agentic_env t =
     (demo_search_env (\<lambda>_ _. True)
        [AList.update ''timestamp'' (Instant t) (demo_episode_row ''a'' ''u1'' ''p'' 0)] [demo_fact_row ''f'' ''a'' 0])
     \<lparr>sv_reranker := Some (\<lambda>_ ps _. Inr (map (\<lambda>i. (int i, 1)) [0..<length ps])), sv_llm := Some (),
      sv_rerank_available := True\<rparr>"

definition answer_times :: "search_error + search_data \<Rightarrow> search_error + time list" where
  "answer_times r = (case r of Inl e \<Rightarrow> Inl e | Inr d \<Rightarrow> Inr (map xe_timestamp (sd_episodes d)))"


section \<open>Providers\<close>

lemma keyword_agrees:
  assumes "sr_method q = KEYWORD" and "sv_iso sv' = sv_iso sv" and "sv_tokenize sv' = sv_tokenize sv"
    and "sv_episode sv' = sv_episode sv" and "sv_case sv' = sv_case sv" and "sv_skill sv' = sv_skill sv"
    and "sv_profile sv' = sv_profile sv" and "sv_buffer sv' = sv_buffer sv"
  shows "handle_search sv' q = handle_search sv q"
proof -
  have v: "validate_components sv' q = Inr ()" "validate_components sv q = Inr ()"
    using assms by (simp_all add: validate_components_def Let_def)
  have e: "search_episodes sv' q w = search_episodes sv q w" for w
    using assms by (simp add: search_episodes_def)
  have c: "search_agent_cases sv' q w = search_agent_cases sv q w"
    and s: "search_agent_skills sv' q w b = search_agent_skills sv q w b" for w b
    using assms by (simp_all add: search_agent_cases_def search_agent_skills_def single_route_recall_def)
  have p: "search_profile sv' q = search_profile sv q" "load_unprocessed sv' q = load_unprocessed sv q"
    using assms by (simp_all add: search_profile_def load_unprocessed_def split: option.split)
  have "search_memory sv' q = search_memory sv q"
    unfolding search_memory_def v p search_cases_and_skills_def e c s assms(2) ..
  then show ?thesis unfolding handle_search_def validate_search_def by simp
qed

text \<open>
  C32: a keyword search needs no model. Whatever embedding, rerank and language model providers are
  configured or missing, and whatever the ranking package does, its answer or error is the same.
\<close>

theorem keyword_search_needs_no_provider:
  assumes "sr_method q = KEYWORD"
  shows "handle_search (sv\<lparr>sv_embedding := em, sv_reranker := rr, sv_llm := lm, sv_embedding_available := ea,
      sv_rerank_available := ra, sv_lib := lib, sv_clusters := cl\<rparr>) q = handle_search sv q"
  by (rule keyword_agrees [OF assms]) simp_all

theorem keyword_search_needs_no_provider_witness:
  "answer_ids (handle_search ((demo_search_env (\<lambda>_ _. True) two_episodes [])
       \<lparr>sv_embedding := None, sv_reranker := None, sv_llm := None, sv_embedding_available := False,
        sv_rerank_available := False, sv_lib := simple_lib, sv_clusters := (\<lambda>_ _ _. Inl Se_value)\<rparr>)
       (demo_search KEYWORD 5)) = [''a'', ''b'']"
proof -
  have "sr_method (demo_search KEYWORD 5) = KEYWORD" by (simp add: demo_search_def)
  note same = keyword_search_needs_no_provider [OF this]
  have "answer_ids (handle_search (demo_search_env (\<lambda>_ _. True) two_episodes []) (demo_search KEYWORD 5)) = [''a'', ''b'']"
    by code_simp
  then show ?thesis by (simp only: same)
qed

section \<open>Unprocessed messages\<close>

lemma unprocessed_of:
  assumes "handle_search sv q = Inr d" and "extract_top_level_session_id (sr_filters q) = Some sid"
  shows "sd_unprocessed d = map unprocessed_buffer_to_dto
    (list_for_track (sr_app_id q, sr_project_id q, sid) (sv_buffer sv))"
  using assms
  by (auto simp: handle_search_def validate_search_def search_memory_def load_unprocessed_def split: sum.splits if_splits)


definition session_search :: search_request where
  "session_search = (demo_search KEYWORD 5)\<lparr>sr_project_id := ''default'', sr_filters := Some (Filter_node None None [(''session_id'', JStr ''s'')])\<rparr>"


end
