(* ===== verification/Spec2Isabelle.thy ===== *)
theory Spec2Isabelle
  imports Change_Queue Kind_Registry Reconcile Cascade_Worker Index_Maintenance Markdown_Entries Daily_Handler Cascade_Sync Ome_Stores Ome_Registry Ome_Dispatch Ome_Engine Ome_Reload Search_Filters Named_Handlers Memory_Get Memorize Structured_Entries Frontmatter Daily_Writer Daily_Log Writer_Locks Search_Answers
begin

text \<open>
  Verification development of the EverOS memory service, Python package \<open>src/everos\<close>
  (paths below are relative to it).

  \<^bold>\<open>The program.\<close> EverOS keeps the memory of a user or an agent as Markdown files under a
  memory root and serves it from two derived stores: a SQLite database with the working
  tables and a LanceDB vector index. Four parts work on them.

  \<^item> \<^emph>\<open>Memorize\<close> (\<open>service/memorize.py\<close>, \<open>service/_boundary.py\<close>) takes a batch of
    messages, parks it in a buffer table, cuts the buffer into cells when an LLM finds a
    boundary, files the cells and starts the extraction pipelines, which write Markdown.
  \<^item> The \<^emph>\<open>offline memory engine\<close> (OME, \<open>infra/ome\<close>) runs the extraction strategies on
    events, timers and idle sessions, with gates, retries and crash recovery.
  \<^item> The \<^emph>\<open>cascade\<close> (\<open>memory/cascade\<close>) notices changed Markdown files by a watcher and a
    periodic sweep, queues them in \<open>md_change_state\<close> and brings the vector index into
    agreement with the disk. It is the only writer of the index.
  \<^item> \<^emph>\<open>Search and get\<close> (\<open>memory/search\<close>, \<open>memory/get\<close>) read the index back, with a
    filter language compiled to the text of a \<open>where\<close> clause.

  \<^bold>\<open>Theories and code.\<close>

  \<^item> \<open>Prelude\<close>: tables as lists of rows with the primary-key operations of SQL, decimal
    numerals, substrings, padding, joining and stripping of text.
  \<^item> \<open>Change_Queue\<close>: the table and repository \<open>md_change_state\<close>. A queue is the list of
    its rows; every repository method is a function on it. Lemmas: the LSNs are unique and
    ordered on every reachable queue, a claim takes the oldest claimable rows and marks
    exactly them, an enqueue during processing beats the verdict of the older work.
  \<^item> \<open>Kind_Registry\<close>: the path globs of the memory kinds and \<open>match_kind\<close>
    (\<open>registry.py\<close>, the frontmatter schemas). Lemmas: no path has two kinds.
  \<^item> \<open>Reconcile\<close>: the pure \<open>reconcile\<close> of \<open>reconciler.py\<close>, the scanner and the watcher.
    A file system is a map from paths to stat results. Lemmas: the queue after a sweep, row
    by row; a present file is never deleted; an unreadable kind changes nothing.
  \<^item> \<open>Cascade_Worker\<close>: \<open>worker.py\<close>, from the claim to the verdict, and the draining
    loops. Handlers act on a world of any type. Lemmas: what a verdict does to a row, no
    claim is lost in any interleaving of the phases (\<open>cascade_step\<close>), a drain ends with an
    empty queue, an outage spends the retry budget in a known number of sweeps.
  \<^item> \<open>Index_Maintenance\<close>: the optimisation beats, the rebuild ladder, the supervision of
    the loops and the health verdict, also of \<open>worker.py\<close>.
  \<^item> \<open>Markdown_Entries\<close>, \<open>Structured_Entries\<close>: entry ids, markers, splitting and appending,
    and the audit form of an entry body with the backtracking of its patterns
    (\<open>core/persistence/markdown/entries.py\<close>).
  \<^item> \<open>Frontmatter\<close>: the frontmatter block, the reader and directory names made from free text
    (\<open>frontmatter.py\<close>, \<open>reader.py\<close>, \<open>path_safety.py\<close>). YAML is a parameter with the laws of
    the locale \<open>yaml_codec\<close>.
  \<^item> \<open>Daily_Writer\<close>, \<open>Daily_Log\<close>: \<open>MarkdownWriter\<close> and the business writers and readers of
    the daily logs (\<open>infra/persistence/markdown\<close>). Lemmas: an appended entry is found under
    its fresh id with the fields written, and every write stays inside the memory root.
  \<^item> \<open>Writer_Locks\<close>: concurrent appends as a step relation over the lock of one path. Lemmas:
    appends through one writer are those of a serial order; two writers lose one.
  \<^item> \<open>Daily_Handler\<close>: the handler of the daily-log kinds (\<open>_daily_log_base.py\<close> and its
    four subclasses). The vector table is a type behind the operations of the record
    \<open>lance_ops\<close>; the locale \<open>lance_table\<close> states what they promise and is interpreted on
    lists of rows. Lemmas: after a run the table holds one row for each entry of the file
    and, with unchanged digest, the same row as before.
  \<^item> \<open>Named_Handlers\<close>: the handlers of the single-file kinds (\<open>agent_skill.py\<close>,
    \<open>user_profile.py\<close>), over the same table operations.
  \<^item> \<open>Cascade_Sync\<close>: the cascade end to end. The locale \<open>handler_contract\<close> says what a
    drain needs of handlers, is interpreted on the daily handlers, and gives the theorem
    that one \<open>sync_once\<close> leaves the index in agreement with the disk.
  \<^item> \<open>Ome_Stores\<close>: the counter, idle and run-record tables (\<open>infra/ome/_stores\<close>).
  \<^item> \<open>Ome_Registry\<close>: events, triggers, strategies, the registry and its validation, with
    Kahn's loop over the emission graph.
  \<^item> \<open>Ome_Dispatch\<close>: the gates of the dispatcher in their order, and its dry run.
  \<^item> \<open>Ome_Engine\<close>: the runner's attempt loop, recovery, waiting for the runs of an event,
    and the life cycle (\<open>engine.py\<close>, \<open>runner.py\<close>, \<open>crash_recovery.py\<close>,
    \<open>idle_scanner.py\<close>). Lemmas: the in-flight counter is exact in every reachable state,
    the history a run leaves in its table, what recovery resumes.
  \<^item> \<open>Ome_Reload\<close>: applying the override file to a running engine (\<open>config.py\<close>,
    \<open>config_reloader.py\<close>).
  \<^item> \<open>Search_Filters\<close>: the filter compiler (\<open>memory/search/filters.py\<close>) down to its text,
    read back by a small SQL reader: no value of a filter can leave its quotes and the
    pinned columns hold for every answer.
  \<^item> \<open>Memory_Get\<close>: \<open>POST /get\<close>, its validators, paging and shaping.
  \<^item> \<open>Search_Recall\<close>, \<open>Search_Shaper\<close>, \<open>Search_Hierarchy\<close>, \<open>Search_Agentic\<close>: the recall
    legs (\<open>memory/search/recall\<close>), the items of an answer (\<open>shaper.py\<close>), the heap expansion of
    the hybrid method (\<open>hierarchy.py\<close>), the callbacks and the agentic paths.
  \<^item> \<open>Search_Manager\<close>: \<open>POST /search\<close>, its validators and \<open>SearchManager\<close>. The stores, the
    providers and the ranking package are parameters; the locales \<open>recall_store\<close>,
    \<open>pinned_recall\<close> and \<open>ranking_package\<close> say what a search needs of them, and they are
    interpreted on tables that are lists of rows and on a simple ranking.
  \<^item> \<open>Search_Scope\<close>, \<open>Search_Home\<close>, \<open>Search_Times\<close>, \<open>Search_Answers\<close>: what an answer is. It
    stays in the owner's space, is ranked and bounded, carries the times of the rows, and the
    keyword method asks no provider. \<open>Py_Float\<close> is the rounding of Python's \<open>float\<close> that the
    times need; scores are exact rationals everywhere.
  \<^item> \<open>Memorize\<close>: ingest, the boundary stage and the two pipelines, in an action type that
    keeps the tables when it raises. Lemmas: each accepted message is in the buffer or in a
    filed cell, in every sequence of calls.

  \<^bold>\<open>State and effects.\<close> A database transaction is a function on the table, a handler or a
  call returns its result with the changed state, and errors are values: a sum for a raise, a
  constructor of an outcome type for a verdict. Where tasks interleave (the claims of a
  batch, the jobs of the engine) an inductive step relation has one rule for each step a task
  takes, and invariants are proved over the reachable states.

  \<^bold>\<open>Bounds.\<close> The loops of the code carry their own bounds and the model keeps them:
  \<open>MAX_PASSES\<close> is 100 drain passes and \<open>drain_empties_queue\<close> says when they suffice, the
  retry budget of a row is \<open>MAX_TOTAL_RETRIES\<close>, \<open>max_fetch\<close> is 20000 rows of a listing, the detector
  has \<open>BOUNDARY_MAX_ATTEMPTS\<close> and an extraction \<open>EXTRACT_MAX_RETRIES\<close>. The polling loop
  of \<open>wait_for_event\<close> runs over the list of its polls, which the deadline makes finite.
  Other loops recurse on a list or have a measure; Kahn's loop is a partial function
  shown to return a value.

  \<^bold>\<open>Parameters.\<close> Code that is not part of the repository is an argument: the digest, the
  tokeniser and the embedding service of the handlers, the vector table, ISO rendering of an
  instant, the LLM boundary detector and the extractor, strategy bodies and predicates, the clock and
  fresh uuids, and whether a commit or the scheduler fails. Hypotheses about them are named
  definitions or locale assumptions, each with an instance (\<open>list_ops\<close>, \<open>list_view\<close> and
  the \<open>demo\<close> environments of the witnesses).

  \<^bold>\<open>Not modelled.\<close> Scheduling of asyncio tasks beyond the interleavings above, file locks,
  connection handling and schema migration, tracing and metrics are not modelled. Of the
  remaining packages, \<open>entrypoints\<close>, \<open>config\<close>, \<open>component\<close> and the prompt code of
  \<open>memory/extract\<close> and \<open>memory/strategies\<close> move data between external services and hold
  little logic to verify. Planned: fusion of recall legs in
  \<open>memory/search\<close>, the knowledge service and its handlers, reflection, and the backfill
  driver.
\<close>

end
